(* ===== verification/Prelude.thy ===== *)
theory Prelude
  imports Main "HOL-Library.Word"
begin

text \<open>
  Shared vocabulary of the development: the Rust machine integers and their checked and
  saturating operations, results as sums, text as lists of Unicode scalar values, and the
  list operations (first position, indexed read, positioned write) the components share.

  \<^item> \<open>u8\<close>, \<open>u32\<close>, \<open>u64\<close> are words of their width; \<open>usize\<close> is a natural number, and a
    conversion from \<open>u64\<close> goes through \<open>try_usize\<close>, which knows the platform's largest
    \<open>usize\<close>.
  \<^item> \<open>Result\<close> is a sum with \<open>Ok\<close> on the right and \<open>Err\<close> on the left.
  \<^item> a Rust \<open>String\<close> is the list of its \<open>char\<close>s (Unicode scalar values); \<open>lit\<close> turns an
    ASCII literal into one and \<open>dec\<close> prints a number in decimal.
\<close>

named_theorems u64_simps \<open>machine arithmetic expressed on natural numbers\<close>

section \<open>Types\<close>

type_synonym u8 = "8 word"
type_synonym u32 = "32 word"
type_synonym u64 = "64 word"
type_synonym bytes = "u8 list"
type_synonym uchar = nat
type_synonym rstring = "uchar list"

abbreviation Ok :: "'a \<Rightarrow> 'e + 'a" where "Ok \<equiv> Inr"
abbreviation Err :: "'e \<Rightarrow> 'e + 'a" where "Err \<equiv> Inl"

definition is_ok :: "'e + 'a \<Rightarrow> bool" where
  "is_ok r = (case r of Ok _ \<Rightarrow> True | Err _ \<Rightarrow> False)"

lemma is_ok_simps [simp]: "is_ok (Ok x)" "\<not> is_ok (Err e)"
  by (simp_all add: is_ok_def)

text \<open>The \<open>?\<close> operator: continue with the value, or return the error.\<close>

fun and_then :: "'e + 'a \<Rightarrow> ('a \<Rightarrow> 'e + 'b) \<Rightarrow> 'e + 'b" where
  "and_then (Inl e) f = Err e"
| "and_then (Inr x) f = f x"

fun map_err :: "('e \<Rightarrow> 'f) \<Rightarrow> 'e + 'a \<Rightarrow> 'f + 'a" where
  "map_err g (Inl e) = Err (g e)"
| "map_err g (Inr x) = Ok x"

lemma and_then_Ok_iff: "and_then r f = Ok y \<longleftrightarrow> (\<exists>x. r = Ok x \<and> f x = Ok y)"
  by (cases r) auto

lemma map_err_Ok_iff [simp]: "map_err g r = Ok y \<longleftrightarrow> r = Ok y"
  by (cases r) auto

text \<open>
  What the host machine fixes: the largest \<open>usize\<close>, whether an allocation of a number of
  bytes is refused (with the allocator's message), and the wire's own bound on the number of
  chunks, which the repository re-exports from another package.
\<close>

record host =
  usize_max :: nat
  reserve_refusal :: "nat \<Rightarrow> rstring option"
  max_resource_chunk_count :: nat

section \<open>Machine arithmetic\<close>

definition u64_max :: u64 where "u64_max = - 1"

definition checked_add :: "'l::len word \<Rightarrow> 'l word \<Rightarrow> 'l word option" where
  "checked_add a b = (if unat a + unat b < 2 ^ LENGTH('l) then Some (a + b) else None)"

definition saturating_add :: "'l::len word \<Rightarrow> 'l word \<Rightarrow> 'l word" where
  "saturating_add a b = (if unat a + unat b < 2 ^ LENGTH('l) then a + b else - 1)"

definition saturating_sub :: "'l::len word \<Rightarrow> 'l word \<Rightarrow> 'l word" where
  "saturating_sub a b = (if b \<le> a then a - b else 0)"

definition try_usize :: "host \<Rightarrow> u64 \<Rightarrow> nat option" where
  "try_usize H a = (if unat a \<le> usize_max H then Some (unat a) else None)"

text \<open>A Rust \<open>Vec\<close> has fewer than \<open>2 ^ 64\<close> elements on every platform, so \<open>len() as u64\<close> is exact.\<close>

abbreviation vec_ok :: "'a list \<Rightarrow> bool" where
  "vec_ok xs \<equiv> length xs < 2 ^ 64"

definition len64 :: "'a list \<Rightarrow> u64" where
  "len64 xs = of_nat (length xs)"

lemma unat_all_ones [u64_simps]: "unat (- 1 :: 'l::len word) = 2 ^ LENGTH('l) - 1"
  by (simp add: unsigned_minus_1_eq_mask mask_eq_exp_minus_1)

lemma unat_bound: "unat (a :: 'l::len word) < 2 ^ LENGTH('l)"
  by (rule unsigned_less)

lemma unat_saturating_add [u64_simps]:
  "unat (saturating_add a (b :: 'l::len word)) = min (unat a + unat b) (2 ^ LENGTH('l) - 1)"
  using unat_bound[of a] unat_bound[of b]
  by (auto simp: saturating_add_def unat_all_ones unat_word_ariths min_def)

lemma unat_saturating_sub [u64_simps]:
  "unat (saturating_sub a (b :: 'l::len word)) = unat a - unat b"
  by (auto simp: saturating_sub_def unat_sub word_le_nat_alt)

lemma checked_add_None_iff [u64_simps]:
  "checked_add a (b :: 'l::len word) = None \<longleftrightarrow> 2 ^ LENGTH('l) \<le> unat a + unat b"
  by (auto simp: checked_add_def)

lemma checked_add_SomeD:
  assumes "checked_add a (b :: 'l::len word) = Some c"
  shows "unat c = unat a + unat b" "unat a + unat b < 2 ^ LENGTH('l)"
  using assms by (auto simp: checked_add_def unat_word_ariths split: if_splits)

lemma checked_add_Some_iff [u64_simps]:
  "checked_add a (b :: 'l::len word) = Some c \<longleftrightarrow> unat c = unat a + unat b"
proof
  assume "checked_add a b = Some c"
  then show "unat c = unat a + unat b" by (rule checked_add_SomeD(1))
next
  assume eq: "unat c = unat a + unat b"
  then have lt: "unat a + unat b < 2 ^ LENGTH('l)" using unat_bound[of c] by simp
  moreover have "a + b = c" using eq lt by (simp add: word_unat_eq_iff unat_word_ariths)
  ultimately show "checked_add a b = Some c" by (simp add: checked_add_def)
qed

lemma saturating_add_0 [simp]: "saturating_add 0 a = a" "saturating_add a 0 = a"
  by (simp_all add: saturating_add_def unat_bound)

lemma checked_saturating: "checked_add a b = Some c \<Longrightarrow> saturating_add a b = c"
  by (auto simp: checked_add_def saturating_add_def split: if_splits)

lemma unat_len64 [u64_simps]: "vec_ok xs \<Longrightarrow> unat (len64 xs) = length xs"
  by (simp add: len64_def unat_of_nat)

lemma len64_eq_iff: "vec_ok xs \<Longrightarrow> len64 xs = n \<longleftrightarrow> length xs = unat n"
  by (simp add: word_unat_eq_iff unat_len64)

lemma len64_Nil [simp]: "len64 [] = 0"
  by (simp add: len64_def)

lemma try_usize_Some_iff: "try_usize H a = Some n \<longleftrightarrow> n = unat a \<and> unat a \<le> usize_max H"
  by (auto simp: try_usize_def)

lemma word_eq_unat: "a = b \<longleftrightarrow> unat a = unat (b :: 'l::len word)"
  by (rule word_unat_eq_iff)

lemmas to_nat = word_le_nat_alt word_less_nat_alt word_unat_eq_iff

section \<open>Text\<close>

definition lit :: "string \<Rightarrow> rstring" where
  "lit s = map of_char s"

fun dec :: "nat \<Rightarrow> rstring" where
  "dec n = (if n < 10 then [48 + n] else dec (n div 10) @ [48 + n mod 10])"

declare dec.simps [simp del]

definition dec64 :: "u64 \<Rightarrow> rstring" where
  "dec64 a = dec (unat a)"

lemma dec_digits: "c \<in> set (dec n) \<Longrightarrow> 48 \<le> c \<and> c \<le> 57"
proof (induction n rule: dec.induct)
  case (1 n)
  then show ?case by (subst (asm) (2) dec.simps) (auto split: if_splits)
qed

section \<open>Lists\<close>

text \<open>\<open>iter().position(p)\<close>: the first index whose element satisfies the predicate.\<close>

fun position :: "('a \<Rightarrow> bool) \<Rightarrow> 'a list \<Rightarrow> nat option" where
  "position P [] = None"
| "position P (x # xs) = (if P x then Some 0 else map_option Suc (position P xs))"

lemma position_None_iff: "position P xs = None \<longleftrightarrow> (\<forall>x\<in>set xs. \<not> P x)"
  by (induction xs) auto

lemma position_Some_iff:
  "position P xs = Some i \<longleftrightarrow> i < length xs \<and> P (xs ! i) \<and> (\<forall>j<i. \<not> P (xs ! j))"
proof (induction xs arbitrary: i)
  case Nil
  then show ?case by simp
next
  case (Cons x xs)
  show ?case by (cases i) (auto simp: Cons.IH nth_Cons less_Suc_eq_0_disj split: nat.splits)
qed

lemma position_exists: "i < length xs \<Longrightarrow> P (xs ! i) \<Longrightarrow> \<exists>j \<le> i. position P xs = Some j"
proof (induction xs arbitrary: i)
  case Nil
  then show ?case by simp
next
  case (Cons x xs)
  then show ?case by (cases i) fastforce+
qed

text \<open>\<open>slice::get\<close>: an indexed read that reports an index out of range.\<close>

definition get_opt :: "'a list \<Rightarrow> nat \<Rightarrow> 'a option" where
  "get_opt xs i = (if i < length xs then Some (xs ! i) else None)"

lemma get_opt_Some_iff [simp]: "get_opt xs i = Some x \<longleftrightarrow> i < length xs \<and> xs ! i = x"
  by (auto simp: get_opt_def)

lemma get_opt_None_iff [simp]: "get_opt xs i = None \<longleftrightarrow> length xs \<le> i"
  by (auto simp: get_opt_def)

text \<open>
  The byte-buffer operations: \<open>slice\<close> reads \<open>buf[o .. o + l]\<close>, and \<open>place\<close> writes \<open>bs\<close> at
  \<open>o\<close>, zero-extending a buffer that ends before \<open>o + length bs\<close>.
\<close>

definition slice :: "'a list \<Rightarrow> nat \<Rightarrow> nat \<Rightarrow> 'a list" where
  "slice buf start n = take n (drop start buf)"

definition place :: "nat \<Rightarrow> bytes \<Rightarrow> bytes \<Rightarrow> bytes" where
  "place start bs buf =
     (let buf' = buf @ replicate (start + length bs - length buf) 0
      in take start buf' @ bs @ drop (start + length bs) buf')"

lemma length_place [simp]: "length (place start bs buf) = max (length buf) (start + length bs)"
  by (auto simp: place_def Let_def)

lemma length_slice [simp]: "length (slice buf start n) = min n (length buf - start)"
  by (simp add: slice_def)

lemma nth_place:
  assumes "i < max (length buf) (start + length bs)"
  shows "place start bs buf ! i =
    (if i < start then if i < length buf then buf ! i else 0
     else if i < start + length bs then bs ! (i - start) else buf ! i)"
  using assms by (auto simp: place_def Let_def nth_append min_def)

lemma nth_slice: "i < n \<Longrightarrow> start + i < length buf \<Longrightarrow> slice buf start n ! i = buf ! (start + i)"
  by (simp add: slice_def)

lemma slice_place_same: "slice (place start bs buf) start (length bs) = bs"
  by (rule nth_equalityI) (auto simp: nth_slice nth_place)

lemma slice_place_other:
  assumes "o1 + n \<le> length buf" and "o1 + n \<le> start \<or> start + length bs \<le> o1"
  shows "slice (place start bs buf) o1 n = slice buf o1 n"
  by (rule nth_equalityI) (use assms in \<open>auto simp: nth_slice nth_place\<close>)

lemma slice_0: "slice buf 0 n = take n buf"
  by (simp add: slice_def)

lemma slice_append: "slice buf start m @ slice buf (start + m) n = slice buf start (m + n)"
  by (simp add: slice_def take_add add.commute)

lemma take_slice_append: "take start buf @ slice buf start n = take (start + n) buf"
  by (simp add: slice_def take_add)

lemma set_drop_nth: "distinct xs \<Longrightarrow> n < length xs \<Longrightarrow> set (take n xs @ drop (Suc n) xs) = set xs - {xs ! n}"
proof -
  assume d: "distinct xs" and n: "n < length xs"
  have x: "xs = take n xs @ xs ! n # drop (Suc n) xs" by (rule id_take_nth_drop[OF n])
  have "distinct (take n xs @ xs ! n # drop (Suc n) xs)" using d x by simp
  moreover have "set xs = set (take n xs @ xs ! n # drop (Suc n) xs)" using x by simp
  ultimately show ?thesis by auto
qed

text \<open>A 64-bit host that refuses no allocation, for the concrete examples.\<close>

definition example_host :: host where
  "example_host = \<lparr>usize_max = 2 ^ 64 - 1, reserve_refusal = (\<lambda>n. None),
     max_resource_chunk_count = 1048576\<rparr>"

end
