(* ===== verification/Errors.thy ===== *)
theory Errors
  imports Prelude
begin

text \<open>
  \<^verbatim>\<open>src/error.rs\<close>: the two error types, the rendering of untrusted text, and which errors a
  download can recover from. Text is a list of Unicode scalar values, so every character
  test of the source (control, bidirectional, hexadecimal) is a test on numbers.
\<close>

section \<open>Characters\<close>

definition utf8_width :: "uchar \<Rightarrow> nat" where
  "utf8_width c = (if c < 128 then 1 else if c < 2048 then 2 else if c < 65536 then 3 else 4)"

text \<open>\<open>str::len\<close> counts bytes of the UTF-8 encoding.\<close>

definition utf8_len :: "rstring \<Rightarrow> nat" where
  "utf8_len s = sum_list (map utf8_width s)"

definition is_ascii_hexdigit :: "uchar \<Rightarrow> bool" where
  "is_ascii_hexdigit c = ((48 \<le> c \<and> c \<le> 57) \<or> (65 \<le> c \<and> c \<le> 70) \<or> (97 \<le> c \<and> c \<le> 102))"

definition to_ascii_lowercase :: "rstring \<Rightarrow> rstring" where
  "to_ascii_lowercase s = map (\<lambda>c. if 65 \<le> c \<and> c \<le> 90 then c + 32 else c) s"

text \<open>\<open>char::is_control\<close>: the general category Cc.\<close>

definition is_control :: "uchar \<Rightarrow> bool" where
  "is_control c = (c < 32 \<or> (127 \<le> c \<and> c < 160))"

definition is_bidi_control :: "uchar \<Rightarrow> bool" where
  "is_bidi_control c =
     (c = 0x200E \<or> c = 0x200F \<or> c = 0x061C \<or> (0x202A \<le> c \<and> c \<le> 0x202E)
      \<or> (0x2066 \<le> c \<and> c \<le> 0x2069))"

definition hex_digit :: "nat \<Rightarrow> uchar" where
  "hex_digit d = (if d < 10 then 48 + d else 87 + d)"

fun hex_number :: "nat \<Rightarrow> rstring" where
  "hex_number n = (if n < 16 then [hex_digit n] else hex_number (n div 16) @ [hex_digit (n mod 16)])"

declare hex_number.simps [simp del]

text \<open>
  \<open>char::escape_debug\<close> on the characters the renderer hands it: the control characters (four
  of them have a letter escape) and the bidirectional formats, which are not printable.
\<close>

definition escape_debug :: "uchar \<Rightarrow> rstring" where
  "escape_debug c =
     (if c = 0 then lit [CHR 0x5C, CHR ''0'']
      else if c = 9 then lit [CHR 0x5C, CHR ''t'']
      else if c = 10 then lit [CHR 0x5C, CHR ''n'']
      else if c = 13 then lit [CHR 0x5C, CHR ''r'']
      else lit [CHR 0x5C, CHR ''u'', CHR 0x7B] @ hex_number c @ lit [CHR 0x7D])"

section \<open>Rendering untrusted text\<close>

definition max_error_reason_chars :: nat where "max_error_reason_chars = 512"
definition max_error_context_chars :: nat where "max_error_context_chars = 4096"

definition hex64_or_sentinel :: "rstring \<Rightarrow> rstring \<Rightarrow> rstring" where
  "hex64_or_sentinel value label =
     (if utf8_len value = 64 \<and> list_all is_ascii_hexdigit value
      then to_ascii_lowercase value
      else lit ''<non-canonical-'' @ label @ lit ''>'')"

definition truncation_mark :: rstring where
  "truncation_mark = 0x2026 # lit ''<truncated>''"

fun sanitize_from :: "nat \<Rightarrow> nat \<Rightarrow> rstring \<Rightarrow> rstring" where
  "sanitize_from count max_chars [] = []"
| "sanitize_from count max_chars (ch # text) =
     (if count = max_chars then truncation_mark
      else (if is_control ch \<or> is_bidi_control ch then escape_debug ch else [ch])
           @ sanitize_from (Suc count) max_chars text)"

definition sanitize_untrusted_text :: "rstring \<Rightarrow> nat \<Rightarrow> rstring" where
  "sanitize_untrusted_text text max_chars = sanitize_from 0 max_chars text"

section \<open>Verification errors\<close>

datatype verify_error =
    LengthMismatch u64 u64
  | Metadata rstring
  | Alignment rstring
  | Root
  | MissingMetadata rstring

fun verify_error_display :: "verify_error \<Rightarrow> rstring" where
  "verify_error_display (LengthMismatch expected actual) =
     lit ''range length mismatch: expected '' @ dec64 expected
     @ lit '' bytes for chunks, got '' @ dec64 actual"
| "verify_error_display (Metadata m) =
     lit ''range metadata mismatch with the resource commitment: '' @ m"
| "verify_error_display (Alignment m) = lit ''range is not chunk-aligned: '' @ m"
| "verify_error_display Root = lit ''resource does not verify against the chain-anchored root''"
| "verify_error_display (MissingMetadata m) =
     lit ''first frame is missing verification metadata ('' @ m @ lit '')''"

definition verify_error_debug :: "verify_error \<Rightarrow> rstring" where
  "verify_error_debug e =
     lit ''VerifyError('' @ sanitize_untrusted_text (verify_error_display e) max_error_reason_chars
     @ lit '')''"

section \<open>Download errors\<close>

datatype download_error =
    Transport rstring rstring
  | Timeout rstring
  | Verify verify_error
  | NoProviders nat
  | NotFound rstring
  | MetadataProbeFailed rstring nat "rstring list"
  | PagedPrologueUnsupported rstring u64 u64
  | Cancelled
  | State rstring
  | SinkError rstring
  | NotDownloadable
  | TaskEnded

fun join_with :: "rstring \<Rightarrow> rstring list \<Rightarrow> rstring" where
  "join_with sep [] = []"
| "join_with sep [x] = x"
| "join_with sep (x # y # ys) = x @ sep @ join_with sep (y # ys)"

abbreviation peer_id_label :: rstring where "peer_id_label \<equiv> lit ''peer-id''"

fun download_error_display :: "download_error \<Rightarrow> rstring" where
  "download_error_display (Transport provider reason) =
     lit ''transport error from provider '' @ hex64_or_sentinel provider peer_id_label @ lit '': ''
     @ sanitize_untrusted_text reason max_error_reason_chars"
| "download_error_display (Timeout provider) =
     lit ''range fetch from provider '' @ hex64_or_sentinel provider peer_id_label @ lit '' timed out''"
| "download_error_display (Verify e) =
     lit ''integrity failure: ''
     @ sanitize_untrusted_text (verify_error_display e) max_error_reason_chars"
| "download_error_display (NoProviders needed) =
     lit ''no providers left holding the content (needed '' @ dec needed @ lit '' more range(s))''"
| "download_error_display (NotFound content) =
     lit ''content not found: '' @ sanitize_untrusted_text content max_error_context_chars"
| "download_error_display (MetadataProbeFailed content holders reasons) =
     lit ''no confirmed holder could seed the resource layout for ''
     @ sanitize_untrusted_text content max_error_context_chars
     @ lit '' '' @ [0x2014] @ lit '' probed '' @ dec holders @ lit '', all failed: ''
     @ sanitize_untrusted_text (join_with (lit ''; '') reasons) max_error_reason_chars"
| "download_error_display (PagedPrologueUnsupported provider chunk_count delivered) =
     lit ''provider '' @ hex64_or_sentinel provider peer_id_label @ lit '' served a ''
     @ dec64 chunk_count @ lit ''-entry chunk_lens paged prologue that ended incomplete (''
     @ dec64 delivered @ lit '' of '' @ dec64 chunk_count @ lit '' entries)''"
| "download_error_display Cancelled = lit ''download cancelled''"
| "download_error_display (State m) = lit ''state store error: '' @ m"
| "download_error_display (SinkError m) = lit ''sink write error: '' @ m"
| "download_error_display NotDownloadable =
     lit ''content id is not directly downloadable (needs a root/capsule or resource, got a bare store id)''"
| "download_error_display TaskEnded = lit ''download task ended without a result''"

definition download_error_debug :: "download_error \<Rightarrow> rstring" where
  "download_error_debug e = lit ''DownloadError('' @ download_error_display e @ lit '')''"

fun is_recoverable :: "download_error \<Rightarrow> bool" where
  "is_recoverable (Transport _ _) = True"
| "is_recoverable (Verify _) = True"
| "is_recoverable (Timeout _) = True"
| "is_recoverable (PagedPrologueUnsupported _ _ _) = True"
| "is_recoverable _ = False"

fun attributed_to :: "download_error \<Rightarrow> rstring \<Rightarrow> download_error" where
  "attributed_to (Transport provider reason) peer_id =
     (if provider = [] then Transport peer_id reason else Transport provider reason)"
| "attributed_to (PagedPrologueUnsupported provider chunk_count delivered) peer_id =
     (if provider = [] then PagedPrologueUnsupported peer_id chunk_count delivered
      else PagedPrologueUnsupported provider chunk_count delivered)"
| "attributed_to other peer_id = other"

section \<open>What rendering guarantees\<close>

definition clean_char :: "uchar \<Rightarrow> bool" where
  "clean_char c \<longleftrightarrow> \<not> is_control c \<and> \<not> is_bidi_control c"

definition clean :: "rstring \<Rightarrow> bool" where
  "clean s \<longleftrightarrow> list_all clean_char s"

lemma clean_simps [simp]:
  "clean []" "clean (c # s) \<longleftrightarrow> clean_char c \<and> clean s" "clean (s @ t) \<longleftrightarrow> clean s \<and> clean t"
  by (auto simp: clean_def)

lemma clean_char_ascii: "32 \<le> c \<Longrightarrow> c < 127 \<Longrightarrow> clean_char c"
  by (simp add: clean_char_def is_control_def is_bidi_control_def)

lemma clean_lit: "list_all (\<lambda>c. 32 \<le> (of_char c :: nat) \<and> (of_char c :: nat) < 127) s \<Longrightarrow> clean (lit s)"
  by (induction s) (auto simp: lit_def clean_char_ascii)

lemma clean_dec [simp]: "clean (dec n)" "clean (dec64 a)"
  by (auto simp: clean_def list_all_iff dec64_def intro!: clean_char_ascii dest: dec_digits)

lemma clean_hex_number [simp]: "clean (hex_number n)"
proof (induction n rule: hex_number.induct)
  case (1 n)
  have digit: "d < 16 \<Longrightarrow> clean_char (hex_digit d)" for d
    by (rule clean_char_ascii) (auto simp: hex_digit_def)
  show ?case
    by (subst hex_number.simps) (auto simp: digit "1")
qed

lemma clean_escape_debug [simp]: "clean (escape_debug c)"
  by (simp add: escape_debug_def clean_lit)

lemma clean_truncation_mark [simp]: "clean truncation_mark"
  by (simp add: truncation_mark_def clean_lit clean_char_def is_control_def is_bidi_control_def)

lemma clean_sanitize_from: "clean (sanitize_from count n cs)"
  by (induction cs arbitrary: count) (simp_all add: clean_char_def)

lemma clean_sanitize [simp]: "clean (sanitize_untrusted_text text n)"
  by (simp add: sanitize_untrusted_text_def clean_sanitize_from)

lemma clean_hexdigit: "is_ascii_hexdigit c \<Longrightarrow> clean_char c"
  by (rule clean_char_ascii) (auto simp: is_ascii_hexdigit_def)

lemma clean_lowercase: "clean s \<Longrightarrow> clean (to_ascii_lowercase s)"
proof (induction s)
  case (Cons c s)
  then show ?case using clean_char_ascii[of "c + 32"] by (simp add: to_ascii_lowercase_def)
qed (simp add: to_ascii_lowercase_def)

lemma clean_hexdigits: "list_all is_ascii_hexdigit s \<Longrightarrow> clean s"
  by (induction s) (auto simp: clean_hexdigit)

lemma clean_hex64 [simp]: "clean label \<Longrightarrow> clean (hex64_or_sentinel value label)"
  by (simp add: hex64_or_sentinel_def clean_lit clean_lowercase clean_hexdigits)

lemma hex_number_length: "n < 16 ^ Suc k \<Longrightarrow> length (hex_number n) \<le> Suc k"
proof (induction k arbitrary: n)
  case 0
  then show ?case by (subst hex_number.simps) simp
next
  case (Suc k)
  then have "n div 16 < 16 ^ Suc k" by (simp add: less_mult_imp_div_less mult.commute)
  with Suc.IH show ?case by (subst hex_number.simps) simp
qed

lemma escape_debug_length:
  assumes "is_control c \<or> is_bidi_control c" shows "length (escape_debug c) \<le> 8"
proof -
  from assms have "c < 16 ^ Suc 3" by (auto simp: is_control_def is_bidi_control_def)
  from hex_number_length[OF this] show ?thesis by (simp add: escape_debug_def lit_def)
qed

lemma sanitize_from_length:
  "count \<le> n \<Longrightarrow> length (sanitize_from count n cs) \<le> 8 * (n - count) + 12"
proof (induction count n cs rule: sanitize_from.induct)
  case (2 count n ch cs)
  have mark: "length truncation_mark = 12" by (simp add: truncation_mark_def lit_def)
  show ?case
  proof (cases "count = n")
    case True
    then show ?thesis by (simp add: mark)
  next
    case False
    with "2.prems" have lt: "count < n" by simp
    with "2.IH"[OF False] have "length (sanitize_from (Suc count) n cs) \<le> 8 * (n - Suc count) + 12"
      by simp
    with lt show ?thesis using escape_debug_length[of ch] by (auto simp: False)
  qed
qed simp

lemma sanitize_from_identity:
  "clean cs \<Longrightarrow> count + length cs \<le> n \<Longrightarrow> sanitize_from count n cs = cs"
  by (induction count n cs rule: sanitize_from.induct) (auto simp: clean_char_def)

text \<open>
  C39: whatever a peer put into the fields of an error, the rendered message of every
  variant but the two local ones (state store and sink) has no control character and no
  bidirectional format, so it is one line that reads in the order it is written.
\<close>

theorem download_error_display_clean:
  assumes "\<forall>m. e \<noteq> State m \<and> e \<noteq> SinkError m"
  shows "clean (download_error_display e)"
proof -
  have "clean_char 0x2014" by (simp add: clean_char_def is_control_def is_bidi_control_def)
  then show ?thesis using assms by (cases e) (simp_all add: clean_lit)
qed

theorem download_error_display_clean_witness:
  "clean (download_error_display (Transport [10, 27, 0x202E] (lit ''x'' @ [10, 0x2066])))"
  by (rule download_error_display_clean) simp_all

text \<open>
  Rendering bounds any text to eight characters per admitted character plus the
  truncation mark, leaves nothing that is a control or bidirectional character, and is the
  identity on clean text within the bound.
\<close>

theorem sanitize_untrusted_text_spec:
  "length (sanitize_untrusted_text cs n) \<le> 8 * n + 12
   \<and> clean (sanitize_untrusted_text cs n)
   \<and> (clean cs \<and> length cs \<le> n \<longrightarrow> sanitize_untrusted_text cs n = cs)"
  using sanitize_from_length[of 0 n cs] sanitize_from_identity[of cs 0 n]
  by (simp add: sanitize_untrusted_text_def clean_sanitize_from)

theorem sanitize_untrusted_text_spec_witness:
  "sanitize_untrusted_text (lit ''ok'') 5 = lit ''ok''"
  using sanitize_untrusted_text_spec[of "lit ''ok''" 5]
  by (simp add: clean_lit) (simp add: lit_def)

text \<open>
  Stamping a provider onto an error never changes whether it is recoverable, and
  an error that already names a provider keeps it, so stamping a second time changes nothing.
\<close>

theorem attributed_to_stable:
  "is_recoverable (attributed_to e p) = is_recoverable e
   \<and> (p \<noteq> [] \<longrightarrow> attributed_to (attributed_to e p) q = attributed_to e p)"
  by (cases e) auto

theorem attributed_to_stable_witness:
  "attributed_to (attributed_to (Transport [] (lit ''x'')) (lit ''a'')) (lit ''b'')
   = Transport (lit ''a'') (lit ''x'')"
  using attributed_to_stable[of "Transport [] (lit ''x'')" "lit ''a''" "lit ''b''"]
  by (simp add: lit_def)

end
