(* ===== verification/Plan.thy ===== *)
theory Plan
  imports Errors
begin

text \<open>
  \<^verbatim>\<open>src/plan.rs\<close>: the chunk layout of a resource (\<open>ChunkLayout\<close>), its partition into
  chunk-aligned byte ranges (\<open>plan_ranges\<close>) and the scheduling state of one range.

  Lengths and offsets are \<open>u64\<close> words, indices are \<open>usize\<close>. The lemmas show that the
  checked constructor accepts exactly the layouts whose total fits in 64 bits, and that
  the plan tiles the resource: consecutive ranges, no gap, no overlap, every range bounded
  by the window or a single over-long chunk, every range on chunk boundaries.
\<close>

section \<open>The chunk layout\<close>

record chunk_layout =
  chunk_lens :: "u64 list"
  offsets :: "u64 list"

fun push_saturating :: "u64 \<Rightarrow> u64 list \<Rightarrow> u64 list" where
  "push_saturating acc [] = []"
| "push_saturating acc (l # ls) =
     (let acc' = saturating_add acc l in acc' # push_saturating acc' ls)"

definition chunk_layout_new :: "u64 list \<Rightarrow> chunk_layout" where
  "chunk_layout_new lens = \<lparr>chunk_lens = lens, offsets = 0 # push_saturating 0 lens\<rparr>"

fun push_checked :: "u64 \<Rightarrow> u64 list \<Rightarrow> verify_error + u64 list" where
  "push_checked acc [] = Ok []"
| "push_checked acc (l # ls) =
     (case checked_add acc l of
        None \<Rightarrow> Err (Metadata (lit ''chunk_lens cumulative length overflows u64 (hostile metadata)''))
      | Some acc' \<Rightarrow>
          (case push_checked acc' ls of Err e \<Rightarrow> Err e | Ok os \<Rightarrow> Ok (acc' # os)))"

definition chunk_layout_try_new :: "host \<Rightarrow> u64 list \<Rightarrow> verify_error + chunk_layout" where
  "chunk_layout_try_new H lens =
     (if length lens > max_resource_chunk_count H
      then Err (Metadata (lit ''declared chunk_lens count '' @ dec (length lens)
             @ lit '' exceeds the maximum '' @ dec (max_resource_chunk_count H)))
      else
        (case reserve_refusal H (8 * (length lens + 1)) of
           Some e \<Rightarrow> Err (Metadata (lit ''cannot allocate a '' @ dec (length lens + 1)
                       @ lit ''-entry chunk layout: '' @ e))
         | None \<Rightarrow>
             (case push_checked 0 lens of
                Err e \<Rightarrow> Err e
              | Ok os \<Rightarrow> Ok \<lparr>chunk_lens = lens, offsets = 0 # os\<rparr>)))"

definition chunk_count :: "chunk_layout \<Rightarrow> nat" where
  "chunk_count L = length (chunk_lens L)"

definition total_length :: "chunk_layout \<Rightarrow> u64" where
  "total_length L = (case offsets L of [] \<Rightarrow> 0 | os \<Rightarrow> last os)"

definition chunk_offset :: "chunk_layout \<Rightarrow> nat \<Rightarrow> u64 option" where
  "chunk_offset L i = get_opt (offsets L) i"

definition chunk_len :: "chunk_layout \<Rightarrow> nat \<Rightarrow> u64 option" where
  "chunk_len L i = get_opt (chunk_lens L) i"

definition chunks_for_range :: "chunk_layout \<Rightarrow> u64 \<Rightarrow> u64 \<Rightarrow> verify_error + (nat \<times> nat)" where
  "chunks_for_range L off len =
     (let fin = saturating_add off len in
      case position (\<lambda>p. p = off) (offsets L) of
        None \<Rightarrow> Err (Alignment (lit ''offset '' @ dec64 off @ lit '' is not a chunk boundary''))
      | Some start_idx \<Rightarrow>
          (case position (\<lambda>p. p = fin) (offsets L) of
             None \<Rightarrow> Err (Alignment (lit ''end '' @ dec64 fin @ lit '' is not a chunk boundary''))
           | Some end_idx \<Rightarrow>
               if end_idx < start_idx
               then Err (Alignment (lit ''range end '' @ dec64 fin @ lit '' precedes start '' @ dec64 off))
               else Ok (start_idx, end_idx)))"

section \<open>The range plan\<close>

record range =
  r_index :: nat
  r_offset :: u64
  r_length :: u64
  chunk_start :: nat
  chunk_end :: nat

definition chunk_range :: "range \<Rightarrow> nat \<times> nat" where
  "chunk_range r = (chunk_start r, chunk_end r)"

definition len_or_0 :: "chunk_layout \<Rightarrow> nat \<Rightarrow> u64" where
  "len_or_0 L i = (case chunk_len L i of Some l \<Rightarrow> l | None \<Rightarrow> 0)"

text \<open>The inner loop: take whole chunks from \<open>i\<close> on while the window holds them.\<close>

function pack_chunks :: "chunk_layout \<Rightarrow> u64 \<Rightarrow> nat \<Rightarrow> u64 \<Rightarrow> nat \<times> u64" where
  "pack_chunks L window i len =
     (if i < chunk_count L then
        (let clen = len_or_0 L i in
         if len > 0 \<and> saturating_add len clen > window then (i, len)
         else pack_chunks L window (Suc i) (saturating_add len clen))
      else (i, len))"
  by pat_completeness auto
termination by (relation "measure (\<lambda>(L, window, i, len). chunk_count L - i)") auto

declare pack_chunks.simps [simp del]

lemma pack_chunks_ge: "i \<le> fst (pack_chunks L window i len)"
proof (induction L window i len rule: pack_chunks.induct)
  case (1 L window i len)
  then show ?case by (subst pack_chunks.simps) (fastforce simp: Let_def intro: Suc_leD)
qed

lemma pack_chunks_gt: "i < chunk_count L \<Longrightarrow> i < fst (pack_chunks L window i 0)"
  using pack_chunks_ge[of "Suc i" L window "saturating_add 0 (len_or_0 L i)"]
  by (subst pack_chunks.simps) (simp add: Let_def Suc_le_eq)

function plan_from :: "chunk_layout \<Rightarrow> u64 \<Rightarrow> nat \<Rightarrow> nat \<Rightarrow> range list" where
  "plan_from L window i n_ranges =
     (if i < chunk_count L then
        (let off = (case chunk_offset L i of Some p \<Rightarrow> p | None \<Rightarrow> 0);
             (j, len) = pack_chunks L window i 0
         in \<lparr>r_index = n_ranges, r_offset = off, r_length = len, chunk_start = i, chunk_end = j\<rparr>
            # plan_from L window j (Suc n_ranges))
      else [])"
  by pat_completeness auto
termination
proof (relation "measure (\<lambda>(L, window, i, n). chunk_count L - i)")
  fix L :: chunk_layout and window :: u64 and i n j :: nat and p off len x y
  assume "i < chunk_count L" and "p = pack_chunks L window i 0" and "(j, len) = p"
  then have "i < j" using pack_chunks_gt[of i L window] by (metis fst_conv)
  then show "((L, window, j, Suc n), (L, window, i, n)) \<in> measure (\<lambda>(L, window, i, n). chunk_count L - i)"
    using \<open>i < chunk_count L\<close> by simp
qed simp

declare plan_from.simps [simp del]

definition plan_ranges :: "chunk_layout \<Rightarrow> u64 \<Rightarrow> range list" where
  "plan_ranges L window = plan_from L (max window 1) 0 0"

datatype range_state = Pending | InFlight rstring | Done

fun is_incomplete :: "range_state \<Rightarrow> bool" where
  "is_incomplete Done = False"
| "is_incomplete _ = True"

section \<open>Layouts without overflow\<close>

text \<open>The sum of the first \<open>i\<close> chunk lengths, as a natural number.\<close>

definition start_of :: "u64 list \<Rightarrow> nat \<Rightarrow> nat" where
  "start_of lens i = sum_list (map unat (take i lens))"

lemma start_of_0 [simp]: "start_of lens 0 = 0"
  by (simp add: start_of_def)

lemma start_of_Suc: "i < length lens \<Longrightarrow> start_of lens (Suc i) = start_of lens i + unat (lens ! i)"
  by (simp add: start_of_def take_Suc_conv_app_nth)

lemma start_of_mono: "i \<le> j \<Longrightarrow> start_of lens i \<le> start_of lens j"
proof -
  assume "i \<le> j"
  then have "take j lens = take i lens @ take (j - i) (drop i lens)"
    by (metis le_add_diff_inverse take_add)
  then show ?thesis by (simp add: start_of_def)
qed

text \<open>A layout is well formed when its offsets are the exact prefix sums of its lengths.\<close>

definition layout_ok :: "chunk_layout \<Rightarrow> bool" where
  "layout_ok L \<longleftrightarrow>
     length (offsets L) = Suc (chunk_count L)
     \<and> (\<forall>i \<le> chunk_count L. unat (offsets L ! i) = start_of (chunk_lens L) i)"

lemma push_checked_ok:
  "push_checked acc ls = Ok os \<longleftrightarrow>
     length os = length ls \<and> (\<forall>i < length ls. unat (os ! i) = unat acc + start_of ls (Suc i))"
proof (induction ls arbitrary: acc os)
  case Nil
  then show ?case by auto
next
  case (Cons l ls)
  have step: "start_of (l # ls) (Suc i) = unat l + start_of ls i" for i
    by (simp add: start_of_def)
  show ?case
  proof (cases os)
    case Nil
    then show ?thesis by (auto split: option.splits sum.splits)
  next
    case (Cons p ps)
    have "push_checked acc (l # ls) = Ok (p # ps) \<longleftrightarrow> unat p = unat acc + unat l \<and> push_checked p ls = Ok ps"
      by (auto simp: checked_add_Some_iff[symmetric] split: option.splits sum.splits)
    with Cons show ?thesis
      by (auto simp: Cons.IH step All_less_Suc2)
  qed
qed

lemma start_of_le_total: "start_of ls i \<le> sum_list (map unat ls)"
proof -
  have "sum_list (map unat ls) = start_of ls i + sum_list (map unat (drop i ls))"
    by (simp add: start_of_def flip: sum_list_append map_append)
  then show ?thesis by simp
qed

lemma start_of_full: "length ls \<le> i \<Longrightarrow> start_of ls i = sum_list (map unat ls)"
  by (simp add: start_of_def)

lemma push_checked_total:
  "(\<exists>os. push_checked acc ls = Ok os) \<longleftrightarrow> unat acc + sum_list (map unat ls) < 2 ^ 64"
proof (induction ls arbitrary: acc)
  case Nil
  then show ?case using unat_bound[of acc] by simp
next
  case (Cons l ls)
  show ?case
  proof (cases "checked_add acc l")
    case None
    then have "2 ^ 64 \<le> unat acc + unat l" by (simp add: checked_add_None_iff)
    with None show ?thesis by simp
  next
    case (Some p)
    then have "unat p = unat acc + unat l" by (simp add: checked_add_Some_iff)
    with Some Cons[of p] show ?thesis by (auto simp: add.assoc split: sum.splits)
  qed
qed

lemma try_new_OkD:
  assumes "chunk_layout_try_new H lens = Ok L"
  shows "chunk_lens L = lens" "layout_ok L" "length lens \<le> max_resource_chunk_count H"
    "sum_list (map unat lens) < 2 ^ 64"
proof -
  from assms obtain os where os: "push_checked 0 lens = Ok os"
    and L: "L = \<lparr>chunk_lens = lens, offsets = 0 # os\<rparr>" and n: "length lens \<le> max_resource_chunk_count H"
    by (auto simp: chunk_layout_try_new_def split: if_splits option.splits sum.splits)
  show "chunk_lens L = lens" "length lens \<le> max_resource_chunk_count H" using L n by simp_all
  show "sum_list (map unat lens) < 2 ^ 64" using push_checked_total[of 0 lens] os by auto
  show "layout_ok L"
    using os L unfolding layout_ok_def chunk_count_def
    by (auto simp: push_checked_ok nth_Cons split: nat.splits)
qed

lemma layout_ok_total: "layout_ok L \<Longrightarrow> unat (total_length L) = sum_list (map unat (chunk_lens L))"
proof -
  assume ok: "layout_ok L"
  then have len: "length (offsets L) = Suc (chunk_count L)" by (simp add: layout_ok_def)
  then have "total_length L = offsets L ! chunk_count L"
    by (cases "offsets L") (auto simp: total_length_def last_conv_nth nth_Cons')
  with ok show ?thesis by (simp add: layout_ok_def start_of_full chunk_count_def)
qed

lemma layout_ok_offset:
  "layout_ok L \<Longrightarrow> i \<le> chunk_count L \<Longrightarrow> \<exists>p. chunk_offset L i = Some p \<and> unat p = start_of (chunk_lens L) i"
  by (auto simp: layout_ok_def chunk_offset_def)

lemma layout_ok_bound: "layout_ok L \<Longrightarrow> start_of (chunk_lens L) i < 2 ^ 64"
  using start_of_le_total[of "chunk_lens L" i] layout_ok_total[of L] unat_bound[of "total_length L"]
  by simp

section \<open>The plan tiles the resource\<close>

text \<open>
  \<open>tiles L i k rs\<close>: the ranges \<open>rs\<close>, numbered from \<open>k\<close>, cover the chunks from \<open>i\<close> to the end,
  each starting at the exact byte offset where the one before it ends.
\<close>

fun tiles :: "chunk_layout \<Rightarrow> nat \<Rightarrow> nat \<Rightarrow> range list \<Rightarrow> bool" where
  "tiles L i k [] \<longleftrightarrow> chunk_count L \<le> i"
| "tiles L i k (r # rs) \<longleftrightarrow>
     r_index r = k \<and> chunk_start r = i \<and> i < chunk_end r \<and> chunk_end r \<le> chunk_count L
     \<and> unat (r_offset r) = start_of (chunk_lens L) i
     \<and> unat (r_offset r) + unat (r_length r) = start_of (chunk_lens L) (chunk_end r)
     \<and> tiles L (chunk_end r) (Suc k) rs"

lemma len_or_0_eq: "i < chunk_count L \<Longrightarrow> len_or_0 L i = chunk_lens L ! i"
  by (simp add: len_or_0_def chunk_len_def chunk_count_def get_opt_def)

lemma pack_chunks_exact:
  assumes "layout_ok L" "i0 \<le> i" "i \<le> chunk_count L"
    and "start_of (chunk_lens L) i = start_of (chunk_lens L) i0 + unat len"
    and "pack_chunks L window i len = (j, n)"
  shows "j \<le> chunk_count L \<and> start_of (chunk_lens L) j = start_of (chunk_lens L) i0 + unat n"
  using assms
proof (induction L window i len rule: pack_chunks.induct)
  case (1 L window i len)
  show ?case
  proof (cases "i < chunk_count L \<and> \<not> (len > 0 \<and> saturating_add len (len_or_0 L i) > window)")
    case True
    let ?l = "saturating_add len (len_or_0 L i)"
    have step: "start_of (chunk_lens L) (Suc i) = start_of (chunk_lens L) i + unat (len_or_0 L i)"
      using True by (simp add: start_of_Suc len_or_0_eq chunk_count_def)
    have "unat len + unat (len_or_0 L i) < 2 ^ 64"
      using layout_ok_bound[OF "1.prems"(1), of "Suc i"] step "1.prems"(4) by simp
    then have "start_of (chunk_lens L) (Suc i) = start_of (chunk_lens L) i0 + unat ?l"
      using step "1.prems"(4) by (simp add: unat_saturating_add)
    moreover have "pack_chunks L window (Suc i) ?l = (j, n)"
      using True "1.prems"(5) by (subst (asm) pack_chunks.simps) (auto simp: Let_def split: if_splits)
    ultimately show ?thesis using "1.IH"[OF _ refl] True "1.prems"(1,2) by simp
  next
    case False
    then have "(j, n) = (i, len)"
      using "1.prems"(5) by (subst (asm) pack_chunks.simps) (auto simp: Let_def split: if_splits)
    with "1.prems" show ?thesis by simp
  qed
qed

lemma plan_from_tiles:
  assumes "layout_ok L"
  shows "tiles L i k (plan_from L window i k)"
  using assms
proof (induction L window i k rule: plan_from.induct)
  case (1 L window i k)
  show ?case
  proof (cases "i < chunk_count L")
    case True
    obtain j n where p: "pack_chunks L window i 0 = (j, n)" by force
    have gt: "i < j" using pack_chunks_gt[OF True, of window] p by simp
    have ex: "j \<le> chunk_count L \<and> start_of (chunk_lens L) j = start_of (chunk_lens L) i + unat n"
      using pack_chunks_exact[OF "1.prems" order_refl _ _ p] True by simp
    from layout_ok_offset[OF "1.prems", of i] True obtain q where
      q: "chunk_offset L i = Some q" "unat q = start_of (chunk_lens L) i" by auto
    have "tiles L j (Suc k) (plan_from L window j (Suc k))"
      using "1.IH"[OF True refl p[symmetric] refl "1.prems"] by simp
    then show ?thesis using True p q gt ex
      by (subst plan_from.simps) simp
  next
    case False
    then show ?thesis by (subst plan_from.simps) simp
  qed
qed

lemma plan_ranges_tiles: "layout_ok L \<Longrightarrow> tiles L 0 0 (plan_ranges L window)"
  by (simp add: plan_ranges_def plan_from_tiles)

lemma tiles_nth:
  assumes "tiles L i k rs" "m < length rs"
  shows "r_index (rs ! m) = k + m"
    "chunk_start (rs ! m) = (if m = 0 then i else chunk_end (rs ! (m - 1)))"
    "chunk_start (rs ! m) < chunk_end (rs ! m)" "chunk_end (rs ! m) \<le> chunk_count L"
    "unat (r_offset (rs ! m)) = start_of (chunk_lens L) (chunk_start (rs ! m))"
    "unat (r_offset (rs ! m)) + unat (r_length (rs ! m)) = start_of (chunk_lens L) (chunk_end (rs ! m))"
  using assms
  by (induction L i k rs arbitrary: m rule: tiles.induct) (auto simp: nth_Cons split: nat.splits)

lemma tiles_offset:
  assumes "tiles L i k rs" "m < length rs"
  shows "unat (r_offset (rs ! m)) = start_of (chunk_lens L) i + (\<Sum>r\<leftarrow>take m rs. unat (r_length r))"
  using assms
proof (induction L i k rs arbitrary: m rule: tiles.induct)
  case (2 L i k r rs)
  show ?case
  proof (cases m)
    case 0
    with "2.prems" show ?thesis by simp
  next
    case (Suc m')
    with "2.prems" "2.IH"[of m'] show ?thesis by simp
  qed
qed simp

lemma tiles_sum:
  "tiles L i k rs \<Longrightarrow> i \<le> chunk_count L
   \<Longrightarrow> start_of (chunk_lens L) i + (\<Sum>r\<leftarrow>rs. unat (r_length r)) = sum_list (map unat (chunk_lens L))"
  by (induction L i k rs rule: tiles.induct) (auto simp: start_of_full chunk_count_def)

text \<open>
  The window bound: the chunks from \<open>i0\<close> up to \<open>i\<close> fit the window, or all their bytes are
  in one chunk.
\<close>

definition fits_window :: "chunk_layout \<Rightarrow> u64 \<Rightarrow> nat \<Rightarrow> nat \<Rightarrow> bool" where
  "fits_window L window i0 i \<longleftrightarrow>
     start_of (chunk_lens L) i - start_of (chunk_lens L) i0 \<le> unat window
     \<or> (\<exists>m. i0 \<le> m \<and> m < i \<and> start_of (chunk_lens L) m = start_of (chunk_lens L) i0
            \<and> start_of (chunk_lens L) (Suc m) = start_of (chunk_lens L) i)"

lemma pack_chunks_fits:
  assumes "layout_ok L" "i0 \<le> i" "i \<le> chunk_count L"
    and "start_of (chunk_lens L) i = start_of (chunk_lens L) i0 + unat len"
    and "fits_window L window i0 i"
  shows "fits_window L window i0 (fst (pack_chunks L window i len))"
  using assms
proof (induction L window i len rule: pack_chunks.induct)
  case (1 L window i len)
  show ?case
  proof (cases "i < chunk_count L \<and> \<not> (len > 0 \<and> saturating_add len (len_or_0 L i) > window)")
    case True
    let ?l = "saturating_add len (len_or_0 L i)"
    have step: "start_of (chunk_lens L) (Suc i) = start_of (chunk_lens L) i + unat (len_or_0 L i)"
      using True by (simp add: start_of_Suc len_or_0_eq chunk_count_def)
    have "unat len + unat (len_or_0 L i) < 2 ^ 64"
      using layout_ok_bound[OF "1.prems"(1), of "Suc i"] step "1.prems"(4) by simp
    then have l: "unat ?l = unat len + unat (len_or_0 L i)" by (simp add: unat_saturating_add)
    have "fits_window L window i0 (Suc i)"
    proof (cases "len = 0")
      case True
      then show ?thesis using "1.prems"(2,4) by (auto simp: fits_window_def)
    next
      case False
      then have "unat ?l \<le> unat window"
        using True by (auto simp: word_less_nat_alt word_unat_eq_iff not_less)
      then show ?thesis using l step "1.prems"(4) by (simp add: fits_window_def)
    qed
    moreover have "pack_chunks L window i len = pack_chunks L window (Suc i) ?l"
      using True by (subst pack_chunks.simps) (auto simp: Let_def)
    ultimately show ?thesis using "1.IH"[OF _ refl] True "1.prems"(1,2,4) step l by simp
  next
    case False
    then have "pack_chunks L window i len = (i, len)"
      by (subst pack_chunks.simps) (auto simp: Let_def)
    with "1.prems" show ?thesis by simp
  qed
qed

lemma plan_from_fits:
  assumes "layout_ok L" "r \<in> set (plan_from L window i k)"
  shows "fits_window L window (chunk_start r) (chunk_end r)"
  using assms
proof (induction L window i k rule: plan_from.induct)
  case (1 L window i k)
  then have i: "i < chunk_count L" by (subst (asm) plan_from.simps) (auto split: if_splits)
  obtain j n where p: "pack_chunks L window i 0 = (j, n)" by force
  have "fits_window L window i j"
    using pack_chunks_fits[OF "1.prems"(1), of i i 0 window] i p by (simp add: fits_window_def)
  then show ?case
    using "1.IH"[OF i refl p[symmetric] refl "1.prems"(1)] "1.prems"(2) p i
    by (subst (asm) plan_from.simps) auto
qed

section \<open>Alignment\<close>

lemma offsets_position:
  assumes "layout_ok L" and "i \<le> chunk_count L" and "unat off = start_of (chunk_lens L) i"
  shows "\<exists>j \<le> i. position (\<lambda>p. p = off) (offsets L) = Some j
           \<and> start_of (chunk_lens L) j = start_of (chunk_lens L) i"
proof -
  have "offsets L ! i = off" using assms by (simp add: layout_ok_def word_unat_eq_iff)
  then obtain j where "j \<le> i" and j: "position (\<lambda>p. p = off) (offsets L) = Some j"
    using position_exists[of i "offsets L" "\<lambda>p. p = off"] assms by (auto simp: layout_ok_def)
  then have "j < length (offsets L)" "offsets L ! j = off" by (auto simp: position_Some_iff)
  with assms j \<open>j \<le> i\<close> show ?thesis by (auto simp: layout_ok_def)
qed

lemma chunks_for_range_OkD:
  assumes "layout_ok L" and "chunks_for_range L off len = Ok (a, b)"
    and "unat off + unat len < 2 ^ 64"
  shows "a \<le> b" "b \<le> chunk_count L" "start_of (chunk_lens L) a = unat off"
    "start_of (chunk_lens L) b = unat off + unat len"
proof -
  from assms(2) have a: "position (\<lambda>p. p = off) (offsets L) = Some a"
    and b: "position (\<lambda>p. p = saturating_add off len) (offsets L) = Some b" and "a \<le> b"
    by (auto simp: chunks_for_range_def Let_def split: option.splits if_splits)
  then show "a \<le> b" by simp
  show "b \<le> chunk_count L" "start_of (chunk_lens L) a = unat off"
    using a b assms(1) by (auto simp: position_Some_iff layout_ok_def)
  have "offsets L ! b = saturating_add off len" using b by (simp add: position_Some_iff)
  then have "unat (offsets L ! b) = unat off + unat len"
    using assms(3) by (simp add: unat_saturating_add)
  then show "start_of (chunk_lens L) b = unat off + unat len"
    using assms(1) \<open>b \<le> chunk_count L\<close> by (simp add: layout_ok_def)
qed

lemma chunks_for_range_chunks:
  assumes "layout_ok L" and "i \<le> j" and "j \<le> chunk_count L"
    and "unat off = start_of (chunk_lens L) i" and "unat off + unat len = start_of (chunk_lens L) j"
  shows "\<exists>a b. chunks_for_range L off len = Ok (a, b) \<and> a \<le> i \<and> b \<le> j"
proof -
  from offsets_position[OF assms(1) _ assms(4)] assms(2,3) obtain a where
    a: "a \<le> i" "position (\<lambda>p. p = off) (offsets L) = Some a"
      "start_of (chunk_lens L) a = start_of (chunk_lens L) i" by auto
  have lt: "unat off + unat len < 2 ^ 64" using layout_ok_bound[OF assms(1), of j] assms(5) by simp
  then have "unat (saturating_add off len) = start_of (chunk_lens L) j"
    using assms(5) by (simp add: unat_saturating_add)
  from offsets_position[OF assms(1,3) this] obtain b where
    b: "b \<le> j" "position (\<lambda>p. p = saturating_add off len) (offsets L) = Some b"
      "start_of (chunk_lens L) b = start_of (chunk_lens L) j" by auto
  have "a \<le> b"
  proof (rule ccontr)
    assume "\<not> a \<le> b"
    then have "b < a" by simp
    then have "start_of (chunk_lens L) b = start_of (chunk_lens L) a"
      using start_of_mono[of b a "chunk_lens L"] start_of_mono[OF assms(2), of "chunk_lens L"] a b by simp
    then have "offsets L ! b = off" using b a assms(1,3,4) by (auto simp: layout_ok_def word_unat_eq_iff)
    then show False using a(2) \<open>b < a\<close> by (simp add: position_Some_iff)
  qed
  then show ?thesis using a b by (auto simp: chunks_for_range_def Let_def)
qed

section \<open>Properties\<close>

lemma try_new_outcome:
  "(case chunk_layout_try_new H lens of
      Err e \<Rightarrow> length lens > max_resource_chunk_count H
               \<or> reserve_refusal H (8 * (length lens + 1)) \<noteq> None
               \<or> 2 ^ 64 \<le> sum_list (map unat lens)
    | Ok L \<Rightarrow> length lens \<le> max_resource_chunk_count H
               \<and> unat (total_length L) = sum_list (map unat lens)
               \<and> (\<forall>i \<le> length lens. map_option unat (chunk_offset L i)
                                      = Some (sum_list (map unat (take i lens)))))"
proof (cases "chunk_layout_try_new H lens")
  case (Inl e)
  then show ?thesis using push_checked_total[of 0 lens]
    by (auto simp: chunk_layout_try_new_def not_less split: if_splits option.splits sum.splits)
next
  case (Inr L)
  note d = try_new_OkD[OF Inr]
  have "map_option unat (chunk_offset L i) = Some (sum_list (map unat (take i lens)))"
    if "i \<le> length lens" for i
    using layout_ok_offset[OF d(2), of i] that d(1) by (auto simp: chunk_count_def start_of_def)
  then show ?thesis using Inr d layout_ok_total[OF d(2)] by simp
qed

text \<open>
  C38: the checked constructor accepts a peer's chunk lengths exactly when their number is
  within the wire bound, the allocation is granted and the true (unbounded) sum fits in 64
  bits; an accepted layout reports exactly that sum and the exact prefix sum of every chunk.
\<close>

theorem try_new_accepts:
  "(is_ok (chunk_layout_try_new H lens) \<longleftrightarrow>
      length lens \<le> max_resource_chunk_count H
      \<and> reserve_refusal H (8 * (length lens + 1)) = None \<and> sum_list (map unat lens) < 2 ^ 64)
   \<and> (\<forall>L i. chunk_layout_try_new H lens = Ok L \<longrightarrow> i \<le> length lens \<longrightarrow>
        unat (total_length L) = sum_list (map unat lens)
        \<and> map_option unat (chunk_offset L i) = Some (sum_list (map unat (take i lens))))"
proof (cases "chunk_layout_try_new H lens")
  case (Inl e)
  then show ?thesis using try_new_outcome[of H lens] by auto
next
  case (Inr L)
  then have "reserve_refusal H (8 * (length lens + 1)) = None"
    by (auto simp: chunk_layout_try_new_def split: if_splits option.splits)
  then show ?thesis using try_new_outcome[of H lens] Inr unat_bound[of "total_length L"] by simp
qed

theorem try_new_accepts_witness:
  "is_ok (chunk_layout_try_new example_host [10, 20, 5])
   \<and> \<not> is_ok (chunk_layout_try_new example_host [10, - 1])"
  using try_new_accepts[of example_host "[10, 20, 5]"] try_new_accepts[of example_host "[10, - 1]"]
  by (simp add: example_host_def unat_all_ones)

text \<open>
  C14: for every layout the checked constructor accepts and every window, the planned ranges
  are numbered in order, each starts at the byte where the ranges before it end and at the
  chunk after theirs, covers at least one chunk, and together they have the resource's
  length: no byte is fetched twice and none is left out.
\<close>

theorem plan_ranges_partition:
  assumes "chunk_layout_try_new H lens = Ok L" and "rs = plan_ranges L window"
  shows "(\<forall>m < length rs.
            r_index (rs ! m) = m
            \<and> unat (r_offset (rs ! m)) = (\<Sum>r\<leftarrow>take m rs. unat (r_length r))
            \<and> chunk_start (rs ! m) = (if m = 0 then 0 else chunk_end (rs ! (m - 1)))
            \<and> chunk_start (rs ! m) < chunk_end (rs ! m) \<and> chunk_end (rs ! m) \<le> chunk_count L)
         \<and> (\<Sum>r\<leftarrow>rs. unat (r_length r)) = unat (total_length L)"
proof -
  have ok: "layout_ok L" by (rule try_new_OkD[OF assms(1)])
  have t: "tiles L 0 0 rs" unfolding assms(2) by (rule plan_ranges_tiles[OF ok])
  show ?thesis
    using tiles_nth[OF t] tiles_offset[OF t] tiles_sum[OF t] layout_ok_total[OF ok] by simp
qed

lemma example_layout:
  "chunk_layout_try_new example_host [10, 20, 5] = Ok \<lparr>chunk_lens = [10, 20, 5], offsets = [0, 10, 30, 35]\<rparr>"
  by (simp add: chunk_layout_try_new_def example_host_def checked_add_def)

lemma example_plan:
  "plan_ranges \<lparr>chunk_lens = [10, 20, 5], offsets = [0, 10, 30, 35]\<rparr> 25 =
     [\<lparr>r_index = 0, r_offset = 0, r_length = 10, chunk_start = 0, chunk_end = 1\<rparr>,
      \<lparr>r_index = 1, r_offset = 10, r_length = 25, chunk_start = 1, chunk_end = 3\<rparr>]"
  by (simp add: plan_ranges_def plan_from.simps pack_chunks.simps chunk_count_def len_or_0_def
      chunk_len_def chunk_offset_def get_opt_def saturating_add_def max_def to_nat)

theorem plan_ranges_partition_witness:
  "(\<Sum>r\<leftarrow>plan_ranges \<lparr>chunk_lens = [10, 20, 5], offsets = [0, 10, 30, 35]\<rparr> 25. unat (r_length r)) = 35"
  using plan_ranges_partition[OF example_layout refl, of 25] by (simp add: total_length_def)

text \<open>
  No planned range is longer than the window, except a range all of whose bytes are one
  chunk, which is larger than the window by itself and cannot be split.
\<close>

theorem plan_ranges_window:
  assumes "chunk_layout_try_new H lens = Ok L" and "r \<in> set (plan_ranges L window)"
  shows "r_length r \<le> max window 1
         \<or> (\<exists>m < chunk_count L. chunk_start r \<le> m \<and> m < chunk_end r \<and> chunk_lens L ! m = r_length r)"
proof -
  have ok: "layout_ok L" by (rule try_new_OkD[OF assms(1)])
  from assms(2) obtain k where k: "k < length (plan_ranges L window)" "plan_ranges L window ! k = r"
    by (auto simp: in_set_conv_nth)
  note t = tiles_nth[OF plan_ranges_tiles[OF ok] k(1), unfolded k(2)]
  have len: "unat (r_length r) = start_of (chunk_lens L) (chunk_end r) - start_of (chunk_lens L) (chunk_start r)"
    using t(5,6) by simp
  have "fits_window L (max window 1) (chunk_start r) (chunk_end r)"
    using plan_from_fits[OF ok] assms(2) by (simp add: plan_ranges_def)
  then show ?thesis
  proof (unfold fits_window_def, elim disjE exE conjE)
    assume "start_of (chunk_lens L) (chunk_end r) - start_of (chunk_lens L) (chunk_start r) \<le> unat (max window 1)"
    then show ?thesis using len by (simp add: word_le_nat_alt)
  next
    fix m
    assume m: "chunk_start r \<le> m" "m < chunk_end r"
      "start_of (chunk_lens L) m = start_of (chunk_lens L) (chunk_start r)"
      "start_of (chunk_lens L) (Suc m) = start_of (chunk_lens L) (chunk_end r)"
    then have "m < chunk_count L" using t(4) by simp
    moreover from this have "unat (chunk_lens L ! m) = unat (r_length r)"
      using m len by (simp add: start_of_Suc chunk_count_def)
    ultimately show ?thesis using m by (auto simp: word_unat_eq_iff)
  qed
qed

theorem plan_ranges_window_witness:
  "r_length (plan_ranges \<lparr>chunk_lens = [10, 20, 5], offsets = [0, 10, 30, 35]\<rparr> 25 ! 1) = 25"
proof -
  let ?r = "\<lparr>r_index = 1, r_offset = 10, r_length = 25, chunk_start = 1, chunk_end = 3\<rparr> :: range"
  have "?r \<in> set (plan_ranges \<lparr>chunk_lens = [10, 20, 5], offsets = [0, 10, 30, 35]\<rparr> 25)"
    by (simp add: example_plan)
  from plan_ranges_window[OF example_layout this] show ?thesis by (simp add: example_plan)
qed

text \<open>
  Every planned range is a verifiable unit: its byte range starts and ends on chunk
  boundaries, so mapping it back to chunks succeeds, and the chunks found start and end at
  the same bytes as the planned ones.
\<close>

theorem plan_ranges_aligned:
  assumes "chunk_layout_try_new H lens = Ok L" and "r \<in> set (plan_ranges L window)"
  shows "\<exists>a b. chunks_for_range L (r_offset r) (r_length r) = Ok (a, b)
           \<and> a \<le> chunk_start r \<and> b \<le> chunk_end r
           \<and> chunk_offset L a = Some (r_offset r)
           \<and> chunk_offset L b = Some (r_offset r + r_length r)"
proof -
  have ok: "layout_ok L" by (rule try_new_OkD[OF assms(1)])
  from assms(2) obtain k where k: "k < length (plan_ranges L window)" "plan_ranges L window ! k = r"
    by (auto simp: in_set_conv_nth)
  note t = tiles_nth[OF plan_ranges_tiles[OF ok] k(1), unfolded k(2)]
  from chunks_for_range_chunks[OF ok _ t(4,5,6)] t(3) obtain a b where
    ab: "chunks_for_range L (r_offset r) (r_length r) = Ok (a, b)" "a \<le> chunk_start r" "b \<le> chunk_end r"
    by auto
  have lt: "unat (r_offset r) + unat (r_length r) < 2 ^ 64"
    using t(6) layout_ok_bound[OF ok] by simp
  note d = chunks_for_range_OkD[OF ok ab(1) lt]
  have "unat (r_offset r + r_length r) = unat (r_offset r) + unat (r_length r)"
    using lt by (simp add: unat_word_ariths)
  then show ?thesis
    using ab layout_ok_offset[OF ok, of a] layout_ok_offset[OF ok, of b] d
    by (auto simp: word_unat_eq_iff)
qed

theorem plan_ranges_aligned_witness:
  "chunks_for_range \<lparr>chunk_lens = [10, 20, 5], offsets = [0, 10, 30, 35]\<rparr> 10 25 = Ok (1, 3)"
proof -
  let ?r = "\<lparr>r_index = 1, r_offset = 10, r_length = 25, chunk_start = 1, chunk_end = 3\<rparr> :: range"
  have "?r \<in> set (plan_ranges \<lparr>chunk_lens = [10, 20, 5], offsets = [0, 10, 30, 35]\<rparr> 25)"
    by (simp add: example_plan)
  from plan_ranges_aligned[OF example_layout this] show ?thesis
    by (auto simp: chunks_for_range_def saturating_add_def Let_def)
qed

end
