(* ===== verification/Verify.thy ===== *)
theory Verify
  imports Plan "HOL-Library.AList" "HOL-Library.Multiset"
begin

text \<open>
  \<^verbatim>\<open>src/verify.rs\<close>: the resource commitment a download checks every range against, the
  incremental whole-resource hasher, and the per-range and whole-resource checks.

  SHA-256 is a third-party crate: its streaming interface (\<open>init\<close>, \<open>update\<close>, \<open>finalize\<close>)
  and the one-shot digest are the parameter \<open>hash_ops\<close>. What the crate documents, that a
  streamed digest is the digest of the concatenation, is the locale \<open>streaming_hash\<close>. The
  merkle-proof check is injected by the caller of the library and is a parameter as well.
\<close>

section \<open>The digest interface\<close>

record 'h hash_ops =
  h_init :: "'h"
  h_update :: "'h \<Rightarrow> bytes \<Rightarrow> 'h"
  h_finalize :: "'h \<Rightarrow> bytes"
  h_digest :: "bytes \<Rightarrow> bytes"

definition absorb :: "'h hash_ops \<Rightarrow> bytes list \<Rightarrow> 'h" where
  "absorb HO bss = foldl (h_update HO) (h_init HO) bss"

locale streaming_hash =
  fixes HO :: "'h hash_ops"
  assumes finalize_absorb: "h_finalize HO (absorb HO bss) = h_digest HO (concat bss)"
begin

lemma absorb_snoc: "absorb HO (bss @ [bs]) = h_update HO (absorb HO bss) bs"
  by (simp add: absorb_def)

lemma absorb_Nil: "absorb HO [] = h_init HO"
  by (simp add: absorb_def)

end

section \<open>The incremental resource hasher\<close>

record 'h resource_hasher =
  hasher :: "'h"
  next_offset :: u64
  pending :: "(u64 \<times> bytes) list"

definition resource_hasher_new :: "'h hash_ops \<Rightarrow> 'h resource_hasher" where
  "resource_hasher_new HO = \<lparr>hasher = h_init HO, next_offset = 0, pending = []\<rparr>"

text \<open>
  The draining loop of \<open>feed\<close>: while the range at the frontier is buffered, remove it, hash
  it and advance. Each turn removes an entry of the buffer (a sorted map in the source, here
  an association list), so the loop ends.
\<close>

lemma length_delete_less:
  "map_of al k = Some v \<Longrightarrow> length (AList.delete k al) < length al"
proof (induction al)
  case (Cons p al)
  have "length (AList.delete k al) \<le> length al" by (rule length_delete_le)
  with Cons show ?case by (cases p) (auto split: if_splits)
qed simp

function drain :: "'h hash_ops \<Rightarrow> 'h resource_hasher \<Rightarrow> 'h resource_hasher" where
  "drain HO h =
     (case map_of (pending h) (next_offset h) of
        None \<Rightarrow> h
      | Some chunk \<Rightarrow>
          drain HO (h\<lparr>hasher := h_update HO (hasher h) chunk,
                      next_offset := saturating_add (next_offset h) (len64 chunk),
                      pending := AList.delete (next_offset h) (pending h)\<rparr>))"
  by pat_completeness auto
termination
  by (relation "measure (\<lambda>(HO, h). length (pending h))") (auto intro: length_delete_less)

declare drain.simps [simp del]

definition feed :: "'h hash_ops \<Rightarrow> u64 \<Rightarrow> bytes \<Rightarrow> 'h resource_hasher \<Rightarrow> 'h resource_hasher" where
  "feed HO off bs h =
     (if off < next_offset h then h
      else drain HO (h\<lparr>pending := AList.update off bs (pending h)\<rparr>))"

definition hashed_len :: "'h resource_hasher \<Rightarrow> u64" where
  "hashed_len h = next_offset h"

definition has_gap :: "'h resource_hasher \<Rightarrow> bool" where
  "has_gap h = (pending h \<noteq> [])"

definition hasher_finalize :: "'h hash_ops \<Rightarrow> 'h resource_hasher \<Rightarrow> bytes" where
  "hasher_finalize HO h = h_finalize HO (hasher h)"

section \<open>The resource commitment\<close>

definition default_max_resource_size :: u64 where
  "default_max_resource_size = 512 * 1024 * 1024"

record resource_commitment =
  c_layout :: chunk_layout
  c_total_length :: u64
  c_root :: "rstring option"
  c_inclusion_proof :: "rstring option"

definition from_first_frame_bounded ::
  "host \<Rightarrow> u64 \<Rightarrow> u64 list \<Rightarrow> rstring option \<Rightarrow> rstring option \<Rightarrow> u64
   \<Rightarrow> verify_error + resource_commitment" where
  "from_first_frame_bounded H tot lens rt prf max_resource_size =
     (if tot > max_resource_size
      then Err (Metadata (lit ''declared total_length '' @ dec64 tot @ lit '' exceeds the maximum ''
             @ dec64 max_resource_size))
      else
        (case chunk_layout_try_new H lens of
           Err e \<Rightarrow> Err e
         | Ok L \<Rightarrow>
             if total_length L \<noteq> tot
             then Err (Metadata (lit ''chunk_lens sum '' @ dec64 (total_length L)
                    @ lit '' != total_length '' @ dec64 tot))
             else Ok \<lparr>c_layout = L, c_total_length = tot, c_root = rt, c_inclusion_proof = prf\<rparr>))"

definition from_first_frame ::
  "host \<Rightarrow> u64 \<Rightarrow> u64 list \<Rightarrow> rstring option \<Rightarrow> rstring option \<Rightarrow> verify_error + resource_commitment" where
  "from_first_frame H tot lens rt prf =
     from_first_frame_bounded H tot lens rt prf default_max_resource_size"

definition check_consistent ::
  "resource_commitment \<Rightarrow> u64 option \<Rightarrow> u64 list option \<Rightarrow> rstring option \<Rightarrow> verify_error + unit" where
  "check_consistent C tot lens rt =
     and_then
       (case tot of
          Some declared \<Rightarrow>
            if declared \<noteq> c_total_length C
            then Err (Metadata (lit ''total_length '' @ dec64 declared @ lit '' != committed ''
                   @ dec64 (c_total_length C)))
            else Ok ()
        | None \<Rightarrow> Ok ())
     (\<lambda>_. and_then
       (case lens of
          Some cl \<Rightarrow>
            if cl \<noteq> chunk_lens (c_layout C) then Err (Metadata (lit ''chunk_lens differ'')) else Ok ()
        | None \<Rightarrow> Ok ())
     (\<lambda>_.
       (case (rt, c_root C) of
          (Some r, Some committed) \<Rightarrow>
            if r \<noteq> committed
            then Err (Metadata (lit ''root '' @ r @ lit '' != committed '' @ committed))
            else Ok ()
        | _ \<Rightarrow> Ok ())))"

section \<open>The verifier\<close>

text \<open>
  The injected prf check (\<open>ProofVerifier::verify_inclusion\<close>): leaf, inclusion prf, root.
  The structural-only one accepts everything.
\<close>

type_synonym proof_verifier = "bytes \<Rightarrow> rstring option \<Rightarrow> rstring option \<Rightarrow> bool"

definition structural_only :: proof_verifier where
  "structural_only leaf prf rt = True"

record verifier_ops =
  v_range :: "resource_commitment \<Rightarrow> u64 \<Rightarrow> u64 \<Rightarrow> bytes \<Rightarrow> verify_error + unit"
  v_resource :: "resource_commitment \<Rightarrow> bytes \<Rightarrow> verify_error + unit"
  v_resource_leaf :: "resource_commitment \<Rightarrow> bytes \<Rightarrow> u64 \<Rightarrow> verify_error + unit"

definition merkle_verify_range ::
  "host \<Rightarrow> resource_commitment \<Rightarrow> u64 \<Rightarrow> u64 \<Rightarrow> bytes \<Rightarrow> verify_error + unit" where
  "merkle_verify_range H C first_chunk_index expected_len bs =
     (if len64 bs \<noteq> expected_len then Err (LengthMismatch expected_len (len64 bs))
      else
        (case try_usize H first_chunk_index of
           None \<Rightarrow> Err (Alignment (lit ''chunk_index '' @ dec64 first_chunk_index
                     @ lit '' does not fit this platform's address space''))
         | Some start \<Rightarrow>
             if start \<ge> chunk_count (c_layout C)
             then Err (Alignment (lit ''chunk_index '' @ dec start @ lit '' out of range (chunk_count ''
                    @ dec (chunk_count (c_layout C)) @ lit '')''))
             else
               (case chunk_offset (c_layout C) start of
                  None \<Rightarrow> Err (Alignment (lit ''chunk_index has no offset''))
                | Some off \<Rightarrow>
                    and_then (chunks_for_range (c_layout C) off (len64 bs)) (\<lambda>(cs, ce). Ok ()))))"

definition merkle_verify_resource_leaf ::
  "proof_verifier \<Rightarrow> resource_commitment \<Rightarrow> bytes \<Rightarrow> u64 \<Rightarrow> verify_error + unit" where
  "merkle_verify_resource_leaf PV C leaf assembled_len =
     (if assembled_len \<noteq> c_total_length C then Err (LengthMismatch (c_total_length C) assembled_len)
      else if \<not> PV leaf (c_inclusion_proof C) (c_root C) then Err Root
      else Ok ())"

definition merkle_resource_leaf :: "'h hash_ops \<Rightarrow> bytes \<Rightarrow> bytes" where
  "merkle_resource_leaf HO full = h_digest HO full"

definition merkle_verify_resource ::
  "'h hash_ops \<Rightarrow> proof_verifier \<Rightarrow> resource_commitment \<Rightarrow> bytes \<Rightarrow> verify_error + unit" where
  "merkle_verify_resource HO PV C full =
     merkle_verify_resource_leaf PV C (merkle_resource_leaf HO full) (len64 full)"

definition with_proof_verifier :: "host \<Rightarrow> 'h hash_ops \<Rightarrow> proof_verifier \<Rightarrow> verifier_ops" where
  "with_proof_verifier H HO PV =
     \<lparr>v_range = merkle_verify_range H, v_resource = merkle_verify_resource HO PV,
      v_resource_leaf = merkle_verify_resource_leaf PV\<rparr>"

definition insecure_structural_only :: "host \<Rightarrow> 'h hash_ops \<Rightarrow> verifier_ops" where
  "insecure_structural_only H HO = with_proof_verifier H HO structural_only"

section \<open>What the commitment guarantees\<close>

definition commitment_ok :: "resource_commitment \<Rightarrow> bool" where
  "commitment_ok C \<longleftrightarrow> layout_ok (c_layout C) \<and> total_length (c_layout C) = c_total_length C"

lemma from_first_frame_OkD:
  assumes "from_first_frame_bounded H tot lens rt prf mx = Ok C"
  shows "commitment_ok C" "chunk_lens (c_layout C) = lens" "c_total_length C = tot" "tot \<le> mx"
    "c_root C = rt" "c_inclusion_proof C = prf" "chunk_layout_try_new H lens = Ok (c_layout C)"
    "unat tot = sum_list (map unat lens)"
proof -
  from assms obtain L where L: "chunk_layout_try_new H lens = Ok L" and eq: "total_length L = tot"
    and le: "tot \<le> mx"
    and C: "C = \<lparr>c_layout = L, c_total_length = tot, c_root = rt, c_inclusion_proof = prf\<rparr>"
    by (auto simp: from_first_frame_bounded_def split: if_splits sum.splits)
  note d = try_new_OkD[OF L]
  show "commitment_ok C" "chunk_lens (c_layout C) = lens" "c_total_length C = tot" "tot \<le> mx"
    "c_root C = rt" "c_inclusion_proof C = prf" "chunk_layout_try_new H lens = Ok (c_layout C)"
    using d C eq le L by (simp_all add: commitment_ok_def)
  show "unat tot = sum_list (map unat lens)"
    using layout_ok_total[OF d(2)] d(1) eq by simp
qed

lemma verify_range_exact:
  assumes "merkle_verify_range H C i n bs = Ok ()" "vec_ok bs"
  shows "length bs = unat n"
  using assms by (auto simp: merkle_verify_range_def len64_eq_iff split: if_splits)

section \<open>The hasher sees every byte, in order, whatever the order of arrival\<close>

text \<open>
  \<open>contig o ts\<close>: the pieces \<open>ts\<close> (offset and bytes) follow each other without a gap from \<open>o\<close>.
\<close>

fun contig :: "nat \<Rightarrow> (u64 \<times> bytes) list \<Rightarrow> bool" where
  "contig p [] \<longleftrightarrow> True"
| "contig p ((q, bs) # ts) \<longleftrightarrow> unat q = p \<and> contig (p + length bs) ts"

definition pieces_len :: "(u64 \<times> bytes) list \<Rightarrow> nat" where
  "pieces_len ts = length (concat (map snd ts))"

lemma pieces_len_simps [simp]:
  "pieces_len [] = 0" "pieces_len (t # ts) = length (snd t) + pieces_len ts"
  "pieces_len (ts @ us) = pieces_len ts + pieces_len us"
  by (simp_all add: pieces_len_def)

lemma contig_nth: "contig p ts \<Longrightarrow> k < length ts \<Longrightarrow> unat (fst (ts ! k)) = p + pieces_len (take k ts)"
proof (induction p ts arbitrary: k rule: contig.induct)
  case (2 p q bs ts)
  then show ?case by (cases k) auto
qed simp

lemma pieces_len_take_mono: "i \<le> j \<Longrightarrow> pieces_len (take i ts) \<le> pieces_len (take j ts)"
proof -
  assume "i \<le> j"
  then have "take j ts = take i ts @ take (j - i) (drop i ts)" by (metis le_add_diff_inverse take_add)
  then show ?thesis by simp
qed

lemma pieces_len_take_le: "pieces_len (take k ts) \<le> pieces_len ts"
  using pieces_len_take_mono[of k "max k (length ts)" ts] by simp

text \<open>
  \<open>fed ts F h\<close>: the hasher \<open>h\<close> has been fed exactly the pieces in \<open>F\<close>: it has absorbed a prefix
  of \<open>ts\<close>, stands at the end of that prefix, and buffers the other pieces of \<open>F\<close>.
\<close>

definition fed :: "'h hash_ops \<Rightarrow> (u64 \<times> bytes) list \<Rightarrow> (u64 \<times> bytes) set \<Rightarrow> nat \<Rightarrow> 'h resource_hasher \<Rightarrow> bool" where
  "fed HO ts F k h \<longleftrightarrow>
     k \<le> length ts \<and> hasher h = absorb HO (map snd (take k ts))
     \<and> unat (next_offset h) = pieces_len (take k ts) \<and> set (take k ts) \<subseteq> F \<and> F \<subseteq> set ts
     \<and> (\<forall>q bs. map_of (pending h) q = Some bs \<longleftrightarrow> (q, bs) \<in> F \<and> (q, bs) \<notin> set (take k ts))"

definition settled :: "'h hash_ops \<Rightarrow> (u64 \<times> bytes) list \<Rightarrow> (u64 \<times> bytes) set \<Rightarrow> 'h resource_hasher \<Rightarrow> bool" where
  "settled HO ts F h \<longleftrightarrow> (\<exists>k. fed HO ts F k h \<and> (k < length ts \<longrightarrow> ts ! k \<notin> F))"

definition pieces_ok :: "(u64 \<times> bytes) list \<Rightarrow> bool" where
  "pieces_ok ts \<longleftrightarrow> contig 0 ts \<and> distinct (map fst ts) \<and> pieces_len ts < 2 ^ 64"

lemma fst_inj: "distinct (map fst ts) \<Longrightarrow> (q, bs) \<in> set ts \<Longrightarrow> (q, bs') \<in> set ts \<Longrightarrow> bs = bs'"
  by (meson eq_key_imp_eq_value)

lemma nth_in_take: "j < k \<Longrightarrow> j < length ts \<Longrightarrow> ts ! j \<in> set (take k ts)"
  by (auto simp: in_set_conv_nth intro!: exI[of _ j])

lemma nth_notin_take: "distinct ts \<Longrightarrow> k < length ts \<Longrightarrow> ts ! k \<notin> set (take k ts)"
  using distinct_take[of ts "Suc k"] by (simp add: take_Suc_conv_app_nth)

lemma piece_at_frontier:
  assumes "pieces_ok ts" "(q, bs) \<in> set ts" "(q, bs) \<notin> set (take k ts)" "k \<le> length ts"
    and "unat q = pieces_len (take k ts)"
  shows "k < length ts \<and> ts ! k = (q, bs)"
proof -
  from assms(2) obtain j where j: "j < length ts" "ts ! j = (q, bs)" by (auto simp: in_set_conv_nth)
  have "k \<le> j" using nth_in_take[of j k ts] assms(3) j by (auto simp: not_less[symmetric])
  then have k: "k < length ts" using j by simp
  have "unat (fst (ts ! k)) = unat (fst (ts ! j))"
    using contig_nth[of 0 ts k] k assms(1,5) j by (simp add: pieces_ok_def)
  then have "map fst ts ! k = map fst ts ! j" using k j by (simp add: word_unat_eq_iff)
  then have "k = j"
    using nth_eq_iff_index_eq[of "map fst ts" k j] assms(1) k j by (simp add: pieces_ok_def)
  with j k show ?thesis by simp
qed

lemma drain_settles:
  assumes "pieces_ok ts" and "fed HO ts F k h"
  shows "settled HO ts F (drain HO h)"
  using assms
proof (induction HO h arbitrary: k rule: drain.induct)
  case (1 HO h)
  note fed = "1.prems"(2)[unfolded fed_def]
  show ?case
  proof (cases "map_of (pending h) (next_offset h)")
    case None
    have "ts ! k \<notin> F" if "k < length ts"
    proof
      assume F: "ts ! k \<in> F"
      obtain q bs where t: "ts ! k = (q, bs)" by force
      have "distinct ts" using "1.prems"(1) by (simp add: pieces_ok_def distinct_map)
      then have "(q, bs) \<notin> set (take k ts)"
        using nth_notin_take[of ts k] t that by simp
      then have "map_of (pending h) q = Some bs" using fed F t by auto
      moreover have "q = next_offset h"
        using contig_nth[of 0 ts k] that fed t "1.prems"(1) by (simp add: pieces_ok_def word_unat_eq_iff)
      ultimately show False using None by simp
    qed
    then show ?thesis using "1.prems"(2) None by (subst drain.simps) (auto simp: settled_def)
  next
    case (Some chunk)
    let ?h = "h\<lparr>hasher := h_update HO (hasher h) chunk,
                next_offset := saturating_add (next_offset h) (len64 chunk),
                pending := AList.delete (next_offset h) (pending h)\<rparr>"
    have mem: "(next_offset h, chunk) \<in> F" "(next_offset h, chunk) \<notin> set (take k ts)"
      using fed Some by auto
    then have k: "k < length ts \<and> ts ! k = (next_offset h, chunk)"
      using piece_at_frontier[OF "1.prems"(1), of "next_offset h" chunk k] fed by auto
    then have tk: "take (Suc k) ts = take k ts @ [(next_offset h, chunk)]"
      by (simp add: take_Suc_conv_app_nth)
    have le: "pieces_len (take (Suc k) ts) < 2 ^ 64"
      using pieces_len_take_le[of "Suc k" ts] "1.prems"(1) by (simp add: pieces_ok_def)
    then have "length chunk < 2 ^ 64" using tk by simp
    then have nxt: "unat (saturating_add (next_offset h) (len64 chunk)) = pieces_len (take (Suc k) ts)"
      using le tk fed by (simp add: unat_saturating_add unat_len64)
    have others: "q \<noteq> next_offset h" if "(q, bs) \<in> F" "(q, bs) \<noteq> (next_offset h, chunk)" for q bs
      using fst_inj[of ts q bs chunk] that mem(1) fed "1.prems"(1) by (auto simp: pieces_ok_def)
    have "fed HO ts F (Suc k) ?h"
      unfolding fed_def
    proof (intro conjI allI)
      fix q bs
      show "(map_of (pending ?h) q = Some bs) = ((q, bs) \<in> F \<and> (q, bs) \<notin> set (take (Suc k) ts))"
        using fed tk mem others[of q bs] by (auto simp: delete_conv')
    qed (use fed k tk nxt mem in \<open>auto simp: absorb_def\<close>)
    from "1.IH"[OF Some "1.prems"(1) this] show ?thesis
      using Some by (subst drain.simps) simp
  qed
qed

lemma feed_settled:
  assumes "pieces_ok ts" and "settled HO ts F h" and "(q, bs) \<in> set ts" and "(q, bs) \<notin> F"
  shows "settled HO ts (insert (q, bs) F) (feed HO q bs h)"
proof -
  from assms(2) obtain k where fed: "fed HO ts F k h" by (auto simp: settled_def)
  note fd = fed[unfolded fed_def]
  from assms(3) obtain j where j: "j < length ts" "ts ! j = (q, bs)" by (auto simp: in_set_conv_nth)
  have notin: "(q, bs) \<notin> set (take k ts)" using fd assms(4) by auto
  then have "k \<le> j" using nth_in_take[of j k ts] j by (auto simp: not_less[symmetric])
  then have "pieces_len (take k ts) \<le> unat q"
    using contig_nth[of 0 ts j] j assms(1) pieces_len_take_mono[of k j ts] by (simp add: pieces_ok_def)
  then have ge: "\<not> q < next_offset h" using fd by (simp add: word_less_nat_alt)
  have no_q: "(q, bs') \<notin> F" if "bs' \<noteq> bs" for bs'
    using fst_inj[of ts q bs bs'] that assms(1,3) fd by (auto simp: pieces_ok_def)
  have "fed HO ts (insert (q, bs) F) k (h\<lparr>pending := AList.update q bs (pending h)\<rparr>)"
    unfolding fed_def
  proof (intro conjI allI)
    fix p cs
    show "(map_of (pending (h\<lparr>pending := AList.update q bs (pending h)\<rparr>)) p = Some cs)
            = ((p, cs) \<in> insert (q, bs) F \<and> (p, cs) \<notin> set (take k ts))"
      using fd notin no_q[of cs] by (auto simp: update_conv')
  qed (use fd assms(3) in auto)
  from drain_settles[OF assms(1) this] show ?thesis using ge by (simp add: feed_def)
qed

lemma settled_new: "settled HO ts {} (resource_hasher_new HO)"
  by (auto simp: settled_def fed_def resource_hasher_new_def absorb_def intro: exI[of _ 0])

lemma settled_all:
  assumes "pieces_ok ts" and "settled HO ts (set ts) h"
  shows "hasher h = absorb HO (map snd ts)" "unat (hashed_len h) = pieces_len ts" "\<not> has_gap h"
proof -
  from assms(2) obtain k where fed: "fed HO ts (set ts) k h" and "k < length ts \<longrightarrow> ts ! k \<notin> set ts"
    by (auto simp: settled_def)
  then have k: "k = length ts" by (auto simp: fed_def)
  then show "hasher h = absorb HO (map snd ts)" "unat (hashed_len h) = pieces_len ts"
    using fed by (auto simp: fed_def hashed_len_def)
  have "map_of (pending h) q = None" for q
    using fed k by (auto simp: fed_def not_Some_eq[symmetric] simp del: not_Some_eq)
  then show "\<not> has_gap h" by (cases "pending h") (force simp: has_gap_def split: if_splits)+
qed

lemma feed_all_settled:
  assumes "pieces_ok ts" and "settled HO ts F h" and "distinct order" and "set order \<subseteq> set ts - F"
  shows "settled HO ts (F \<union> set order) (fold (\<lambda>(q, bs). feed HO q bs) order h)"
  using assms(2-)
proof (induction order arbitrary: F h)
  case (Cons t order)
  obtain q bs where t: "t = (q, bs)" by force
  from Cons.prems have "settled HO ts (insert t F) (feed HO q bs h)"
    using feed_settled[OF assms(1), of HO F h q bs] t by auto
  from Cons.IH[OF this] Cons.prems show ?case using t by auto
qed simp

context streaming_hash
begin

lemma fed_in_any_order:
  assumes "pieces_ok ts" and "mset order = mset ts"
    and "h = fold (\<lambda>(q, bs). feed HO q bs) order (resource_hasher_new HO)"
  shows "hasher_finalize HO h = h_digest HO (concat (map snd ts)) \<and> unat (hashed_len h) = pieces_len ts
         \<and> \<not> has_gap h"
proof -
  have d: "distinct ts" using assms(1) by (simp add: pieces_ok_def distinct_map)
  have s: "set order = set ts" using assms(2) by (metis set_mset_mset)
  have "distinct order" using d assms(2) by (metis mset_eq_imp_distinct_iff)
  from feed_all_settled[OF assms(1) settled_new this, of HO]
  have "settled HO ts (set ts) h" using assms(3) s by auto
  from settled_all[OF assms(1) this] show ?thesis
    by (simp add: hasher_finalize_def finalize_absorb)
qed

end

text \<open>
  A hash interface that buffers its input and applies one digest function at the end: the
  shape the streaming contract describes, for any digest.
\<close>

definition buffering_hash :: "(bytes \<Rightarrow> bytes) \<Rightarrow> bytes hash_ops" where
  "buffering_hash d = \<lparr>h_init = [], h_update = (@), h_finalize = d, h_digest = d\<rparr>"

lemma absorb_buffering: "absorb (buffering_hash d) bss = concat bss"
  by (induction bss rule: rev_induct) (simp_all add: absorb_def buffering_hash_def)

interpretation buffering: streaming_hash "buffering_hash d" for d
  by unfold_locales (simp add: absorb_buffering, simp add: buffering_hash_def)

section \<open>The verifier interface\<close>

text \<open>
  What the scheduler relies on: an accepted range has exactly the length that was asked for,
  and an accepted leaf comes with the committed total length and is anchored.
\<close>

locale sound_verifier =
  fixes V :: verifier_ops
    and anchored :: "resource_commitment \<Rightarrow> bytes \<Rightarrow> bool"
  assumes range_exact: "v_range V C i n bs = Ok () \<Longrightarrow> vec_ok bs \<Longrightarrow> length bs = unat n"
    and leaf_anchored: "v_resource_leaf V C leaf n = Ok () \<Longrightarrow> n = c_total_length C \<and> anchored C leaf"

definition merkle_anchored :: "proof_verifier \<Rightarrow> resource_commitment \<Rightarrow> bytes \<Rightarrow> bool" where
  "merkle_anchored PV C leaf = PV leaf (c_inclusion_proof C) (c_root C)"

interpretation merkle: sound_verifier "with_proof_verifier H HO PV" "merkle_anchored PV" for H HO PV
proof unfold_locales
  fix C i n bs
  assume "v_range (with_proof_verifier H HO PV) C i n bs = Ok ()" "vec_ok bs"
  then show "length bs = unat n" by (auto simp: with_proof_verifier_def dest: verify_range_exact)
next
  fix C leaf n
  assume "v_resource_leaf (with_proof_verifier H HO PV) C leaf n = Ok ()"
  then show "n = c_total_length C \<and> merkle_anchored PV C leaf"
    by (auto simp: with_proof_verifier_def merkle_verify_resource_leaf_def merkle_anchored_def
        split: if_splits)
qed

section \<open>Properties\<close>

text \<open>
  C18: feeding the pieces of a resource to the incremental hasher, each once and in any order
  of arrival, ends with the digest of the whole resource in offset order, the full length
  hashed and no gap, provided the digest crate's streamed digest is the digest of the
  concatenation.
\<close>

theorem resource_hasher_order_independent:
  assumes "streaming_hash HO" and "pieces_ok ts" and "mset order = mset ts"
    and "h = fold (\<lambda>(q, bs). feed HO q bs) order (resource_hasher_new HO)"
  shows "hasher_finalize HO h = h_digest HO (concat (map snd ts))
         \<and> unat (hashed_len h) = length (concat (map snd ts)) \<and> \<not> has_gap h"
  using streaming_hash.fed_in_any_order[OF assms] by (simp add: pieces_len_def)

theorem resource_hasher_order_independent_witness:
  "hasher_finalize (buffering_hash (\<lambda>bs. bs))
     (fold (\<lambda>(q, bs). feed (buffering_hash (\<lambda>bs. bs)) q bs) [(2, [3]), (0, [1, 2])]
        (resource_hasher_new (buffering_hash (\<lambda>bs. bs)))) = [1, 2, 3]"
proof -
  have ts: "pieces_ok [(0, [1, 2]), (2, [3])]"
    by (simp add: pieces_ok_def)
  have order: "mset [(2::u64, [3::u8]), (0, [1, 2])] = mset [(0, [1, 2]), (2, [3])]" by simp
  have id: "streaming_hash (buffering_hash (\<lambda>bs. bs))" by (rule buffering.streaming_hash_axioms)
  from resource_hasher_order_independent[OF id ts order refl] show ?thesis
    by (simp add: buffering_hash_def)
qed

text \<open>
  C29: a peer's first-frame metadata becomes a commitment exactly when the declared total is
  within the configured ceiling, the chunk count is within the wire bound, the allocation is
  granted, and the chunk lengths, summed without any wrap-around or saturation, are the
  declared total.
\<close>

theorem from_first_frame_accepts_iff:
  "is_ok (from_first_frame_bounded H tot lens rt prf mx) \<longleftrightarrow>
     tot \<le> mx \<and> length lens \<le> max_resource_chunk_count H
     \<and> reserve_refusal H (8 * (length lens + 1)) = None
     \<and> sum_list (map unat lens) = unat tot"
proof (cases "chunk_layout_try_new H lens")
  case (Inl e)
  then show ?thesis using try_new_outcome[of H lens] unat_bound[of tot]
    by (auto simp: from_first_frame_bounded_def)
next
  case (Inr L)
  then have "reserve_refusal H (8 * (length lens + 1)) = None"
    by (auto simp: chunk_layout_try_new_def split: if_splits option.splits)
  then show ?thesis using Inr try_new_OkD[OF Inr] layout_ok_total[OF try_new_OkD(2)[OF Inr]]
    by (auto simp: from_first_frame_bounded_def word_unat_eq_iff)
qed

text \<open>
  A later range's metadata passes the consistency check exactly when every field it
  declares agrees with the commitment; an absent field, or a commitment without a root,
  constrains nothing.
\<close>

theorem check_consistent_iff:
  "check_consistent C tot lens rt = Ok () \<longleftrightarrow>
     (tot = None \<or> tot = Some (c_total_length C))
     \<and> (lens = None \<or> lens = Some (chunk_lens (c_layout C)))
     \<and> (rt = None \<or> c_root C = None \<or> rt = c_root C)"
  by (auto simp: check_consistent_def and_then_Ok_iff split: option.splits if_splits)

lemma planned_range_verifies:
  assumes "from_first_frame_bounded H tot lens rt prf mx = Ok C"
    and "r \<in> set (plan_ranges (c_layout C) window)" and "vec_ok bs"
    and "max_resource_chunk_count H \<le> usize_max H" and "usize_max H < 2 ^ 64"
  shows "merkle_verify_range H C (of_nat (chunk_start r)) (r_length r) bs =
     (if length bs = unat (r_length r) then Ok () else Err (LengthMismatch (r_length r) (len64 bs)))"
proof (cases "length bs = unat (r_length r)")
  case False
  then show ?thesis using assms(3) by (simp add: merkle_verify_range_def len64_eq_iff)
next
  case True
  let ?L = "c_layout C"
  note f = from_first_frame_OkD[OF assms(1)]
  have ok: "layout_ok ?L" using f(1) by (simp add: commitment_ok_def)
  from assms(2) obtain k where k: "k < length (plan_ranges ?L window)" "plan_ranges ?L window ! k = r"
    by (auto simp: in_set_conv_nth)
  note t = tiles_nth[OF plan_ranges_tiles[OF ok] k(1), unfolded k(2)]
  have small: "chunk_start r < chunk_count ?L" "chunk_count ?L \<le> usize_max H"
    using t(3,4) try_new_OkD(1,3)[OF f(7)] assms(4) by (auto simp: chunk_count_def)
  then have idx: "unat (of_nat (chunk_start r) :: u64) = chunk_start r"
    using assms(5) by (simp add: unat_of_nat)
  from layout_ok_offset[OF ok, of "chunk_start r"] small obtain q where
    q: "chunk_offset ?L (chunk_start r) = Some q" "unat q = start_of (chunk_lens ?L) (chunk_start r)" by auto
  have len: "len64 bs = r_length r" using True assms(3) by (simp add: len64_eq_iff)
  have "q = r_offset r" using q t(5) by (simp add: word_unat_eq_iff)
  moreover obtain a b where "chunks_for_range ?L (r_offset r) (r_length r) = Ok (a, b)"
    using chunks_for_range_chunks[OF ok _ t(4,5,6)] t(3) by auto
  ultimately show ?thesis using True len small idx q
    by (simp add: merkle_verify_range_def try_usize_def)
qed

text \<open>
  For a commitment built from a first frame, the per-range check accepts the bytes of a
  planned range exactly when there are as many of them as planned, and rejects any other
  number, a boundary-aligned short range included, as a length mismatch.
\<close>

theorem verify_planned_range:
  assumes "from_first_frame_bounded H tot lens rt prf mx = Ok C"
    and "r \<in> set (plan_ranges (c_layout C) window)" and "vec_ok bs"
    and "max_resource_chunk_count H \<le> usize_max H" and "usize_max H < 2 ^ 64"
  shows "merkle_verify_range H C (of_nat (chunk_start r)) (r_length r) bs =
     (if length bs = unat (r_length r) then Ok () else Err (LengthMismatch (r_length r) (len64 bs)))"
  by (rule planned_range_verifies[OF assms])

lemma example_commitment:
  "from_first_frame_bounded example_host 35 [10, 20, 5] None None 100 =
     Ok \<lparr>c_layout = \<lparr>chunk_lens = [10, 20, 5], offsets = [0, 10, 30, 35]\<rparr>,
         c_total_length = 35, c_root = None, c_inclusion_proof = None\<rparr>"
  by (simp add: from_first_frame_bounded_def example_layout total_length_def to_nat)

theorem verify_planned_range_witness:
  "merkle_verify_range example_host
     \<lparr>c_layout = \<lparr>chunk_lens = [10, 20, 5], offsets = [0, 10, 30, 35]\<rparr>,
      c_total_length = 35, c_root = None, c_inclusion_proof = None\<rparr> 1 25 (replicate 20 7)
   = Err (LengthMismatch 25 20)"
proof -
  let ?r = "\<lparr>r_index = 1, r_offset = 10, r_length = 25, chunk_start = 1, chunk_end = 3\<rparr> :: range"
  let ?C = "\<lparr>c_layout = \<lparr>chunk_lens = [10, 20, 5], offsets = [0, 10, 30, 35]\<rparr>,
      c_total_length = 35, c_root = None, c_inclusion_proof = None\<rparr> :: resource_commitment"
  have r: "?r \<in> set (plan_ranges (c_layout ?C) 25)" by (simp add: example_plan)
  have bs: "vec_ok (replicate 20 (7::u8))" by simp
  show ?thesis
    using verify_planned_range[OF example_commitment r bs]
    by (simp add: example_host_def len64_def)
qed

text \<open>
  The whole-resource check accepts a resource exactly when it has the committed length and
  the injected proof check accepts its digest under the committed root and inclusion proof.
\<close>

theorem verify_resource_iff:
  "merkle_verify_resource HO PV C full = Ok () \<longleftrightarrow>
     len64 full = c_total_length C \<and> PV (h_digest HO full) (c_inclusion_proof C) (c_root C)"
  by (auto simp: merkle_verify_resource_def merkle_verify_resource_leaf_def merkle_resource_leaf_def)

text \<open>
  The debug assertion after the alignment check of a range (\<open>cs == start\<close>) does not hold
  for every layout a peer may declare: with a zero-length chunk before the range's first
  chunk, the boundary search finds the earlier chunk, although the range is accepted.
\<close>

theorem zero_length_chunk_moves_start:
  "\<exists>C r. from_first_frame_bounded example_host 10 [5, 0, 5] None None 100 = Ok C
     \<and> r \<in> set (plan_ranges (c_layout C) 5)
     \<and> merkle_verify_range example_host C (of_nat (chunk_start r)) (r_length r) [1, 2, 3, 4, 5] = Ok ()
     \<and> (\<exists>cs ce. chunks_for_range (c_layout C) (r_offset r) (r_length r) = Ok (cs, ce)
               \<and> cs \<noteq> chunk_start r)"
proof -
  let ?L = "\<lparr>chunk_lens = [5, 0, 5], offsets = [0, 5, 5, 10]\<rparr> :: chunk_layout"
  let ?C = "\<lparr>c_layout = ?L, c_total_length = 10, c_root = None, c_inclusion_proof = None\<rparr>"
  let ?r = "\<lparr>r_index = 1, r_offset = 5, r_length = 5, chunk_start = 2, chunk_end = 3\<rparr> :: range"
  have C: "from_first_frame_bounded example_host 10 [5, 0, 5] None None 100 = Ok ?C"
    by (simp add: from_first_frame_bounded_def chunk_layout_try_new_def example_host_def
        checked_add_def total_length_def to_nat)
  have r: "?r \<in> set (plan_ranges ?L 5)"
    by (simp add: plan_ranges_def plan_from.simps pack_chunks.simps chunk_count_def len_or_0_def
        chunk_len_def chunk_offset_def get_opt_def saturating_add_def max_def to_nat)
  have v: "merkle_verify_range example_host ?C 2 5 [1, 2, 3, 4, 5] = Ok ()"
    by (simp add: merkle_verify_range_def len64_def try_usize_def example_host_def chunk_count_def
        chunk_offset_def get_opt_def chunks_for_range_def saturating_add_def)
  have "chunks_for_range ?L 5 5 = Ok (1, 3)"
    by (simp add: chunks_for_range_def saturating_add_def)
  with C r v show ?thesis by (intro exI[of _ ?C] exI[of _ ?r]) simp
qed

end
