(* ===== verification/Filesystem.thy ===== *)
theory Filesystem
  imports Errors "HOL-Library.AList"
begin

text \<open>
  The part of \<^verbatim>\<open>std::fs\<close> the repository uses: a directory of names that point to files, so
  that an open handle keeps its file when the name moves, and an oracle that may fail any
  call with a message (and, for a write, after part of the bytes). Each call advances the
  oracle's clock, so two calls of the same kind may end differently.

  A path is its parent directory and its file name. Text from the operating system is a list
  of numbers like every other text; a number that is no Unicode scalar value stands for a
  part that is not valid Unicode, which \<open>to_str\<close> refuses and \<open>to_string_lossy\<close> replaces.
\<close>

datatype path = Path (parent: rstring) (file_name: rstring)

datatype fs_op = CreateDir | Open | Seek | Write | Read | Stat | SetLen | Sync | Rename | Remove | ReadDir

record inode =
  data :: bytes
  mtime :: nat

record fs =
  names :: "(path \<times> nat) list"
  inodes :: "nat \<Rightarrow> inode"
  fresh :: nat
  wall :: nat
  clock :: nat
  fault :: "nat \<Rightarrow> fs_op \<Rightarrow> (rstring \<times> nat) option"

datatype io_error = NotFoundError | OtherError rstring

definition io_text :: "io_error \<Rightarrow> rstring" where
  "io_text e = (case e of NotFoundError \<Rightarrow> lit ''No such file or directory (os error 2)'' | OtherError m \<Rightarrow> m)"

definition scalar_value :: "uchar \<Rightarrow> bool" where
  "scalar_value c \<longleftrightarrow> c < 0xD800 \<or> (0xE000 \<le> c \<and> c < 0x110000)"

definition to_str :: "rstring \<Rightarrow> rstring option" where
  "to_str s = (if list_all scalar_value s then Some s else None)"

definition to_string_lossy :: "rstring \<Rightarrow> rstring" where
  "to_string_lossy s = map (\<lambda>c. if scalar_value c then c else 0xFFFD) s"

lemma to_string_lossy_id: "list_all scalar_value s \<Longrightarrow> to_string_lossy s = s"
  by (induction s) (auto simp: to_string_lossy_def)

section \<open>Calls\<close>

definition tick :: "fs \<Rightarrow> fs" where "tick F = F\<lparr>clock := Suc (clock F)\<rparr>"

definition lookup :: "fs \<Rightarrow> path \<Rightarrow> nat option" where
  "lookup F p = map_of (names F) p"

definition fs_exists :: "path \<Rightarrow> fs \<Rightarrow> bool" where
  "fs_exists p F = (lookup F p \<noteq> None)"

definition simple_call :: "fs_op \<Rightarrow> fs \<Rightarrow> (io_error + unit) \<times> fs" where
  "simple_call kind F =
     (case fault F (clock F) kind of
        Some (e, n) \<Rightarrow> (Err (OtherError e), tick F)
      | None \<Rightarrow> (Ok (), tick F))"

definition fs_create :: "path \<Rightarrow> fs \<Rightarrow> fs" where
  "fs_create p F =
     F\<lparr>names := AList.update p (fresh F) (names F),
       inodes := (inodes F)(fresh F := \<lparr>data = [], mtime = wall F\<rparr>),
       fresh := Suc (fresh F)\<rparr>"

definition fs_open :: "bool \<Rightarrow> path \<Rightarrow> fs \<Rightarrow> (io_error + nat) \<times> fs" where
  "fs_open create p F =
     (case fault F (clock F) Open of
        Some (e, n) \<Rightarrow> (Err (OtherError e), tick F)
      | None \<Rightarrow>
          (case lookup F p of
             Some i \<Rightarrow> (Ok i, tick F)
           | None \<Rightarrow>
               if create
               then (Ok (fresh F), fs_create p (tick F))
               else (Err NotFoundError, tick F)))"

text \<open>Positioned access through a handle; a start position past \<open>i64::MAX\<close> is refused by the system.\<close>

definition fs_seek :: "u64 \<Rightarrow> fs \<Rightarrow> (io_error + unit) \<times> fs" where
  "fs_seek off F =
     (case simple_call Seek F of
        (Err e, F') \<Rightarrow> (Err e, F')
      | (Ok _, F') \<Rightarrow>
          if unat off < 2 ^ 63 then (Ok (), F')
          else (Err (OtherError (lit ''Invalid argument (os error 22)'')), F'))"

definition set_data :: "nat \<Rightarrow> bytes \<Rightarrow> fs \<Rightarrow> fs" where
  "set_data i bs F = F\<lparr>inodes := (inodes F)(i := \<lparr>data = bs, mtime = wall F\<rparr>)\<rparr>"

definition fs_write_all :: "nat \<Rightarrow> nat \<Rightarrow> bytes \<Rightarrow> fs \<Rightarrow> (io_error + unit) \<times> fs" where
  "fs_write_all i pos bs F =
     (case fault F (clock F) Write of
        Some (e, n) \<Rightarrow>
          (Err (OtherError e),
           if take n bs = [] then tick F
           else set_data i (place pos (take n bs) (data (inodes F i))) (tick F))
      | None \<Rightarrow>
          (Ok (), if bs = [] then tick F
                  else set_data i (place pos bs (data (inodes F i))) (tick F)))"

definition fs_read_exact :: "nat \<Rightarrow> nat \<Rightarrow> nat \<Rightarrow> fs \<Rightarrow> (io_error + bytes) \<times> fs" where
  "fs_read_exact i pos n F =
     (case fault F (clock F) Read of
        Some (e, k) \<Rightarrow> (Err (OtherError e), tick F)
      | None \<Rightarrow>
          if pos + n \<le> length (data (inodes F i)) \<or> n = 0
          then (Ok (slice (data (inodes F i)) pos n), tick F)
          else (Err (OtherError (lit ''failed to fill whole buffer'')), tick F))"

definition fs_set_len :: "nat \<Rightarrow> nat \<Rightarrow> fs \<Rightarrow> (io_error + unit) \<times> fs" where
  "fs_set_len i n F =
     (case simple_call SetLen F of
        (Err e, F') \<Rightarrow> (Err e, F')
      | (Ok _, F') \<Rightarrow>
          (Ok (), set_data i (take n (data (inodes F i))
                              @ replicate (n - length (data (inodes F i))) 0) F'))"

definition fs_rename :: "path \<Rightarrow> path \<Rightarrow> fs \<Rightarrow> (io_error + unit) \<times> fs" where
  "fs_rename p q F =
     (case simple_call Rename F of
        (Err e, F') \<Rightarrow> (Err e, F')
      | (Ok _, F') \<Rightarrow>
          (case lookup F' p of
             None \<Rightarrow> (Err NotFoundError, F')
           | Some i \<Rightarrow> (Ok (), F'\<lparr>names := AList.update q i (AList.delete p (names F'))\<rparr>)))"

definition fs_remove :: "path \<Rightarrow> fs \<Rightarrow> (io_error + unit) \<times> fs" where
  "fs_remove p F =
     (case simple_call Remove F of
        (Err e, F') \<Rightarrow> (Err e, F')
      | (Ok _, F') \<Rightarrow>
          (case lookup F' p of
             None \<Rightarrow> (Err NotFoundError, F')
           | Some i \<Rightarrow> (Ok (), F'\<lparr>names := AList.delete p (names F')\<rparr>)))"

text \<open>\<open>std::fs::read\<close> and \<open>std::fs::write\<close> of a whole file.\<close>

definition fs_read_file :: "path \<Rightarrow> fs \<Rightarrow> (io_error + bytes) \<times> fs" where
  "fs_read_file p F =
     (case simple_call Read F of
        (Err e, F') \<Rightarrow> (Err e, F')
      | (Ok _, F') \<Rightarrow>
          (case lookup F' p of
             None \<Rightarrow> (Err NotFoundError, F')
           | Some i \<Rightarrow> (Ok (data (inodes F' i)), F')))"

definition fs_write_file :: "path \<Rightarrow> bytes \<Rightarrow> fs \<Rightarrow> (io_error + unit) \<times> fs" where
  "fs_write_file p bs F =
     (case fs_open True p F of
        (Err e, F') \<Rightarrow> (Err e, F')
      | (Ok i, F') \<Rightarrow>
          (case fault F' (clock F') Write of
             Some (e, n) \<Rightarrow> (Err (OtherError e), set_data i (take n bs) (tick F'))
           | None \<Rightarrow> (Ok (), set_data i bs (tick F'))))"

section \<open>Well-formed file systems\<close>

text \<open>No two names share a file, and every named file has been allocated.\<close>

definition fs_ok :: "fs \<Rightarrow> bool" where
  "fs_ok F \<longleftrightarrow>
     (\<forall>p i. lookup F p = Some i \<longrightarrow> i < fresh F)
     \<and> (\<forall>p q i. lookup F p = Some i \<longrightarrow> lookup F q = Some i \<longrightarrow> p = q)"

text \<open>The bytes a path names.\<close>

definition content :: "fs \<Rightarrow> path \<Rightarrow> bytes option" where
  "content F p = map_option (\<lambda>i. data (inodes F i)) (lookup F p)"

lemma lookup_simps [simp]:
  "lookup (tick F) p = lookup F p" "lookup (set_data i bs F) p = lookup F p"
  "lookup (G\<lparr>names := AList.update q j (names F)\<rparr>) p = (if p = q then Some j else lookup F p)"
  "lookup (G\<lparr>names := AList.delete q (names F)\<rparr>) p = (if p = q then None else lookup F p)"
  "lookup (F\<lparr>inodes := X\<rparr>) p = lookup F p" "lookup (F\<lparr>fresh := n\<rparr>) p = lookup F p"
  by (simp_all add: lookup_def tick_def set_data_def update_conv' delete_conv')

lemma fs_field_simps [simp]:
  "inodes (tick F) = inodes F" "fresh (tick F) = fresh F" "names (tick F) = names F"
  "fault (tick F) = fault F" "wall (tick F) = wall F"
  "fresh (set_data i bs F) = fresh F" "names (set_data i bs F) = names F"
  "data (inodes (set_data i bs F) j) = (if i = j then bs else data (inodes F j))"
  by (simp_all add: tick_def set_data_def)

lemma fs_ok_tick [simp]: "fs_ok (tick F) = fs_ok F" and fs_ok_set_data [simp]: "fs_ok (set_data i bs F) = fs_ok F"
  by (simp_all add: fs_ok_def)

lemma fs_ok_delete: "fs_ok F \<Longrightarrow> fs_ok (F\<lparr>names := AList.delete p (names F)\<rparr>)"
  by (auto simp: fs_ok_def split: if_splits)

lemma content_tick [simp]: "content (tick F) p = content F p"
  by (simp add: content_def)

lemma simple_call_state: "simple_call k F = (r, F') \<Longrightarrow> F' = tick F"
  by (auto simp: simple_call_def split: option.splits)

lemma simple_call_simps [simp]: "snd (simple_call k F) = tick F"
  by (simp add: simple_call_def split: option.splits)

lemma content_set_data:
  assumes "fs_ok F" and "lookup F p = Some i"
  shows "content (set_data i bs F) q = (if q = p then Some bs else content F q)"
  using assms by (auto simp: content_def fs_ok_def map_option_case split: option.splits)

lemma lookup_create [simp]: "lookup (fs_create p F) q = (if q = p then Some (fresh F) else lookup F q)"
  by (simp add: fs_create_def)

lemma fs_ok_fresh: "fs_ok F \<Longrightarrow> lookup F q \<noteq> Some (fresh F)"
  unfolding fs_ok_def by blast

lemma fs_ok_create:
  assumes ok: "fs_ok F"
  shows "fs_ok (fs_create p F)"
proof -
  have "fresh (fs_create p F) = Suc (fresh F)" by (simp add: fs_create_def)
  then show ?thesis
    using ok fs_ok_fresh[OF ok] unfolding fs_ok_def lookup_create
    by (metis less_Suc_eq option.inject)
qed

lemma content_create:
  "fs_ok F \<Longrightarrow> content (fs_create p F) q = (if q = p then Some [] else content F q)"
  using fs_ok_fresh[of F q]
  by (auto simp: content_def fs_create_def map_option_case split: option.splits)

lemma fs_open_cases:
  assumes "fs_open create p F = (r, F')"
  obtains e where "r = Err e" "F' = tick F"
  | i where "r = Ok i" "F' = tick F" "lookup F p = Some i"
  | "r = Ok (fresh F)" "F' = fs_create p (tick F)" "lookup F p = None" "create"
  using assms by (auto simp: fs_open_def split: option.splits if_splits)

lemma fs_rename_spec:
  assumes "fs_rename p q F = (r, F')"
  shows "r = Ok u \<Longrightarrow> content F' q = content F p \<and> content F p \<noteq> None \<and> (p \<noteq> q \<longrightarrow> content F' p = None)"
    and "r = Err e \<Longrightarrow> content F' = content F"
  using assms
  by (auto simp: fs_rename_def simple_call_def content_def fun_eq_iff lookup_def update_conv' delete_conv' tick_def
      split: option.splits)

lemma fs_write_file_spec:
  assumes ok: "fs_ok F" and w: "fs_write_file p bs F = (r, F')"
  shows "fs_ok F' \<and> (\<forall>q. q \<noteq> p \<longrightarrow> content F' q = content F q) \<and> (is_ok r \<longrightarrow> content F' p = Some bs)"
proof -
  obtain a G where o: "fs_open True p F = (a, G)" by fastforce
  from o have G: "fs_ok G \<and> (\<forall>q. q \<noteq> p \<longrightarrow> content G q = content F q)
      \<and> (\<forall>i. a = Ok i \<longrightarrow> lookup G p = Some i)"
    by (cases rule: fs_open_cases) (auto simp: ok fs_ok_create content_create)
  show ?thesis
  proof (cases a)
    case (Inl e)
    then show ?thesis using w o G by (auto simp: fs_write_file_def)
  next
    case (Inr i)
    then have i: "fs_ok (tick G)" "lookup (tick G) p = Some i" using G by auto
    show ?thesis using w o G Inr content_set_data[OF i]
      by (auto simp: fs_write_file_def split: option.splits)
  qed
qed

lemma fs_remove_spec:
  assumes ok: "fs_ok F" and w: "fs_remove p F = (r, F')"
  shows "fs_ok F' \<and> (\<forall>q. q \<noteq> p \<longrightarrow> content F' q = content F q)
    \<and> content F' p = (if is_ok r then None else content F p) \<and> (r = Err NotFoundError \<longrightarrow> content F p = None)"
  using w ok fs_ok_delete[of "tick F" p]
  by (auto simp: fs_remove_def simple_call_def content_def map_option_case split: option.splits if_splits)

lemma fs_read_file_spec:
  assumes "fs_read_file p F = (r, F')"
  shows "F' = tick F \<and> (\<forall>bs. r = Ok bs \<longrightarrow> content F p = Some bs) \<and> (r = Err NotFoundError \<longrightarrow> content F p = None)"
  using assms by (auto simp: fs_read_file_def simple_call_def content_def split: option.splits)

end
