(* ===== verification/Sink.thy ===== *)
theory Sink
  imports Filesystem
begin

text \<open>
  The store-write path (\<^verbatim>\<open>src/src/sink.rs\<close>): the sink's operations as a record of functions
  over the sink's own state, the in-memory and the file-backed sink, and the one promotion
  path \<open>promote_verified\<close>.

  The interface \<open>observable_sink\<close> says what a sink owes its callers: a write places bytes, a
  read never invents any, a truncation shortens, and finalizing publishes the staged bytes.
  Both sinks of the repository are interpretations of it, and the promotion theorem is
  proved once, inside it. The file sink's obligations hold for every fault the file system
  may inject.
\<close>

section \<open>The sink operations\<close>

record 's sink_ops =
  sk_write_at :: "u64 \<Rightarrow> bytes \<Rightarrow> 's \<Rightarrow> (download_error + unit) \<times> 's"
  sk_finalize :: "'s \<Rightarrow> (download_error + unit) \<times> 's"
  sk_truncate :: "u64 \<Rightarrow> 's \<Rightarrow> (download_error + unit) \<times> 's"
  sk_supports_read_back :: bool
  sk_read_at :: "u64 \<Rightarrow> u64 \<Rightarrow> 's \<Rightarrow> (download_error + bytes) \<times> 's"
  sk_staging_path :: "'s \<Rightarrow> path option"

text \<open>The trait's default methods: an implementation supplies only the write.\<close>

definition default_sink :: "(u64 \<Rightarrow> bytes \<Rightarrow> 's \<Rightarrow> (download_error + unit) \<times> 's) \<Rightarrow> 's sink_ops" where
  "default_sink w =
     \<lparr>sk_write_at = w,
      sk_finalize = (\<lambda>s. (Ok (), s)),
      sk_truncate = (\<lambda>n s. (Err (SinkError (lit ''truncation unsupported by this sink'')), s)),
      sk_supports_read_back = False,
      sk_read_at = (\<lambda>off n s. (Err (SinkError (lit ''read-back unsupported by this sink'')), s)),
      sk_staging_path = (\<lambda>s. None)\<rparr>"

definition span_too_large :: "u64 \<Rightarrow> u64 \<Rightarrow> download_error" where
  "span_too_large off n =
     SinkError (lit ''read-back span ['' @ dec64 off @ lit '', +'' @ dec64 n
                @ lit '') does not fit this platform's address space'')"

definition read_back_bounds :: "host \<Rightarrow> u64 \<Rightarrow> u64 \<Rightarrow> download_error + (nat \<times> nat)" where
  "read_back_bounds H off n =
     (case checked_add off n of
        None \<Rightarrow> Err (span_too_large off n)
      | Some e \<Rightarrow>
          (case try_usize H off of
             None \<Rightarrow> Err (span_too_large off n)
           | Some start \<Rightarrow>
               (case try_usize H e of
                  None \<Rightarrow> Err (span_too_large off n)
                | Some stop \<Rightarrow> Ok (start, stop))))"

definition try_zeroed_read_buffer :: "host \<Rightarrow> u64 \<Rightarrow> download_error + nat" where
  "try_zeroed_read_buffer H n =
     (case try_usize H n of
        None \<Rightarrow> Err (span_too_large 0 n)
      | Some k \<Rightarrow>
          (case reserve_refusal H k of
             Some e \<Rightarrow> Err (SinkError (lit ''cannot allocate a '' @ dec k
                                      @ lit ''-byte read-back buffer: '' @ e))
           | None \<Rightarrow> Ok k))"

section \<open>Promotion\<close>

definition promote_verified :: "'s sink_ops \<Rightarrow> u64 \<Rightarrow> 's \<Rightarrow> (download_error + unit) \<times> 's" where
  "promote_verified SK n s =
     (case sk_truncate SK n s of
        (Err e, s1) \<Rightarrow> (Err e, s1)
      | (Ok _, s1) \<Rightarrow>
          if \<not> sk_supports_read_back SK
          then (Err (Verify (Metadata
                 (lit ''this sink cannot read back its staging area, so a promotion of ''
                  @ dec64 n @ lit '' verified byte(s) cannot be proven to be the verified artifact; ''
                  @ lit ''refusing to promote''))), s1)
          else
            (let (short, s2) = (if 0 < n
                                then (case sk_read_at SK (n - 1) 1 s1 of (r, s2) \<Rightarrow> (\<not> is_ok r, s2))
                                else (False, s1))
             in if short
                then (Err (Verify (Metadata
                       (lit ''staging area is SHORTER than the verified length '' @ dec64 n
                        @ lit ''; refusing to promote a partial artifact as the verified one''))), s2)
                else
                  (case sk_read_at SK n 1 s2 of
                     (Ok _, s3) \<Rightarrow>
                       (Err (Verify (Metadata
                          (lit ''staging area holds bytes past the verified length '' @ dec64 n
                           @ lit ''; refusing to promote an artifact that is not the verified one''))), s3)
                   | (Err _, s3) \<Rightarrow> sk_finalize SK s3)))"

section \<open>The in-memory sink\<close>

record mem_sink =
  buf :: bytes
  finalized :: bool

definition mem_sink_new :: mem_sink where
  "mem_sink_new = \<lparr>buf = [], finalized = False\<rparr>"

definition mem_write_at :: "host \<Rightarrow> u64 \<Rightarrow> bytes \<Rightarrow> mem_sink \<Rightarrow> (download_error + unit) \<times> mem_sink" where
  "mem_write_at H off bs m =
     (case read_back_bounds H off (len64 bs) of
        Err e \<Rightarrow> (Err e, m)
      | Ok (start, stop) \<Rightarrow> (Ok (), m\<lparr>buf := place start bs (buf m)\<rparr>))"

definition mem_finalize :: "mem_sink \<Rightarrow> (download_error + unit) \<times> mem_sink" where
  "mem_finalize m = (Ok (), m\<lparr>finalized := True\<rparr>)"

definition mem_truncate :: "host \<Rightarrow> u64 \<Rightarrow> mem_sink \<Rightarrow> (download_error + unit) \<times> mem_sink" where
  "mem_truncate H n m =
     (case try_usize H n of
        None \<Rightarrow> (Ok (), m)
      | Some k \<Rightarrow> (Ok (), if k < length (buf m) then m\<lparr>buf := take k (buf m)\<rparr> else m))"

definition mem_read_at :: "host \<Rightarrow> u64 \<Rightarrow> u64 \<Rightarrow> mem_sink \<Rightarrow> (download_error + bytes) \<times> mem_sink" where
  "mem_read_at H off n m =
     (case read_back_bounds H off n of
        Err e \<Rightarrow> (Err e, m)
      | Ok (start, stop) \<Rightarrow>
          if length (buf m) < stop
          then (Err (SinkError (lit ''read-back past staged end: want ['' @ dec start @ lit '', ''
                                @ dec stop @ lit ''), have '' @ dec (length (buf m)))), m)
          else (Ok (slice (buf m) start (stop - start)), m))"

definition in_memory_sink :: "host \<Rightarrow> mem_sink sink_ops" where
  "in_memory_sink H =
     (default_sink (mem_write_at H))
       \<lparr>sk_finalize := mem_finalize, sk_truncate := mem_truncate H,
        sk_supports_read_back := True, sk_read_at := mem_read_at H\<rparr>"

section \<open>The file sink\<close>

definition tmp_suffix :: rstring where "tmp_suffix = lit ''.download.tmp''"
definition state_suffix :: rstring where "state_suffix = lit ''.download.tmp.state''"

definition staging_path_for :: "path \<Rightarrow> path" where
  "staging_path_for p = Path (parent p) (file_name p @ tmp_suffix)"

text \<open>The sink's paths and its lazily opened handle, beside the file system it writes to.\<close>

record file_sink =
  final_path :: path
  tmp_path :: path
  handle :: "nat option"
  disk :: fs

definition file_sink_new :: "path \<Rightarrow> fs \<Rightarrow> file_sink" where
  "file_sink_new p F = \<lparr>final_path = p, tmp_path = staging_path_for p, handle = None, disk = F\<rparr>"

definition sink_err :: "io_error \<Rightarrow> download_error" where
  "sink_err e = SinkError (io_text e)"

text \<open>Open the staging file when no handle is held; only a write creates it.\<close>

definition file_attach :: "bool \<Rightarrow> file_sink \<Rightarrow> (download_error + nat) \<times> file_sink" where
  "file_attach create s =
     (case handle s of
        Some i \<Rightarrow> (Ok i, s)
      | None \<Rightarrow>
          (case (if create then simple_call CreateDir (disk s) else (Ok (), disk s)) of
             (Err e, F) \<Rightarrow> (Err (sink_err e), s\<lparr>disk := F\<rparr>)
           | (Ok _, F) \<Rightarrow>
               (case fs_open create (tmp_path s) F of
                  (Err e, F') \<Rightarrow> (Err (sink_err e), s\<lparr>disk := F'\<rparr>)
                | (Ok i, F') \<Rightarrow> (Ok i, s\<lparr>disk := F', handle := Some i\<rparr>))))"

definition file_write_at :: "u64 \<Rightarrow> bytes \<Rightarrow> file_sink \<Rightarrow> (download_error + unit) \<times> file_sink" where
  "file_write_at off bs s =
     (case file_attach True s of
        (Err e, s1) \<Rightarrow> (Err e, s1)
      | (Ok i, s1) \<Rightarrow>
          (case fs_seek off (disk s1) of
             (Err e, F) \<Rightarrow> (Err (sink_err e), s1\<lparr>disk := F\<rparr>)
           | (Ok _, F) \<Rightarrow>
               (case fs_write_all i (unat off) bs F of
                  (Err e, F') \<Rightarrow> (Err (sink_err e), s1\<lparr>disk := F'\<rparr>)
                | (Ok _, F') \<Rightarrow> (Ok (), s1\<lparr>disk := F'\<rparr>))))"

definition file_read_at :: "host \<Rightarrow> u64 \<Rightarrow> u64 \<Rightarrow> file_sink \<Rightarrow> (download_error + bytes) \<times> file_sink" where
  "file_read_at H off n s =
     (case file_attach False s of
        (Err e, s1) \<Rightarrow> (Err e, s1)
      | (Ok i, s1) \<Rightarrow>
          (case fs_seek off (disk s1) of
             (Err e, F) \<Rightarrow> (Err (sink_err e), s1\<lparr>disk := F\<rparr>)
           | (Ok _, F) \<Rightarrow>
               (case try_zeroed_read_buffer H n of
                  Err e \<Rightarrow> (Err e, s1\<lparr>disk := F\<rparr>)
                | Ok k \<Rightarrow>
                    (case fs_read_exact i (unat off) k F of
                       (Err e, F') \<Rightarrow>
                         (Err (SinkError (lit ''read-back of '' @ dec64 n @ lit '' bytes at '' @ dec64 off
                                          @ lit '' failed: '' @ io_text e)), s1\<lparr>disk := F'\<rparr>)
                     | (Ok bs, F') \<Rightarrow> (Ok bs, s1\<lparr>disk := F'\<rparr>)))))"

definition file_truncate :: "u64 \<Rightarrow> file_sink \<Rightarrow> (download_error + unit) \<times> file_sink" where
  "file_truncate n s =
     (if handle s = None \<and> \<not> fs_exists (tmp_path s) (disk s) then (Ok (), s)
      else
        (case file_attach False s of
           (Err e, s1) \<Rightarrow> (Err e, s1)
         | (Ok i, s1) \<Rightarrow>
             (case simple_call Stat (disk s1) of
                (Err e, F) \<Rightarrow> (Err (sink_err e), s1\<lparr>disk := F\<rparr>)
              | (Ok _, F) \<Rightarrow>
                  if unat n < length (data (inodes F i))
                  then (case fs_set_len i (unat n) F of
                          (Err e, F') \<Rightarrow> (Err (sink_err e), s1\<lparr>disk := F'\<rparr>)
                        | (Ok _, F') \<Rightarrow> (Ok (), s1\<lparr>disk := F'\<rparr>))
                  else (Ok (), s1\<lparr>disk := F\<rparr>))))"

definition file_finalize :: "file_sink \<Rightarrow> (download_error + unit) \<times> file_sink" where
  "file_finalize s =
     (case (if handle s = None then (Ok (), disk s) else simple_call Sync (disk s)) of
        (Err e, F) \<Rightarrow> (Err (sink_err e), s\<lparr>disk := F\<rparr>)
      | (Ok _, F) \<Rightarrow>
          (case fs_rename (tmp_path s) (final_path s) F of
             (Err e, F') \<Rightarrow> (Err (sink_err e), s\<lparr>disk := F', handle := None\<rparr>)
           | (Ok _, F') \<Rightarrow> (Ok (), s\<lparr>disk := F', handle := None\<rparr>)))"

definition file_backed_sink :: "host \<Rightarrow> file_sink sink_ops" where
  "file_backed_sink H =
     \<lparr>sk_write_at = file_write_at, sk_finalize = file_finalize, sk_truncate = file_truncate,
      sk_supports_read_back = True, sk_read_at = file_read_at H,
      sk_staging_path = (\<lambda>s. Some (tmp_path s))\<rparr>"


section \<open>The interface: what a sink owes its callers\<close>

text \<open>
  \<open>valid\<close> is the sink's own invariant, \<open>staged\<close> the bytes its staging area holds and
  \<open>artifact\<close> what a reader of the final name sees. A write of no bytes may leave the area as
  it is (a file) or extend it (a buffer), so it only promises to keep what is there.
\<close>

locale observable_sink =
  fixes SK :: "'s sink_ops" and valid :: "'s \<Rightarrow> bool"
    and staged :: "'s \<Rightarrow> bytes" and artifact :: "'s \<Rightarrow> bytes option"
  assumes write_frame: "\<lbrakk>valid s; sk_write_at SK off bs s = (r, s'); vec_ok bs\<rbrakk> \<Longrightarrow> valid s' \<and> artifact s' = artifact s"
    and write_places: "\<lbrakk>valid s; sk_write_at SK off bs s = (Ok u, s'); bs \<noteq> []; vec_ok bs\<rbrakk>
      \<Longrightarrow> staged s' = place (unat off) bs (staged s)"
    and write_nothing: "\<lbrakk>valid s; sk_write_at SK off [] s = (Ok u, s')\<rbrakk>
      \<Longrightarrow> take (length (staged s)) (staged s') = staged s"
    and read_frame: "\<lbrakk>valid s; sk_read_at SK off n s = (res, s')\<rbrakk>
      \<Longrightarrow> valid s' \<and> staged s' = staged s \<and> artifact s' = artifact s"
    and read_exact: "\<lbrakk>valid s; sk_read_at SK off n s = (Ok bs, s')\<rbrakk>
      \<Longrightarrow> bs = slice (staged s) (unat off) (unat n) \<and> length bs = unat n"
    and truncate_frame: "\<lbrakk>valid s; sk_truncate SK n s = (r, s')\<rbrakk> \<Longrightarrow> valid s' \<and> artifact s' = artifact s"
    and truncate_exact: "\<lbrakk>valid s; sk_truncate SK n s = (Ok u, s')\<rbrakk> \<Longrightarrow> staged s' = take (unat n) (staged s)"
    and finalize_publishes: "\<lbrakk>valid s; sk_finalize SK s = (Ok u, s')\<rbrakk> \<Longrightarrow> artifact s' = Some (staged s)"
    and finalize_fails: "\<lbrakk>valid s; sk_finalize SK s = (Err e, s')\<rbrakk> \<Longrightarrow> valid s' \<and> artifact s' = artifact s"
begin

text \<open>A promotion publishes exactly the verified prefix of the staged bytes, or nothing.\<close>

lemma promote_ok:
  assumes v: "valid s" and p: "promote_verified SK n s = (Ok u, s')"
  shows "unat n \<le> length (staged s)" "artifact s' = Some (take (unat n) (staged s))"
proof -
  obtain s1 where t: "sk_truncate SK n s = (Ok (), s1)"
    using p by (auto simp: promote_verified_def split: prod.splits sum.splits)
  note v1 = truncate_frame[OF v t] and e1 = truncate_exact[OF v t]
  obtain s2 where r: "n = 0 \<and> s2 = s1 \<or> (\<exists>bs. sk_read_at SK (n - 1) 1 s1 = (Ok bs, s2))"
    and p2: "\<exists>e s3. sk_read_at SK n 1 s2 = (Err e, s3) \<and> sk_finalize SK s3 = (Ok u, s')"
    using p t
    by (auto simp: promote_verified_def is_ok_def Let_def word_gt_0 split: prod.splits sum.splits if_splits)
  have v2: "valid s2 \<and> staged s2 = staged s1" using r v1 read_frame by blast
  obtain e s3 where rn: "sk_read_at SK n 1 s2 = (Err e, s3)" and f: "sk_finalize SK s3 = (Ok u, s')"
    using p2 by blast
  have v3: "valid s3 \<and> staged s3 = staged s1" using read_frame[OF _ rn] v2 by simp
  then show "artifact s' = Some (take (unat n) (staged s))"
    using finalize_publishes[OF _ f] e1 by simp
  show "unat n \<le> length (staged s)"
  proof (cases "n = 0")
    case False
    then obtain bs where "sk_read_at SK (n - 1) 1 s1 = (Ok bs, s2)" using r by blast
    then have "length (slice (staged s1) (unat (n - 1)) 1) = 1"
      using read_exact[of s1 "n - 1" 1 bs s2] v1 by (metis unsigned_1)
    moreover have "unat (n - 1) = unat n - 1" using False by (rule unat_minus_one)
    moreover have "0 < unat n" using False by (simp add: unat_gt_0)
    ultimately show ?thesis using e1 by (simp add: min_def split: if_splits)
  qed simp
qed

lemma promote_err:
  assumes v: "valid s" and p: "promote_verified SK n s = (Err e, s')"
  shows "valid s' \<and> artifact s' = artifact s"
proof -
  obtain r1 s1 where t: "sk_truncate SK n s = (r1, s1)" by (cases "sk_truncate SK n s")
  note v1 = truncate_frame[OF v t]
  obtain r2 s2 where a: "sk_read_at SK (n - 1) 1 s1 = (r2, s2)" by (cases "sk_read_at SK (n - 1) 1 s1")
  note v2 = read_frame[OF conjunct1[OF v1] a]
  define s0 where "s0 = (if 0 < n then s2 else s1)"
  have v0: "valid s0" "artifact s0 = artifact s" using v1 v2 by (auto simp: s0_def)
  obtain r3 s3 where b: "sk_read_at SK n 1 s0 = (r3, s3)" by (cases "sk_read_at SK n 1 s0")
  note v3 = read_frame[OF v0(1) b]
  have "s' = s1 \<or> s' = s0 \<or> s' = s3 \<or> sk_finalize SK s3 = (Err e, s')"
  proof (cases r1)
    case (Inl x)
    then show ?thesis using p t by (simp add: promote_verified_def)
  next
    case (Inr x)
    show ?thesis
    proof (cases "0 < n")
      case True
      then show ?thesis using p t a b Inr unfolding s0_def
        by (cases r2; cases r3) (simp_all add: promote_verified_def split: if_splits)
    next
      case False
      then show ?thesis using p t b Inr unfolding s0_def
        by (cases r3) (simp_all add: promote_verified_def split: if_splits)
    qed
  qed
  then show ?thesis using v0 v1 v3 finalize_fails by metis
qed

text \<open>A later read of a written range returns the bytes written, and other ranges keep theirs.\<close>

lemma read_after_write:
  assumes v: "valid s" and w: "sk_write_at SK off bs s = (Ok u, s')" and bs: "bs \<noteq> []" "vec_ok bs"
    and r: "sk_read_at SK q n s' = (Ok rs, s'')"
  shows "q = off \<Longrightarrow> unat n = length bs \<Longrightarrow> rs = bs"
    and "unat q + unat n \<le> length (staged s) \<Longrightarrow> unat q + unat n \<le> unat off \<or> unat off + length bs \<le> unat q
         \<Longrightarrow> rs = slice (staged s) (unat q) (unat n)"
proof -
  have s': "valid s'" "staged s' = place (unat off) bs (staged s)"
    using write_frame[OF v w bs(2)] write_places[OF v w bs] by auto
  have rs: "rs = slice (place (unat off) bs (staged s)) (unat q) (unat n)"
    using read_exact[OF s'(1) r] s'(2) by simp
  show "q = off \<Longrightarrow> unat n = length bs \<Longrightarrow> rs = bs"
    using rs by (simp add: slice_place_same)
  show "unat q + unat n \<le> length (staged s) \<Longrightarrow> unat q + unat n \<le> unat off \<or> unat off + length bs \<le> unat q
         \<Longrightarrow> rs = slice (staged s) (unat q) (unat n)"
    using rs by (simp add: slice_place_other)
qed

end

section \<open>The in-memory sink is observable\<close>

definition mem_valid :: "host \<Rightarrow> mem_sink \<Rightarrow> bool" where
  "mem_valid H m \<longleftrightarrow> \<not> finalized m \<and> length (buf m) \<le> usize_max H"

definition mem_artifact :: "mem_sink \<Rightarrow> bytes option" where
  "mem_artifact m = (if finalized m then Some (buf m) else None)"

lemma read_back_bounds_Ok_iff:
  "read_back_bounds H off n = Ok (a, b)
   \<longleftrightarrow> a = unat off \<and> b = unat off + unat n \<and> b < 2 ^ 64 \<and> b \<le> usize_max H"
proof (cases "checked_add off n")
  case None
  then show ?thesis
    unfolding read_back_bounds_def using checked_add_None_iff[of off n] by auto
next
  case (Some e)
  then show ?thesis
    using checked_add_SomeD[OF Some] by (auto simp: read_back_bounds_def try_usize_def)
qed

lemma read_back_bounds_Err_iff:
  "(\<exists>e. read_back_bounds H off n = Err e)
   \<longleftrightarrow> \<not> (unat off + unat n < 2 ^ 64 \<and> unat off + unat n \<le> usize_max H)"
  using read_back_bounds_Ok_iff[of H off n "unat off" "unat off + unat n"]
    read_back_bounds_Ok_iff[of H off n]
  by (cases "read_back_bounds H off n") auto

lemmas mem_sink_defs = in_memory_sink_def default_sink_def mem_write_at_def mem_finalize_def
  mem_truncate_def mem_read_at_def mem_valid_def mem_artifact_def

lemma place_Nil: "take (length xs) (place n [] xs) = xs"
  by (simp add: place_def Let_def)

interpretation mem: observable_sink "in_memory_sink H" "mem_valid H" buf mem_artifact for H
  by unfold_locales
    (auto simp: mem_sink_defs place_Nil read_back_bounds_Ok_iff unat_len64 slice_def try_usize_def
      split: sum.splits if_splits option.splits)

section \<open>The file sink is observable, whatever the file system's faults\<close>

definition file_valid :: "file_sink \<Rightarrow> bool" where
  "file_valid s \<longleftrightarrow>
     fs_ok (disk s) \<and> tmp_path s = staging_path_for (final_path s)
     \<and> (\<forall>i. handle s = Some i \<longrightarrow> lookup (disk s) (tmp_path s) = Some i)"

definition file_staged :: "file_sink \<Rightarrow> bytes" where
  "file_staged s = (case content (disk s) (tmp_path s) of Some bs \<Rightarrow> bs | None \<Rightarrow> [])"

definition file_artifact :: "file_sink \<Rightarrow> bytes option" where
  "file_artifact s = content (disk s) (final_path s)"

lemmas file_views = file_valid_def file_staged_def file_artifact_def

lemma staging_path_neq [simp]: "staging_path_for p \<noteq> p" "p \<noteq> staging_path_for p"
  by (cases p; simp add: staging_path_for_def tmp_suffix_def lit_def)+

lemma file_ticks [simp]:
  "file_valid (s\<lparr>disk := tick F\<rparr>) = file_valid (s\<lparr>disk := F\<rparr>)"
  "file_staged (s\<lparr>disk := tick F\<rparr>) = file_staged (s\<lparr>disk := F\<rparr>)"
  "file_artifact (s\<lparr>disk := tick F\<rparr>) = file_artifact (s\<lparr>disk := F\<rparr>)"
  "s\<lparr>disk := disk s\<rparr> = s"
  by (simp_all add: file_views)

lemma file_attach_frame:
  assumes v: "file_valid s" and a: "file_attach create s = (r, s')"
  shows "file_valid s' \<and> file_staged s' = file_staged s \<and> file_artifact s' = file_artifact s
    \<and> tmp_path s' = tmp_path s \<and> final_path s' = final_path s
    \<and> (\<forall>i. r = Ok i \<longrightarrow> handle s' = Some i \<and> lookup (disk s') (tmp_path s') = Some i
                        \<and> file_staged s' = data (inodes (disk s') i))"
proof (cases "handle s")
  case (Some i)
  then show ?thesis using v a by (auto simp: file_attach_def file_views content_def)
next
  case None
  obtain q F where d: "(if create then simple_call CreateDir (disk s) else (Ok (), disk s)) = (q, F)"
    by fastforce
  then have F: "F = disk s \<or> F = tick (disk s)"
    by (metis prod.inject simple_call_state)
  then have same: "fs_ok F" "content F = content (disk s)" "lookup F = lookup (disk s)" "inodes F = inodes (disk s)"
    using v by (auto simp: file_valid_def fun_eq_iff)
  show ?thesis
  proof (cases q)
    case (Inl e)
    then show ?thesis using a None d same v by (auto simp: file_attach_def file_views)
  next
    case (Inr u)
    obtain r' F' where o: "fs_open create (tmp_path s) F = (r', F')" by fastforce
    have rs: "(r, s') = (case r' of Err e \<Rightarrow> (Err (sink_err e), s\<lparr>disk := F'\<rparr>)
                                  | Ok i \<Rightarrow> (Ok i, s\<lparr>disk := F', handle := Some i\<rparr>))"
      using a None d Inr o by (simp add: file_attach_def split: sum.splits)
    from o show ?thesis
    proof (cases rule: fs_open_cases)
      case (1 e)
      then show ?thesis using rs same v None by (simp add: file_views)
    next
      case (2 i)
      then show ?thesis using rs same v None by (simp add: file_views content_def)
    next
      case 3
      then show ?thesis using rs same v None
        by (simp add: file_views fs_ok_create content_create)
          (simp add: content_def fs_create_def)
    qed
  qed
qed

text \<open>Replacing the bytes of the attached handle changes the staged bytes and nothing else.\<close>

lemma file_set_data:
  assumes "file_valid s" "lookup (disk s) (tmp_path s) = Some i"
  shows "file_valid (s\<lparr>disk := set_data i bs (disk s)\<rparr>)"
    "file_staged (s\<lparr>disk := set_data i bs (disk s)\<rparr>) = bs"
    "file_artifact (s\<lparr>disk := set_data i bs (disk s)\<rparr>) = file_artifact s"
  using assms by (auto simp: file_views content_set_data[where p = "tmp_path s"])

lemma file_update:
  assumes v: "file_valid s" "lookup (disk s) (tmp_path s) = Some i"
    and G: "G = disk s \<or> G = tick (disk s) \<or> G = tick (tick (disk s))"
  shows "file_valid (s\<lparr>disk := G\<rparr>) \<and> file_staged (s\<lparr>disk := G\<rparr>) = data (inodes (disk s) i)
    \<and> file_artifact (s\<lparr>disk := G\<rparr>) = file_artifact s"
    and "file_valid (s\<lparr>disk := set_data i bs G\<rparr>) \<and> file_staged (s\<lparr>disk := set_data i bs G\<rparr>) = bs
    \<and> file_artifact (s\<lparr>disk := set_data i bs G\<rparr>) = file_artifact s"
proof -
  show "file_valid (s\<lparr>disk := G\<rparr>) \<and> file_staged (s\<lparr>disk := G\<rparr>) = data (inodes (disk s) i)
    \<and> file_artifact (s\<lparr>disk := G\<rparr>) = file_artifact s"
    using v G by (auto simp: file_views content_def)
  have ok: "fs_ok G" "lookup G (tmp_path s) = Some i" "content G = content (disk s)"
    using v G by (auto simp: file_valid_def fun_eq_iff)
  show "file_valid (s\<lparr>disk := set_data i bs G\<rparr>) \<and> file_staged (s\<lparr>disk := set_data i bs G\<rparr>) = bs
    \<and> file_artifact (s\<lparr>disk := set_data i bs G\<rparr>) = file_artifact s"
    using v ok content_set_data[OF ok(1,2)] by (auto simp: file_views)
qed

lemma file_write_spec:
  assumes v: "file_valid s" and w: "file_write_at off bs s = (r, s')"
  shows "file_valid s' \<and> file_artifact s' = file_artifact s
    \<and> (r = Ok u \<longrightarrow> file_staged s' = (if bs = [] then file_staged s else place (unat off) bs (file_staged s)))"
proof -
  obtain a s1 where a: "file_attach True s = (a, s1)" by fastforce
  note f = file_attach_frame[OF v a]
  show ?thesis
  proof (cases a)
    case (Inl e)
    then show ?thesis using w a f by (auto simp: file_write_at_def)
  next
    case (Inr i)
    have i: "file_valid s1" "lookup (disk s1) (tmp_path s1) = Some i" using f Inr by auto
    show ?thesis
      using w a f Inr file_update[OF i]
      by (auto simp: file_write_at_def fs_seek_def simple_call_def fs_write_all_def
          split: option.splits if_splits)
  qed
qed

lemma file_read_spec:
  assumes v: "file_valid s" and w: "file_read_at H off n s = (r, s')"
  shows "file_valid s' \<and> file_staged s' = file_staged s \<and> file_artifact s' = file_artifact s
    \<and> (r = Ok bs \<longrightarrow> bs = slice (file_staged s) (unat off) (unat n) \<and> length bs = unat n)"
proof -
  obtain a s1 where a: "file_attach False s = (a, s1)" by fastforce
  note f = file_attach_frame[OF v a]
  show ?thesis
  proof (cases a)
    case (Inl e)
    then show ?thesis using w a f by (auto simp: file_read_at_def)
  next
    case (Inr i)
    have i: "file_valid s1" "lookup (disk s1) (tmp_path s1) = Some i" using f Inr by auto
    have w': "(case fs_seek off (disk s1) of
             (Err e, F) \<Rightarrow> (Err (sink_err e), s1\<lparr>disk := F\<rparr>)
           | (Ok _, F) \<Rightarrow>
               (case try_zeroed_read_buffer H n of
                  Err e \<Rightarrow> (Err e, s1\<lparr>disk := F\<rparr>)
                | Ok k \<Rightarrow>
                    (case fs_read_exact i (unat off) k F of
                       (Err e, F') \<Rightarrow>
                         (Err (SinkError (lit ''read-back of '' @ dec64 n @ lit '' bytes at '' @ dec64 off
                                          @ lit '' failed: '' @ io_text e)), s1\<lparr>disk := F'\<rparr>)
                     | (Ok bs, F') \<Rightarrow> (Ok bs, s1\<lparr>disk := F'\<rparr>)))) = (r, s')"
      using w a Inr by (simp add: file_read_at_def)
    obtain q F where sk: "fs_seek off (disk s1) = (q, F)" by fastforce
    then have F: "F = tick (disk s1)"
      by (auto simp: fs_seek_def simple_call_def split: option.splits if_splits)
    obtain x G where rd: "fs_read_exact i (unat off) (unat n) F = (x, G)" by fastforce
    then have G: "G = tick F" and x: "x = Ok bs \<Longrightarrow> bs = slice (data (inodes (disk s1) i)) (unat off) (unat n)
        \<and> length bs = unat n" for bs
      using F by (auto simp: fs_read_exact_def slice_def split: option.splits if_splits)
    have "(s' = s1\<lparr>disk := F\<rparr> \<or> s' = s1\<lparr>disk := G\<rparr>)
      \<and> (r = Ok bs \<longrightarrow> bs = slice (data (inodes (disk s1) i)) (unat off) (unat n) \<and> length bs = unat n)"
      using w' sk rd x
      by (cases q; cases "try_zeroed_read_buffer H n"; cases x)
        (auto simp: try_zeroed_read_buffer_def try_usize_def split: option.splits if_splits)
    moreover have "file_valid (s1\<lparr>disk := H'\<rparr>) \<and> file_staged (s1\<lparr>disk := H'\<rparr>) = data (inodes (disk s1) i)
        \<and> file_artifact (s1\<lparr>disk := H'\<rparr>) = file_artifact s1" if "H' = F \<or> H' = G" for H'
      using file_update(1)[OF i] that F G by blast
    ultimately show ?thesis using f Inr by fastforce
  qed
qed

lemma file_truncate_spec:
  assumes v: "file_valid s" and w: "file_truncate n s = (r, s')"
  shows "file_valid s' \<and> file_artifact s' = file_artifact s
    \<and> (r = Ok u \<longrightarrow> file_staged s' = take (unat n) (file_staged s))"
proof (cases "handle s = None \<and> \<not> fs_exists (tmp_path s) (disk s)")
  case True
  then show ?thesis using w v by (auto simp: file_truncate_def fs_exists_def file_staged_def content_def)
next
  case False
  obtain a s1 where a: "file_attach False s = (a, s1)" by fastforce
  note f = file_attach_frame[OF v a]
  show ?thesis
  proof (cases a)
    case (Inl e)
    then show ?thesis using w a f False by (auto simp: file_truncate_def)
  next
    case (Inr i)
    have i: "file_valid s1" "lookup (disk s1) (tmp_path s1) = Some i" using f Inr by auto
    have w': "(case simple_call Stat (disk s1) of
        (Err e, F) \<Rightarrow> (Err (sink_err e), s1\<lparr>disk := F\<rparr>)
      | (Ok _, F) \<Rightarrow>
          if unat n < length (data (inodes F i))
          then (case fs_set_len i (unat n) F of
                  (Err e, F') \<Rightarrow> (Err (sink_err e), s1\<lparr>disk := F'\<rparr>)
                | (Ok _, F') \<Rightarrow> (Ok (), s1\<lparr>disk := F'\<rparr>))
          else (Ok (), s1\<lparr>disk := F\<rparr>)) = (r, s')"
      using w a Inr False by (auto simp: file_truncate_def)
    have "file_valid s' \<and> file_artifact s' = file_artifact s1
      \<and> (r = Ok u \<longrightarrow> file_staged s' = take (unat n) (file_staged s1))"
      using w' f Inr file_update[OF i]
      by (auto simp: fs_set_len_def simple_call_def split: option.splits if_splits)
    then show ?thesis using f by simp
  qed
qed

lemma file_finalize_spec:
  assumes v: "file_valid s" and w: "file_finalize s = (r, s')"
  shows "(r = Ok u \<longrightarrow> file_artifact s' = Some (file_staged s))
    \<and> (r = Err e \<longrightarrow> file_valid s' \<and> file_artifact s' = file_artifact s)"
proof -
  obtain q F where q: "(if handle s = None then (Ok (), disk s) else simple_call Sync (disk s)) = (q, F)"
    by fastforce
  then have F: "F = disk s \<or> F = tick (disk s)" by (metis prod.inject simple_call_state)
  then have c: "content F = content (disk s)" by auto
  obtain r' F' where rn: "fs_rename (tmp_path s) (final_path s) F = (r', F')" by fastforce
  have ok: "fs_ok F" using v F by (auto simp: file_valid_def)
  have keeps: "r' = Err x \<Longrightarrow> F' = tick F" for x
    using rn by (auto simp: fs_rename_def simple_call_def split: option.splits)
  show ?thesis
    using w q fs_rename_spec[OF rn] rn c ok F v keeps
    by (cases q; cases r') (auto simp: file_finalize_def file_staged_def file_artifact_def file_valid_def)
qed

interpretation staged_file: observable_sink "file_backed_sink H" file_valid file_staged file_artifact for H
  by unfold_locales
    (auto simp: file_backed_sink_def dest: file_write_spec file_read_spec file_truncate_spec file_finalize_spec)

text \<open>
  No operation changes the final path, so the same laws hold of the sink that publishes under a
  given name \<open>p\<close>, whose artifact is whatever file has that name.
\<close>

lemma file_attach_path: "file_attach create s = (r, s') \<Longrightarrow> final_path s' = final_path s"
  by (auto simp: file_attach_def split: option.splits sum.splits prod.splits if_splits)

lemma file_sink_path:
  "file_write_at off bs s = (r1, s') \<Longrightarrow> final_path s' = final_path s"
  "file_read_at H off n s = (r2, s') \<Longrightarrow> final_path s' = final_path s"
  "file_truncate m s = (r3, s') \<Longrightarrow> final_path s' = final_path s"
  "file_finalize s = (r4, s') \<Longrightarrow> final_path s' = final_path s"
  by (auto simp: file_write_at_def file_read_at_def file_truncate_def file_finalize_def
      split: sum.splits prod.splits if_splits dest!: file_attach_path)

definition valid_at :: "path \<Rightarrow> file_sink \<Rightarrow> bool" where
  "valid_at p s \<longleftrightarrow> file_valid s \<and> final_path s = p"

definition published_at :: "path \<Rightarrow> file_sink \<Rightarrow> bytes option" where
  "published_at p s = content (disk s) p"

lemma published_at_final: "published_at (final_path s) s = file_artifact s"
  by (simp add: published_at_def file_artifact_def)

interpretation file_at: observable_sink "file_backed_sink H" "valid_at p" file_staged "published_at p" for H p
proof (unfold_locales, goal_cases)
  case (1 s off bs r s')
  then show ?case using staged_file.write_frame[of s H off bs r s'] file_sink_path(1)[of off bs s r s']
    by (auto simp: valid_at_def file_backed_sink_def simp flip: published_at_final)
next
  case (2 s off bs u s')
  then show ?case using staged_file.write_places[of s H off bs u s'] by (simp add: valid_at_def)
next
  case (3 s off u s')
  then show ?case using staged_file.write_nothing[of s H off u s'] by (simp add: valid_at_def)
next
  case (4 s off n res s')
  then show ?case using staged_file.read_frame[of s H off n res s'] file_sink_path(2)[of H off n s res s']
    by (auto simp: valid_at_def file_backed_sink_def simp flip: published_at_final)
next
  case (5 s off n bs s')
  then show ?case using staged_file.read_exact[of s H off n bs s'] unfolding valid_at_def by blast
next
  case (6 s n r s')
  then show ?case using staged_file.truncate_frame[of s H n r s'] file_sink_path(3)[of n s r s']
    by (auto simp: valid_at_def file_backed_sink_def simp flip: published_at_final)
next
  case (7 s n u s')
  then show ?case using staged_file.truncate_exact[of s H n u s'] by (simp add: valid_at_def)
next
  case (8 s u s')
  then show ?case using staged_file.finalize_publishes[of s H u s'] file_sink_path(4)[of s "Ok u" s']
    by (auto simp: valid_at_def file_backed_sink_def simp flip: published_at_final)
next
  case (9 s e s')
  then show ?case using staged_file.finalize_fails[of s H e s'] file_sink_path(4)[of s "Err e" s']
    by (auto simp: valid_at_def file_backed_sink_def simp flip: published_at_final)
qed

section \<open>Properties\<close>

lemmas file_defs = file_write_at_def file_read_at_def file_truncate_def file_finalize_def file_attach_def
  fs_open_def fs_create_def fs_seek_def fs_read_exact_def fs_write_all_def fs_set_len_def fs_rename_def
  simple_call_def fs_exists_def lookup_def tick_def set_data_def try_zeroed_read_buffer_def try_usize_def
  place_def slice_def example_host_def

definition example_disk :: fs where
  "example_disk = \<lparr>names = [], inodes = (\<lambda>i. \<lparr>data = [], mtime = 0\<rparr>), fresh = 0, wall = 0, clock = 0,
                   fault = (\<lambda>n k. None)\<rparr>"

definition example_sink :: file_sink where
  "example_sink = snd (file_write_at 0 [7, 8, 9] (file_sink_new (Path [1] [2]) example_disk))"

lemma file_sink_new_valid: "fs_ok F \<Longrightarrow> file_valid (file_sink_new p F)"
  by (simp add: file_valid_def file_sink_new_def)

lemma example_sink_valid: "file_valid example_sink"
proof -
  have "fs_ok example_disk" by (simp add: fs_ok_def example_disk_def lookup_def)
  then show ?thesis
    using staged_file.write_frame[OF file_sink_new_valid, of example_disk _ 0 "[7, 8, 9]"]
    unfolding example_sink_def by (simp add: file_backed_sink_def) (metis prod.collapse)
qed

lemma memory_promotes:
  assumes v: "mem_valid H m" and n: "unat n \<le> length (buf m)"
  shows "is_ok (fst (promote_verified (in_memory_sink H) n m))"
proof -
  define m1 where "m1 = m\<lparr>buf := take (unat n) (buf m)\<rparr>"
  have "mem_truncate H n m = (Ok (), m1)"
    using v n by (auto simp: m1_def mem_truncate_def mem_valid_def try_usize_def)
  moreover have "is_ok (fst (mem_read_at H (n - 1) 1 m1)) \<and> snd (mem_read_at H (n - 1) 1 m1) = m1"
    if "0 < n"
  proof -
    have "unat (n - 1) = unat n - 1" "0 < unat n"
      using that by (auto simp: unat_minus_one unat_gt_0 word_gt_0)
    then have "read_back_bounds H (n - 1) 1 = Ok (unat n - 1, unat n)"
      using v n unat_bound[of n] by (simp add: read_back_bounds_Ok_iff mem_valid_def)
    then show ?thesis using n by (simp add: mem_read_at_def m1_def)
  qed
  moreover have "\<exists>e. mem_read_at H n 1 m1 = (Err e, m1)"
    using n by (cases "read_back_bounds H n 1") (auto simp: mem_read_at_def m1_def read_back_bounds_Ok_iff)
  ultimately show ?thesis
    by (cases "mem_read_at H (n - 1) 1 m1")
      (auto simp: promote_verified_def in_memory_sink_def default_sink_def mem_finalize_def)
qed



text \<open>
  The in-memory sink is promoted exactly when every verified byte is staged: a shorter
  staging area is refused and a longer one is cut down to the verified length first.
\<close>

theorem promote_memory_sink:
  assumes "mem_valid H m"
  shows "is_ok (fst (promote_verified (in_memory_sink H) n m)) = (unat n \<le> length (buf m))
    \<and> mem_artifact (snd (promote_verified (in_memory_sink H) n m))
       = (if unat n \<le> length (buf m) then Some (take (unat n) (buf m)) else None)"
proof -
  obtain r m' where p: "promote_verified (in_memory_sink H) n m = (r, m')" by fastforce
  show ?thesis
  proof (cases "unat n \<le> length (buf m)")
    case False
    then obtain e where "r = Err e" using mem.promote_ok(1)[OF assms] p by (cases r) auto
    then show ?thesis
      using False p mem.promote_err[OF assms] assms by (auto simp: mem_valid_def mem_artifact_def)
  next
    case True
    have "is_ok r" using p memory_promotes[OF assms True] by simp
    then show ?thesis
      using True p mem.promote_ok(2)[OF assms] by (cases r) auto
  qed
qed

theorem promote_memory_sink_witness:
  "is_ok (fst (promote_verified (in_memory_sink example_host) 2 (mem_sink_new\<lparr>buf := [1, 2, 3]\<rparr>)))
   \<and> \<not> is_ok (fst (promote_verified (in_memory_sink example_host) 4 (mem_sink_new\<lparr>buf := [1, 2, 3]\<rparr>)))"
proof -
  have v: "mem_valid example_host (mem_sink_new\<lparr>buf := [1, 2, 3]\<rparr>)"
    by (simp add: mem_valid_def mem_sink_new_def example_host_def)
  show ?thesis using promote_memory_sink[OF v, of 2] promote_memory_sink[OF v, of 4] by simp
qed

text \<open>
  A sink that cannot read its staging area back, whatever its other operations do, is
  never promoted, and its final artifact is never published: the only operation the refusal
  has run is the truncation.
\<close>

theorem promote_fails_closed:
  assumes "\<not> sk_supports_read_back SK"
  shows "\<not> is_ok (fst (promote_verified SK n s)) \<and> snd (promote_verified SK n s) = snd (sk_truncate SK n s)"
  using assms by (simp add: promote_verified_def split: prod.split sum.split)

theorem promote_fails_closed_witness:
  "\<not> is_ok (fst (promote_verified (default_sink (mem_write_at example_host)) 3 (mem_sink_new\<lparr>buf := [1, 2, 3]\<rparr>)))"
  using promote_fails_closed[of "default_sink (mem_write_at example_host)" 3 "mem_sink_new\<lparr>buf := [1, 2, 3]\<rparr>"]
  by (simp add: default_sink_def)

text \<open>
  C36: what a file sink reads back of a range it has written is what was written, and a write
  leaves every other staged range as it was.
\<close>

theorem file_write_read_back:
  assumes "file_valid s" "file_write_at off bs s = (Ok (), s')" "bs \<noteq> []" "vec_ok bs"
    and "file_read_at H q n s' = (Ok rs, s'')"
  shows "(q = off \<and> unat n = length bs \<longrightarrow> rs = bs)
    \<and> (unat q + unat n \<le> length (file_staged s)
        \<and> (unat q + unat n \<le> unat off \<or> unat off + length bs \<le> unat q)
       \<longrightarrow> rs = slice (file_staged s) (unat q) (unat n))"
proof -
  have "sk_write_at (file_backed_sink H) off bs s = (Ok (), s')"
    "sk_read_at (file_backed_sink H) q n s' = (Ok rs, s'')"
    using assms by (simp_all add: file_backed_sink_def)
  from staged_file.read_after_write[OF assms(1) this(1) assms(3,4) this(2)]
  show ?thesis by blast
qed

theorem file_write_read_back_witness:
  "fst (file_read_at example_host 0 3 example_sink) = Ok [7, 8, 9]"
proof -
  have v: "file_valid (file_sink_new (Path [1] [2]) example_disk)"
    by (rule file_sink_new_valid) (simp add: fs_ok_def example_disk_def lookup_def)
  have w: "file_write_at 0 [7, 8, 9] (file_sink_new (Path [1] [2]) example_disk) = (Ok (), example_sink)"
    by (simp add: example_sink_def file_sink_new_def example_disk_def file_defs)
  have "is_ok (fst (file_read_at example_host 0 3 example_sink))"
    by (simp add: example_sink_def file_sink_new_def example_disk_def file_defs)
  then obtain rs s'' where r: "file_read_at example_host 0 3 example_sink = (Ok rs, s'')"
    by (cases "file_read_at example_host 0 3 example_sink"; cases "fst (file_read_at example_host 0 3 example_sink)") auto
  show ?thesis
    using file_write_read_back[OF v w _ _ r] r by simp
qed

end
