(* ===== verification/Progress.thy ===== *)
theory Progress
  imports Filesystem Verify
begin

text \<open>
  Progress events, the durable resume state and the stores that keep it
  (\<^verbatim>\<open>src/src/progress.rs\<close>), with the reputation verdicts kept beside it.

  The stores implement one record of operations; the interface \<open>state_store\<close> states what the
  downloaders rely on (a load returns what was last saved under that key, whatever happened
  to other keys), and both stores are interpretations of it. The JSON codec of the
  \<^verbatim>\<open>serde_json\<close> crate and the digest are parameters; what is assumed of them is part of the
  file store's validity predicate.
\<close>

section \<open>Progress and events\<close>

record download_progress =
  p_bytes_done :: u64
  p_total_length :: u64
  p_ranges_done :: nat
  p_ranges_total :: nat
  p_active_sources :: nat

definition progress_is_complete :: "download_progress \<Rightarrow> bool" where
  "progress_is_complete p = (0 < p_ranges_total p \<and> p_ranges_done p = p_ranges_total p)"

datatype download_event =
    Planned nat u64
  | RangeCompleted nat rstring download_progress
  | RangeFailed nat rstring rstring
  | ProvidersRefreshed nat
  | Paused
  | Resumed
  | Completed u64
  | Failed rstring

section \<open>The durable state of a download\<close>

record download_state =
  st_key :: rstring
  st_total_length :: u64
  st_chunk_lens :: "u64 list"
  st_root :: "rstring option"
  st_inclusion_proof :: "rstring option"
  st_done_ranges :: "nat set"

definition download_state_new :: "rstring \<Rightarrow> download_state" where
  "download_state_new k =
     \<lparr>st_key = k, st_total_length = 0, st_chunk_lens = [], st_root = None,
      st_inclusion_proof = None, st_done_ranges = {}\<rparr>"

definition has_commitment :: "download_state \<Rightarrow> bool" where
  "has_commitment st = (st_chunk_lens st \<noteq> [])"

definition mark_done :: "nat \<Rightarrow> download_state \<Rightarrow> download_state" where
  "mark_done i st = st\<lparr>st_done_ranges := insert i (st_done_ranges st)\<rparr>"

definition is_done :: "download_state \<Rightarrow> nat \<Rightarrow> bool" where
  "is_done st i = (i \<in> st_done_ranges st)"

section \<open>Verdicts on descriptor holders\<close>

definition bad_descriptor_ttl :: u64 where "bad_descriptor_ttl = 24 * 60 * 60"
definition max_bad_descriptor_peers :: nat where "max_bad_descriptor_peers = 32"

record bad_descriptor_verdict =
  v_peer_id :: rstring
  v_recorded_at_unix :: u64

definition unix_now :: "fs \<Rightarrow> u64" where
  "unix_now F = of_nat (wall F)"

definition is_hex_peer_id :: "rstring \<Rightarrow> bool" where
  "is_hex_peer_id p = (utf8_len p = 64 \<and> list_all is_ascii_hexdigit p)"

definition is_expired :: "bad_descriptor_verdict \<Rightarrow> u64 \<Rightarrow> bool" where
  "is_expired v now = (bad_descriptor_ttl < saturating_sub now (v_recorded_at_unix v))"

fun evict_oldest :: "bad_descriptor_verdict list \<Rightarrow> bad_descriptor_verdict list" where
  "evict_oldest [] = []"
| "evict_oldest (v # vs) =
     (if max_bad_descriptor_peers < length (v # vs) then evict_oldest vs else v # vs)"

definition record_verdict ::
    "bad_descriptor_verdict list \<Rightarrow> rstring \<Rightarrow> u64 \<Rightarrow> bad_descriptor_verdict list" where
  "record_verdict vs p now =
     (if \<not> is_hex_peer_id p then vs
      else evict_oldest (filter (\<lambda>v. \<not> is_expired v now \<and> v_peer_id v \<noteq> p) vs
                         @ [\<lparr>v_peer_id = p, v_recorded_at_unix = now\<rparr>]))"

definition live_peers :: "bad_descriptor_verdict list \<Rightarrow> u64 \<Rightarrow> rstring list" where
  "live_peers vs now = map v_peer_id (filter (\<lambda>v. \<not> is_expired v now) vs)"

section \<open>The store operations\<close>

record 's state_ops =
  ss_load :: "rstring \<Rightarrow> 's \<Rightarrow> (download_error + download_state option) \<times> 's"
  ss_save :: "download_state \<Rightarrow> 's \<Rightarrow> (download_error + unit) \<times> 's"
  ss_clear :: "rstring \<Rightarrow> 's \<Rightarrow> (download_error + unit) \<times> 's"
  ss_record_bad :: "rstring \<Rightarrow> rstring \<Rightarrow> 's \<Rightarrow> (download_error + unit) \<times> 's"
  ss_bad_peers :: "rstring \<Rightarrow> 's \<Rightarrow> (download_error + rstring list) \<times> 's"

text \<open>The two default methods: a store that keeps no reputation.\<close>

definition no_reputation :: "'s state_ops \<Rightarrow> 's state_ops" where
  "no_reputation ops =
     ops\<lparr>ss_record_bad := (\<lambda>k p s. (Ok (), s)), ss_bad_peers := (\<lambda>k s. (Ok [], s))\<rparr>"

subsection \<open>In memory\<close>

record mem_store =
  ms_inner :: "(rstring \<times> download_state) list"
  ms_reputation :: "(rstring \<times> bad_descriptor_verdict list) list"
  ms_now :: u64

definition mem_load :: "rstring \<Rightarrow> mem_store \<Rightarrow> (download_error + download_state option) \<times> mem_store" where
  "mem_load k m = (Ok (map_of (ms_inner m) k), m)"

definition mem_save :: "download_state \<Rightarrow> mem_store \<Rightarrow> (download_error + unit) \<times> mem_store" where
  "mem_save st m = (Ok (), m\<lparr>ms_inner := AList.update (st_key st) st (ms_inner m)\<rparr>)"

definition mem_clear :: "rstring \<Rightarrow> mem_store \<Rightarrow> (download_error + unit) \<times> mem_store" where
  "mem_clear k m = (Ok (), m\<lparr>ms_inner := AList.delete k (ms_inner m)\<rparr>)"

definition mem_record_bad :: "rstring \<Rightarrow> rstring \<Rightarrow> mem_store \<Rightarrow> (download_error + unit) \<times> mem_store" where
  "mem_record_bad k p m =
     (let vs = (case map_of (ms_reputation m) k of Some vs \<Rightarrow> vs | None \<Rightarrow> [])
      in (Ok (), m\<lparr>ms_reputation := AList.update k (record_verdict vs p (ms_now m)) (ms_reputation m)\<rparr>))"

definition mem_bad_peers :: "rstring \<Rightarrow> mem_store \<Rightarrow> (download_error + rstring list) \<times> mem_store" where
  "mem_bad_peers k m =
     (Ok (case map_of (ms_reputation m) k of Some vs \<Rightarrow> live_peers vs (ms_now m) | None \<Rightarrow> []), m)"

definition in_memory_state_store :: "mem_store state_ops" where
  "in_memory_state_store =
     \<lparr>ss_load = mem_load, ss_save = mem_save, ss_clear = mem_clear,
      ss_record_bad = mem_record_bad, ss_bad_peers = mem_bad_peers\<rparr>"

subsection \<open>On disk\<close>

text \<open>The UTF-8 bytes of a string, and the shared lower-hex encoder.\<close>

definition utf8_encode :: "uchar \<Rightarrow> bytes" where
  "utf8_encode c =
     (if c < 0x80 then [of_nat c]
      else if c < 0x800 then [of_nat (0xC0 + c div 64), of_nat (0x80 + c mod 64)]
      else if c < 0x10000
      then [of_nat (0xE0 + c div 4096), of_nat (0x80 + c div 64 mod 64), of_nat (0x80 + c mod 64)]
      else [of_nat (0xF0 + c div 262144), of_nat (0x80 + c div 4096 mod 64),
            of_nat (0x80 + c div 64 mod 64), of_nat (0x80 + c mod 64)])"

definition as_bytes :: "rstring \<Rightarrow> bytes" where
  "as_bytes s = concat (map utf8_encode s)"

definition hex_of :: "bytes \<Rightarrow> rstring" where
  "hex_of bs = concat (map (\<lambda>b. [hex_digit (unat b div 16), hex_digit (unat b mod 16)]) bs)"

definition checkpoint_file_stem :: "'h hash_ops \<Rightarrow> rstring \<Rightarrow> rstring" where
  "checkpoint_file_stem HO k = hex_of (h_digest HO (as_bytes k))"

definition file_for :: "'h hash_ops \<Rightarrow> rstring \<Rightarrow> rstring \<Rightarrow> rstring \<Rightarrow> path" where
  "file_for HO dir k suffix = Path dir (checkpoint_file_stem HO k @ suffix)"

definition path_for :: "'h hash_ops \<Rightarrow> rstring \<Rightarrow> rstring \<Rightarrow> path" where
  "path_for HO dir k = file_for HO dir k (lit ''.json'')"

definition reputation_path_for :: "'h hash_ops \<Rightarrow> rstring \<Rightarrow> rstring \<Rightarrow> path" where
  "reputation_path_for HO dir k = file_for HO dir k (lit ''.holders.json'')"

text \<open>The codec of the two document types.\<close>

record json_ops =
  js_state :: "download_state \<Rightarrow> rstring + bytes"
  js_state_of :: "bytes \<Rightarrow> rstring + download_state"
  js_verdicts :: "bad_descriptor_verdict list \<Rightarrow> rstring + bytes"
  js_verdicts_of :: "bytes \<Rightarrow> rstring + bad_descriptor_verdict list"

definition state_err :: "io_error \<Rightarrow> download_error" where
  "state_err e = State (io_text e)"

definition read_verdicts ::
    "'h hash_ops \<Rightarrow> json_ops \<Rightarrow> rstring \<Rightarrow> rstring \<Rightarrow> fs \<Rightarrow> bad_descriptor_verdict list \<times> fs" where
  "read_verdicts HO J dir k F =
     (case fs_read_file (reputation_path_for HO dir k) F of
        (Err e, F') \<Rightarrow> ([], F')
      | (Ok bs, F') \<Rightarrow> ((case js_verdicts_of J bs of Err e \<Rightarrow> [] | Ok vs \<Rightarrow> vs), F'))"

definition file_load ::
    "'h hash_ops \<Rightarrow> json_ops \<Rightarrow> rstring \<Rightarrow> rstring \<Rightarrow> fs \<Rightarrow> (download_error + download_state option) \<times> fs" where
  "file_load HO J dir k F =
     (case fs_read_file (path_for HO dir k) F of
        (Err NotFoundError, F') \<Rightarrow> (Ok None, F')
      | (Err e, F') \<Rightarrow> (Err (state_err e), F')
      | (Ok bs, F') \<Rightarrow>
          (case js_state_of J bs of
             Err e \<Rightarrow> (Err (State e), F')
           | Ok st \<Rightarrow> (Ok (Some st), F')))"

text \<open>Create the directory, encode, write: the steps both kinds of document share.\<close>

definition write_json :: "path \<Rightarrow> rstring + bytes \<Rightarrow> fs \<Rightarrow> (download_error + unit) \<times> fs" where
  "write_json p doc F =
     (case simple_call CreateDir F of
        (Err e, F') \<Rightarrow> (Err (state_err e), F')
      | (Ok _, F') \<Rightarrow>
          (case doc of
             Err e \<Rightarrow> (Err (State e), F')
           | Ok bs \<Rightarrow>
               (case fs_write_file p bs F' of
                  (Err e, F'') \<Rightarrow> (Err (state_err e), F'')
                | (Ok _, F'') \<Rightarrow> (Ok (), F''))))"

definition file_save ::
    "'h hash_ops \<Rightarrow> json_ops \<Rightarrow> rstring \<Rightarrow> download_state \<Rightarrow> fs \<Rightarrow> (download_error + unit) \<times> fs" where
  "file_save HO J dir st F = write_json (path_for HO dir (st_key st)) (js_state J st) F"

definition file_clear :: "'h hash_ops \<Rightarrow> rstring \<Rightarrow> rstring \<Rightarrow> fs \<Rightarrow> (download_error + unit) \<times> fs" where
  "file_clear HO dir k F =
     (case fs_remove (path_for HO dir k) F of
        (Ok _, F') \<Rightarrow> (Ok (), F')
      | (Err NotFoundError, F') \<Rightarrow> (Ok (), F')
      | (Err e, F') \<Rightarrow> (Err (state_err e), F'))"

definition file_record_bad ::
    "'h hash_ops \<Rightarrow> json_ops \<Rightarrow> rstring \<Rightarrow> rstring \<Rightarrow> rstring \<Rightarrow> fs \<Rightarrow> (download_error + unit) \<times> fs" where
  "file_record_bad HO J dir k p F =
     (case read_verdicts HO J dir k F of
        (vs, F') \<Rightarrow>
          write_json (reputation_path_for HO dir k)
            (js_verdicts J (record_verdict vs p (unix_now F'))) F')"

definition file_bad_peers ::
    "'h hash_ops \<Rightarrow> json_ops \<Rightarrow> rstring \<Rightarrow> rstring \<Rightarrow> fs \<Rightarrow> (download_error + rstring list) \<times> fs" where
  "file_bad_peers HO J dir k F =
     (case read_verdicts HO J dir k F of (vs, F') \<Rightarrow> (Ok (live_peers vs (unix_now F')), F'))"

definition file_state_store :: "'h hash_ops \<Rightarrow> json_ops \<Rightarrow> rstring \<Rightarrow> fs state_ops" where
  "file_state_store HO J dir =
     \<lparr>ss_load = file_load HO J dir, ss_save = file_save HO J dir, ss_clear = file_clear HO dir,
      ss_record_bad = file_record_bad HO J dir, ss_bad_peers = file_bad_peers HO J dir\<rparr>"

section \<open>The interface\<close>

text \<open>
  \<open>view s k\<close> is the checkpoint a load of \<open>k\<close> returns when it succeeds. A save that fails may
  have torn its own key's checkpoint, so nothing is promised of it.
\<close>

locale state_store =
  fixes ops :: "'s state_ops" and valid :: "'s \<Rightarrow> bool" and keys :: "rstring set"
    and view :: "'s \<Rightarrow> rstring \<Rightarrow> download_state option"
  assumes load_frame: "\<lbrakk>valid s; k \<in> keys; ss_load ops k s = (rl, s')\<rbrakk>
      \<Longrightarrow> valid s' \<and> (\<forall>q\<in>keys. view s' q = view s q) \<and> (\<forall>x. rl = Ok x \<longrightarrow> x = view s k)"
    and save_frame: "\<lbrakk>valid s; st_key st \<in> keys; ss_save ops st s = (r, s')\<rbrakk>
      \<Longrightarrow> valid s' \<and> (\<forall>q\<in>keys - {st_key st}. view s' q = view s q)
          \<and> (is_ok r \<longrightarrow> view s' (st_key st) = Some st)"
    and clear_frame: "\<lbrakk>valid s; k \<in> keys; ss_clear ops k s = (r, s')\<rbrakk>
      \<Longrightarrow> valid s' \<and> (\<forall>q\<in>keys - {k}. view s' q = view s q)
          \<and> view s' k = (if is_ok r then None else view s k)"
    and record_frame: "\<lbrakk>valid s; k \<in> keys; ss_record_bad ops k p s = (r, s')\<rbrakk>
      \<Longrightarrow> valid s' \<and> (\<forall>q\<in>keys. view s' q = view s q)"
    and peers_frame: "\<lbrakk>valid s; k \<in> keys; ss_bad_peers ops k s = (rb, s')\<rbrakk>
      \<Longrightarrow> valid s' \<and> (\<forall>q\<in>keys. view s' q = view s q)"
begin

lemma save_then_load:
  assumes "valid s" "st_key st \<in> keys" "ss_save ops st s = (Ok u, s')"
    and "ss_load ops (st_key st) s' = (Ok x, s'')"
  shows "x = Some st"
  using save_frame[OF assms(1-3)] load_frame[of s' "st_key st" "Ok x" s''] assms by simp

lemma save_other_then_load:
  assumes "valid s" "st_key st \<in> keys" "ss_save ops st s = (r, s')" "k \<in> keys" "k \<noteq> st_key st"
    and "ss_load ops k s' = (Ok x, s'')"
  shows "x = view s k"
  using save_frame[OF assms(1-3)] load_frame[of s' k "Ok x" s''] assms by simp

lemma clear_then_load:
  assumes "valid s" "k \<in> keys" "ss_clear ops k s = (Ok u, s')" "ss_load ops k s' = (Ok x, s'')"
  shows "x = None"
  using clear_frame[OF assms(1-3)] load_frame[of s' k "Ok x" s''] assms by simp

end

interpretation mem_store: state_store in_memory_state_store "\<lambda>s. True" UNIV "\<lambda>m k. map_of (ms_inner m) k"
  by unfold_locales
    (auto simp: in_memory_state_store_def mem_load_def mem_save_def mem_clear_def mem_record_bad_def
      mem_bad_peers_def update_conv' delete_conv' Let_def)

subsection \<open>The file store provides it\<close>

definition json_ok :: "json_ops \<Rightarrow> bool" where
  "json_ok J \<longleftrightarrow> (\<forall>st bs. js_state J st = Ok bs \<longrightarrow> js_state_of J bs = Ok st)"

definition file_store_valid :: "'h hash_ops \<Rightarrow> json_ops \<Rightarrow> rstring set \<Rightarrow> fs \<Rightarrow> bool" where
  "file_store_valid HO J keys F \<longleftrightarrow> fs_ok F \<and> json_ok J \<and> inj_on (checkpoint_file_stem HO) keys"

definition file_view :: "'h hash_ops \<Rightarrow> json_ops \<Rightarrow> rstring \<Rightarrow> fs \<Rightarrow> rstring \<Rightarrow> download_state option" where
  "file_view HO J dir F k =
     (case content F (path_for HO dir k) of
        None \<Rightarrow> None
      | Some bs \<Rightarrow> (case js_state_of J bs of Err e \<Rightarrow> None | Ok st \<Rightarrow> Some st))"

lemma hex_of_chars: "c \<in> set (hex_of bs) \<Longrightarrow> (48 \<le> c \<and> c \<le> 57) \<or> (97 \<le> c \<and> c \<le> 102)"
proof -
  assume "c \<in> set (hex_of bs)"
  then obtain b :: u8 where "c = hex_digit (unat b div 16) \<or> c = hex_digit (unat b mod 16)"
    unfolding hex_of_def by auto
  moreover have "unat b div 16 < 16" using unat_bound[of b] by (simp add: less_mult_imp_div_less)
  moreover have "unat b mod 16 < 16" by simp
  moreover have "(48 \<le> hex_digit d \<and> hex_digit d \<le> 57) \<or> (97 \<le> hex_digit d \<and> hex_digit d \<le> 102)"
    if "d < 16" for d using that by (auto simp: hex_digit_def)
  ultimately show ?thesis by blast
qed

lemma length_hex_of [simp]: "length (hex_of bs) = 2 * length bs"
  by (induction bs) (auto simp: hex_of_def)

lemma path_for_neq_reputation: "path_for HO dir k \<noteq> reputation_path_for HO dir q"
proof
  assume "path_for HO dir k = reputation_path_for HO dir q"
  then have "checkpoint_file_stem HO k @ lit ''.json'' = (checkpoint_file_stem HO q @ lit ''.holders'') @ lit ''.json''"
    by (simp add: path_for_def reputation_path_for_def file_for_def lit_def)
  then have "checkpoint_file_stem HO k = checkpoint_file_stem HO q @ lit ''.holders''"
    by (rule append_same_eq[THEN iffD1])
  then have "46 \<in> set (checkpoint_file_stem HO k)" by (simp add: lit_def)
  then show False using hex_of_chars[of 46] by (auto simp: checkpoint_file_stem_def)
qed

lemma path_for_eq_iff: "path_for HO dir k = path_for HO dir q \<longleftrightarrow> checkpoint_file_stem HO k = checkpoint_file_stem HO q"
  by (simp add: path_for_def file_for_def)

lemma write_json_spec:
  assumes "fs_ok F" "write_json p doc F = (r, F')"
  shows "fs_ok F' \<and> (\<forall>q. q \<noteq> p \<longrightarrow> content F' q = content F q)
    \<and> (is_ok r \<longrightarrow> (\<exists>bs. doc = Ok bs \<and> content F' p = Some bs))"
proof -
  obtain a G where c: "simple_call CreateDir F = (a, G)" by fastforce
  then have G: "G = tick F" by (rule simple_call_state)
  show ?thesis
  proof (cases a)
    case (Inl e)
    then show ?thesis using assms c G by (auto simp: write_json_def)
  next
    case (Inr u)
    show ?thesis
    proof (cases doc)
      case (Inl e)
      then show ?thesis using assms c G Inr by (auto simp: write_json_def)
    next
      case (Inr bs)
      obtain b K where w: "fs_write_file p bs G = (b, K)" by fastforce
      have "r = (case b of Err e \<Rightarrow> Err (state_err e) | Ok _ \<Rightarrow> Ok ()) \<and> F' = K"
        using assms c \<open>a = Ok u\<close> Inr w by (auto simp: write_json_def split: sum.splits)
      then show ?thesis using fs_write_file_spec[OF _ w] assms(1) G Inr by (auto split: sum.splits)
    qed
  qed
qed

lemma read_verdicts_state: "read_verdicts HO J dir k F = (vs, F') \<Longrightarrow> F' = tick F"
  using fs_read_file_spec by (fastforce simp: read_verdicts_def split: prod.splits sum.splits)

lemma file_load_spec:
  assumes "file_load HO J dir k F = (r, F')"
  shows "F' = tick F \<and> (\<forall>x. r = Ok x \<longrightarrow> x = file_view HO J dir F k)"
proof -
  obtain a G where "fs_read_file (path_for HO dir k) F = (a, G)" by fastforce
  with fs_read_file_spec[OF this] assms show ?thesis
    by (auto simp: file_load_def file_view_def split: sum.splits io_error.splits)
qed

interpretation file_store: state_store "file_state_store HO J dir" "file_store_valid HO J keys" keys
    "file_view HO J dir" for HO :: "'h hash_ops" and J dir keys
proof
  fix s s' :: fs and k and rl :: "download_error + download_state option"
  assume "file_store_valid HO J keys s" "ss_load (file_state_store HO J dir) k s = (rl, s')"
  then show "file_store_valid HO J keys s' \<and> (\<forall>q\<in>keys. file_view HO J dir s' q = file_view HO J dir s q)
      \<and> (\<forall>x. rl = Ok x \<longrightarrow> x = file_view HO J dir s k)"
    using file_load_spec[of HO J dir k s rl s']
    by (auto simp: file_state_store_def file_store_valid_def file_view_def)
next
  fix s s' :: fs and st and r :: "download_error + unit"
  assume v: "file_store_valid HO J keys s" and k: "st_key st \<in> keys"
    and "ss_save (file_state_store HO J dir) st s = (r, s')"
  then have "write_json (path_for HO dir (st_key st)) (js_state J st) s = (r, s')"
    by (simp add: file_state_store_def file_save_def)
  note w = write_json_spec[OF _ this]
  have ne: "path_for HO dir q \<noteq> path_for HO dir (st_key st)" if "q \<in> keys - {st_key st}" for q
    using that k v by (auto simp: path_for_eq_iff file_store_valid_def inj_on_def)
  show "file_store_valid HO J keys s'
      \<and> (\<forall>q\<in>keys - {st_key st}. file_view HO J dir s' q = file_view HO J dir s q)
      \<and> (is_ok r \<longrightarrow> file_view HO J dir s' (st_key st) = Some st)"
    using w v ne by (auto simp: file_store_valid_def file_view_def json_ok_def)
next
  fix s s' :: fs and k and r :: "download_error + unit"
  assume v: "file_store_valid HO J keys s" and k: "k \<in> keys"
    and c: "ss_clear (file_state_store HO J dir) k s = (r, s')"
  obtain a G where rm: "fs_remove (path_for HO dir k) s = (a, G)" by fastforce
  have ra: "s' = G" "is_ok r \<longleftrightarrow> is_ok a \<or> a = Err NotFoundError"
    using c rm by (auto simp: file_state_store_def file_clear_def is_ok_def split: sum.splits io_error.splits)
  have ne: "path_for HO dir q \<noteq> path_for HO dir k" if "q \<in> keys - {k}" for q
    using that k v by (auto simp: path_for_eq_iff file_store_valid_def inj_on_def)
  show "file_store_valid HO J keys s' \<and> (\<forall>q\<in>keys - {k}. file_view HO J dir s' q = file_view HO J dir s q)
      \<and> file_view HO J dir s' k = (if is_ok r then None else file_view HO J dir s k)"
    using fs_remove_spec[OF _ rm] v ne ra by (auto simp: file_store_valid_def file_view_def)
next
  fix s s' :: fs and k p and r :: "download_error + unit"
  assume v: "file_store_valid HO J keys s" and "ss_record_bad (file_state_store HO J dir) k p s = (r, s')"
  then obtain vs where "write_json (reputation_path_for HO dir k)
      (js_verdicts J (record_verdict vs p (unix_now (tick s)))) (tick s) = (r, s')"
    using read_verdicts_state[of HO J dir k s]
    by (cases "read_verdicts HO J dir k s") (auto simp: file_state_store_def file_record_bad_def)
  note w = write_json_spec[OF _ this]
  show "file_store_valid HO J keys s' \<and> (\<forall>q\<in>keys. file_view HO J dir s' q = file_view HO J dir s q)"
    using w v path_for_neq_reputation[of HO dir] by (simp add: file_store_valid_def file_view_def)
next
  fix s s' :: fs and k and rb :: "download_error + rstring list"
  assume "file_store_valid HO J keys s" "ss_bad_peers (file_state_store HO J dir) k s = (rb, s')"
  then show "file_store_valid HO J keys s' \<and> (\<forall>q\<in>keys. file_view HO J dir s' q = file_view HO J dir s q)"
    using read_verdicts_state[of HO J dir k s]
    by (cases "read_verdicts HO J dir k s")
      (auto simp: file_state_store_def file_bad_peers_def file_store_valid_def file_view_def)
qed

section \<open>Properties\<close>

definition verdicts_ok :: "bad_descriptor_verdict list \<Rightarrow> bool" where
  "verdicts_ok vs \<longleftrightarrow> length vs \<le> max_bad_descriptor_peers \<and> distinct (map v_peer_id vs)
     \<and> list_all (\<lambda>v. is_hex_peer_id (v_peer_id v)) vs"

lemma evict_oldest_drop: "evict_oldest vs = drop (length vs - max_bad_descriptor_peers) vs"
  by (induction vs) (auto simp: Suc_diff_le not_less)

lemma verdicts_ok_record: "verdicts_ok vs \<Longrightarrow> verdicts_ok (record_verdict vs p now)"
proof -
  assume v: "verdicts_ok vs"
  let ?ws = "filter (\<lambda>v. \<not> is_expired v now \<and> v_peer_id v \<noteq> p) vs @ [\<lparr>v_peer_id = p, v_recorded_at_unix = now\<rparr>]"
  have "distinct (map v_peer_id ?ws)" using v by (auto simp: verdicts_ok_def distinct_map_filter)
  moreover have "set (drop n ?ws) \<subseteq> set ?ws" for n by (rule set_drop_subset)
  ultimately show ?thesis using v
    by (auto simp: record_verdict_def verdicts_ok_def evict_oldest_drop drop_map[symmetric] list_all_iff
        simp del: drop_append drop_Cons' dest!: in_set_dropD)
qed

lemma live_after_record:
  assumes v: "verdicts_ok vs" and p: "is_hex_peer_id p"
  shows "p \<in> set (live_peers (record_verdict vs p now) t) \<longleftrightarrow> unat t - unat now \<le> unat bad_descriptor_ttl"
proof -
  let ?vs = "filter (\<lambda>v. \<not> is_expired v now \<and> v_peer_id v \<noteq> p) vs"
  let ?new = "\<lparr>v_peer_id = p, v_recorded_at_unix = now\<rparr>"
  have "length ?vs \<le> max_bad_descriptor_peers"
    using v length_filter_le[of _ vs] by (meson order_trans verdicts_ok_def)
  then obtain n where n: "record_verdict vs p now = drop n ?vs @ [?new]"
    using p by (auto simp: record_verdict_def evict_oldest_drop max_bad_descriptor_peers_def)
  have "p \<noteq> v_peer_id v" if "v \<in> set (drop n ?vs)" for v using in_set_dropD[OF that] by auto
  then show ?thesis
    unfolding n live_peers_def by (auto simp: is_expired_def to_nat unat_saturating_sub not_less)
qed

text \<open>
  The reputation of a target stays within its bounds whatever peers are recorded: at most 32
  verdicts, one per peer, every one under a canonical 64-digit id; and a recorded peer is
  excluded from the descriptor role exactly for the time to live after its latest verdict,
  never longer.
\<close>

theorem record_verdict_bounded:
  assumes "verdicts_ok vs"
  shows "verdicts_ok (record_verdict vs p now)
    \<and> (is_hex_peer_id p \<longrightarrow>
        (p \<in> set (live_peers (record_verdict vs p now) t) \<longleftrightarrow> unat t - unat now \<le> 86400))
    \<and> (\<not> is_hex_peer_id p \<longrightarrow> p \<notin> set (live_peers (record_verdict vs p now) t))"
  using verdicts_ok_record[OF assms] live_after_record[OF assms] assms
  by (auto simp: bad_descriptor_ttl_def record_verdict_def live_peers_def verdicts_ok_def list_all_iff)

theorem record_verdict_bounded_witness:
  "verdicts_ok (record_verdict [] (replicate 64 97) 5)
   \<and> replicate 64 97 \<in> set (live_peers (record_verdict [] (replicate 64 97) 5) 86405)
   \<and> replicate 64 97 \<notin> set (live_peers (record_verdict [] (replicate 64 97) 5) 86406)"
proof -
  have "verdicts_ok []" by (simp add: verdicts_ok_def)
  moreover have "is_hex_peer_id (replicate 64 97)" by code_simp
  ultimately show ?thesis
    using record_verdict_bounded[of "[]" "replicate 64 97" 5 86405]
      record_verdict_bounded[of "[]" "replicate 64 97" 5 86406] by simp
qed

text \<open>
  C35: what a file-backed store loads under a key after a save that succeeded is the saved state,
  and a save leaves what any other key loads as it was, whatever faults the file system
  injects; the keys in use are assumed to have distinct digests and the JSON codec to decode
  what it encoded.
\<close>

theorem file_store_checkpoint:
  assumes "file_store_valid HO J keys F" and "st_key st \<in> keys"
    and "file_save HO J dir st F = (r, F')"
    and "k \<in> keys" and "file_load HO J dir k F' = (Ok x, F'')"
  shows "(k = st_key st \<and> is_ok r \<longrightarrow> x = Some st)
    \<and> (k \<noteq> st_key st \<longrightarrow> x = file_view HO J dir F k)"
proof -
  have s: "ss_save (file_state_store HO J dir) st F = (r, F')" and l: "ss_load (file_state_store HO J dir) k F' = (Ok x, F'')"
    using assms(3,5) by (simp_all add: file_state_store_def)
  have "x = Some st" if "k = st_key st" "is_ok r"
    using file_store.save_then_load[OF assms(1,2)] s l that by (cases r) auto
  then show ?thesis using file_store.save_other_then_load[OF assms(1,2) s assms(4) _ l] by blast
qed

text \<open>A codec that stores the state in one place: the encoding is the key, the table the rest.\<close>

definition example_hash :: "bytes hash_ops" where
  "example_hash = buffering_hash (\<lambda>bs. take 32 (bs @ replicate 32 0))"

definition example_state :: download_state where
  "example_state = (download_state_new [97])\<lparr>st_total_length := 3\<rparr>"

definition example_json :: json_ops where
  "example_json =
     \<lparr>js_state = (\<lambda>st. if st = example_state then Ok [1] else Err []),
      js_state_of = (\<lambda>bs. if bs = [1] then Ok example_state else Err []),
      js_verdicts = (\<lambda>vs. Err []), js_verdicts_of = (\<lambda>bs. Err [])\<rparr>"

definition empty_disk :: fs where
  "empty_disk = \<lparr>names = [], inodes = (\<lambda>i. \<lparr>data = [], mtime = 0\<rparr>), fresh = 0, wall = 0, clock = 0,
                   fault = (\<lambda>n k. None)\<rparr>"

theorem file_store_checkpoint_witness:
  "\<exists>F' F''. file_save example_hash example_json [1] example_state empty_disk = (Ok (), F')
     \<and> file_load example_hash example_json [1] [97] F' = (Ok (Some example_state), F'')"
proof -
  have v: "file_store_valid example_hash example_json {[97]} empty_disk"
    by (simp add: file_store_valid_def fs_ok_def empty_disk_def lookup_def json_ok_def example_json_def)
  have k: "st_key example_state \<in> {[97]}" by (simp add: example_state_def download_state_new_def)
  let ?F = "snd (file_save example_hash example_json [1] example_state empty_disk)"
  have s: "file_save example_hash example_json [1] example_state empty_disk = (Ok (), ?F)"
    by (simp add: file_save_def write_json_def fs_write_file_def fs_open_def simple_call_def empty_disk_def
        example_json_def lookup_def fs_create_def tick_def)
  have "\<exists>x. fst (file_load example_hash example_json [1] [97] ?F) = Ok x"
    by (simp add: file_save_def file_load_def write_json_def fs_write_file_def fs_read_file_def fs_open_def
        simple_call_def empty_disk_def example_json_def example_state_def download_state_new_def lookup_def
        fs_create_def tick_def path_for_def set_data_def)
  then obtain x F'' where l: "file_load example_hash example_json [1] [97] ?F = (Ok x, F'')"
    by (metis prod.collapse)
  have "x = Some example_state"
    using file_store_checkpoint[OF v k s _ l] by (simp add: example_state_def download_state_new_def)
  then show ?thesis using s l by blast
qed

text \<open>
  The file a key's checkpoint or reputation lives in has a name of bounded length whatever the
  key, made of lower-case hexadecimal digits and the fixed suffix, and never that of the other
  kind of document.
\<close>

theorem checkpoint_name_bounded:
  assumes "\<forall>bs. length (h_digest HO bs) = 32"
  shows "length (file_name (path_for HO dir k)) = 69
    \<and> length (file_name (reputation_path_for HO dir k)) = 77
    \<and> (\<forall>c\<in>set (file_name (path_for HO dir k)). c \<noteq> 47 \<and> c \<noteq> 92)
    \<and> path_for HO dir k \<noteq> reputation_path_for HO dir q"
proof -
  have "c \<noteq> 47 \<and> c \<noteq> 92" if "c \<in> set (checkpoint_file_stem HO k)" for c
    using hex_of_chars[of c] that by (auto simp: checkpoint_file_stem_def)
  then show ?thesis
    using assms path_for_neq_reputation
    by (auto simp: path_for_def reputation_path_for_def file_for_def checkpoint_file_stem_def lit_def)
qed

theorem checkpoint_name_bounded_witness:
  "length (file_name (path_for example_hash [1] (replicate 136 97))) = 69"
proof -
  have "\<forall>bs. length (h_digest example_hash bs) = 32" by (simp add: example_hash_def buffering_hash_def min_def)
  then show ?thesis using checkpoint_name_bounded by blast
qed

end
