(* ===== verification/Gc.thy ===== *)
theory Gc
  imports Sink
begin

text \<open>
  Garbage collection of staging files (\<^verbatim>\<open>src/src/gc.rs\<close>): the registry of claimed staging
  paths and the sweep that removes stale files nobody holds.

  Times are nanoseconds since the epoch. A directory listing is the entries of the file
  system under that directory; a directory that does not exist lists nothing, which is the
  answer the code gives for it (\<open>Ok(0)\<close>).
\<close>

section \<open>The registry\<close>

record active_downloads =
  protected :: "path set"

definition active_downloads_new :: active_downloads where
  "active_downloads_new = \<lparr>protected = {}\<rparr>"

definition register :: "path \<Rightarrow> active_downloads \<Rightarrow> active_downloads" where
  "register p R = R\<lparr>protected := insert p (protected R)\<rparr>"

text \<open>A claim is the path it holds; \<open>None\<close> means another download holds it.\<close>

definition claim :: "path \<Rightarrow> active_downloads \<Rightarrow> path option \<times> active_downloads" where
  "claim p R =
     (if p \<in> protected R then (None, R) else (Some p, R\<lparr>protected := insert p (protected R)\<rparr>))"

definition unregister :: "path \<Rightarrow> active_downloads \<Rightarrow> active_downloads" where
  "unregister p R = R\<lparr>protected := protected R - {p}\<rparr>"

definition is_protected :: "path \<Rightarrow> active_downloads \<Rightarrow> bool" where
  "is_protected p R = (p \<in> protected R)"

definition drop_claim :: "path \<Rightarrow> active_downloads \<Rightarrow> active_downloads" where
  "drop_claim p R = R\<lparr>protected := protected R - {p}\<rparr>"

section \<open>The sweep\<close>

record gc_config =
  gc_dir :: rstring
  gc_ttl :: nat
  gc_interval :: nat

definition gc_config_new :: "rstring \<Rightarrow> gc_config" where
  "gc_config_new d = \<lparr>gc_dir = d, gc_ttl = 3600 * 10 ^ 9, gc_interval = 600 * 10 ^ 9\<rparr>"

record tmp_gc =
  tg_dir :: rstring
  tg_ttl :: nat
  tg_registry :: active_downloads

definition ends_with :: "rstring \<Rightarrow> rstring \<Rightarrow> bool" where
  "ends_with s suf = (length suf \<le> length s \<and> drop (length s - length suf) s = suf)"

definition strip_suffix_or :: "rstring \<Rightarrow> rstring \<Rightarrow> rstring" where
  "strip_suffix_or s suf = (if ends_with s suf then take (length s - length suf) s else s)"

definition sidecar_state_path :: "path \<Rightarrow> path" where
  "sidecar_state_path p =
     Path (to_string_lossy (parent p)) (strip_suffix_or (to_string_lossy (file_name p)) tmp_suffix @ state_suffix)"

definition is_stale :: "path \<Rightarrow> nat \<Rightarrow> nat \<Rightarrow> fs \<Rightarrow> bool \<times> fs" where
  "is_stale p now ttl F =
     (case simple_call Stat F of
        (Err e, F') \<Rightarrow> (True, F')
      | (Ok _, F') \<Rightarrow>
          (case lookup F' p of
             None \<Rightarrow> (True, F')
           | Some i \<Rightarrow> (if now < mtime (inodes F' i) then (False, F')
                        else (ttl \<le> now - mtime (inodes F' i), F'))))"

definition fs_entries :: "rstring \<Rightarrow> fs \<Rightarrow> path list" where
  "fs_entries d F = filter (\<lambda>p. parent p = d) (map fst (names F))"

definition is_staging_name :: "path \<Rightarrow> bool" where
  "is_staging_name p =
     (case to_str (file_name p) of
        None \<Rightarrow> False
      | Some n \<Rightarrow> ends_with n tmp_suffix \<and> \<not> ends_with n state_suffix)"

definition state_failure :: "io_error \<Rightarrow> download_error" where
  "state_failure e = State (io_text e)"

text \<open>One entry of the sweep: what was removed so far, or the error that ended it.\<close>

definition sweep_entry :: "tmp_gc \<Rightarrow> nat \<Rightarrow> path \<Rightarrow> nat \<times> fs \<Rightarrow> (download_error + nat) \<times> fs" where
  "sweep_entry g now p nF =
     (case simple_call ReadDir (snd nF) of
        (Err e, F) \<Rightarrow> (Err (state_failure e), F)
      | (Ok _, F) \<Rightarrow>
          if \<not> is_staging_name p then (Ok (fst nF), F)
          else if is_protected p (tg_registry g) then (Ok (fst nF), F)
          else
            (case is_stale p now (tg_ttl g) F of
               (False, F1) \<Rightarrow> (Ok (fst nF), F1)
             | (True, F1) \<Rightarrow>
                 (case fs_remove p F1 of
                    (Err e, F2) \<Rightarrow> (Err (state_failure e), F2)
                  | (Ok _, F2) \<Rightarrow>
                      (case fs_remove (sidecar_state_path p) F2 of
                         (Ok _, F3) \<Rightarrow> (Ok (Suc (fst nF)), F3)
                       | (Err NotFoundError, F3) \<Rightarrow> (Ok (Suc (fst nF)), F3)
                       | (Err e, F3) \<Rightarrow> (Err (state_failure e), F3)))))"

fun sweep_entries :: "tmp_gc \<Rightarrow> nat \<Rightarrow> path list \<Rightarrow> nat \<Rightarrow> fs \<Rightarrow> (download_error + nat) \<times> fs" where
  "sweep_entries g now [] n F = (Ok n, F)"
| "sweep_entries g now (p # ps) n F =
     (case sweep_entry g now p (n, F) of
        (Err e, F') \<Rightarrow> (Err e, F')
      | (Ok m, F') \<Rightarrow> sweep_entries g now ps m F')"

definition sweep_at :: "tmp_gc \<Rightarrow> nat \<Rightarrow> fs \<Rightarrow> (download_error + nat) \<times> fs" where
  "sweep_at g now F =
     (case simple_call ReadDir F of
        (Err NotFoundError, F') \<Rightarrow> (Ok 0, F')
      | (Err e, F') \<Rightarrow> (Err (state_failure e), F')
      | (Ok _, F') \<Rightarrow> sweep_entries g now (fs_entries (tg_dir g) F') 0 F')"

definition sweep :: "tmp_gc \<Rightarrow> fs \<Rightarrow> (download_error + nat) \<times> fs" where
  "sweep g F = sweep_at g (wall F) F"

section \<open>What a sweep may remove\<close>

text \<open>A path a sweep may take: an unprotected staging file of the directory, or its sidecar.\<close>

definition reapable :: "tmp_gc \<Rightarrow> path \<Rightarrow> bool" where
  "reapable g p \<longleftrightarrow> parent p = tg_dir g \<and> is_staging_name p \<and> \<not> is_protected p (tg_registry g)"

lemma is_stale_state: "is_stale p now ttl F = (b, F') \<Longrightarrow> F' = tick F"
  by (auto simp: is_stale_def simple_call_def split: option.splits if_splits)

lemma sweep_entry_keeps:
  assumes ok: "fs_ok F" and s: "sweep_entry g now p (n, F) = (r, F')" and dir: "parent p = tg_dir g"
  shows "fs_ok F' \<and> (content F' q = content F q \<or> (reapable g p \<and> (q = p \<or> q = sidecar_state_path p)))"
proof -
  obtain a F0 where c: "simple_call ReadDir F = (a, F0)" by fastforce
  then have F0: "F0 = tick F" by (rule simple_call_state)
  show ?thesis
  proof (cases "is_ok a \<and> is_staging_name p \<and> \<not> is_protected p (tg_registry g)")
    case False
    then show ?thesis using s c F0 ok by (cases a) (auto simp: sweep_entry_def split: if_splits)
  next
    case True
    then have rp: "reapable g p" using dir by (simp add: reapable_def)
    obtain b F1 where st: "is_stale p now (tg_ttl g) F0 = (b, F1)" by fastforce
    then have F1: "F1 = tick (tick F)" using is_stale_state F0 by blast
    obtain r2 F2 where d1: "fs_remove p F1 = (r2, F2)" by fastforce
    obtain r3 F3 where d2: "fs_remove (sidecar_state_path p) F2 = (r3, F3)" by fastforce
    have e2: "fs_ok F2 \<and> (q \<noteq> p \<longrightarrow> content F2 q = content F q)"
      using fs_remove_spec[OF _ d1] F1 ok by simp
    have e3: "fs_ok F3 \<and> (q \<noteq> p \<and> q \<noteq> sidecar_state_path p \<longrightarrow> content F3 q = content F q)"
      using fs_remove_spec[OF _ d2] e2 by simp
    have "F' = F1 \<or> F' = F2 \<or> F' = F3"
      using s c True st d1 d2
      by (cases a; cases b; cases r2; cases r3)
        (auto simp: sweep_entry_def split: io_error.splits)
    then show ?thesis using e2 e3 F1 ok rp by auto
  qed
qed

lemma sweep_entries_keeps:
  assumes "fs_ok F" "sweep_entries g now ps n F = (r, F')" "\<forall>p\<in>set ps. parent p = tg_dir g"
  shows "fs_ok F' \<and> (content F' q = content F q \<or> (\<exists>p\<in>set ps. reapable g p \<and> (q = p \<or> q = sidecar_state_path p)))"
  using assms
proof (induction ps arbitrary: n F)
  case Nil
  then show ?case by simp
next
  case (Cons p ps)
  obtain a F1 where e: "sweep_entry g now p (n, F) = (a, F1)" by fastforce
  have k: "fs_ok F1 \<and> (content F1 q = content F q \<or> (reapable g p \<and> (q = p \<or> q = sidecar_state_path p)))"
    by (rule sweep_entry_keeps[OF Cons.prems(1) e]) (use Cons.prems(3) in simp)
  show ?case
  proof (cases a)
    case (Inl x)
    then show ?thesis using Cons.prems(2) e k by auto
  next
    case (Inr m)
    then have "sweep_entries g now ps m F1 = (r, F')" using Cons.prems(2) e by simp
    from Cons.IH[OF _ this] k Cons.prems(3) show ?thesis by auto
  qed
qed

section \<open>Properties\<close>

lemma ends_with_append: "ends_with (s @ suf) suf"
  by (simp add: ends_with_def)

lemma sidecar_not_staging:
  assumes "is_staging_name p"
  shows "ends_with (file_name (sidecar_state_path p)) state_suffix"
  by (simp add: sidecar_state_path_def ends_with_append)

lemma sweep_keeps:
  assumes "fs_ok F" and "sweep_at g now F = (r, F')"
    and "\<not> ends_with (file_name q) tmp_suffix \<or> is_protected q (tg_registry g)"
    and "\<not> ends_with (file_name q) state_suffix"
  shows "content F' q = content F q"
proof -
  obtain a F0 where c: "simple_call ReadDir F = (a, F0)" by fastforce
  then have F0: "F0 = tick F" by (rule simple_call_state)
  show ?thesis
  proof (cases a)
    case (Inl e)
    then show ?thesis using assms(2) c F0 by (cases e) (auto simp: sweep_at_def)
  next
    case (Inr u)
    then have s: "sweep_entries g now (fs_entries (tg_dir g) F0) 0 F0 = (r, F')"
      using assms(2) c by (simp add: sweep_at_def)
    have "content F' q = content F0 q
        \<or> (\<exists>p\<in>set (fs_entries (tg_dir g) F0). reapable g p \<and> (q = p \<or> q = sidecar_state_path p))"
      using sweep_entries_keeps[OF _ s] assms(1) F0 by (auto simp: fs_entries_def)
    moreover have "\<not> (reapable g p \<and> (q = p \<or> q = sidecar_state_path p))" for p
      using assms(3,4) sidecar_not_staging[of p]
      by (auto simp: reapable_def is_staging_name_def to_str_def split: if_splits)
    ultimately show ?thesis using F0 by auto
  qed
qed


definition example_gc :: tmp_gc where
  "example_gc = \<lparr>tg_dir = [1], tg_ttl = 10, tg_registry = register (Path [1] (lit ''a.download.tmp'')) active_downloads_new\<rparr>"

definition example_staged :: fs where
  "example_staged =
     \<lparr>names = [(Path [1] (lit ''a.download.tmp''), 0), (Path [1] (lit ''b.download.tmp''), 1), (Path [1] (lit ''c''), 2)],
      inodes = (\<lambda>i. \<lparr>data = [of_nat i], mtime = 0\<rparr>), fresh = 3, wall = 100, clock = 0, fault = (\<lambda>n k. None)\<rparr>"

lemma example_staged_ok: "fs_ok example_staged"
  by (auto simp: fs_ok_def example_staged_def lookup_def lit_def split: if_splits)

lemma example_sweep: "is_ok (fst (sweep example_gc example_staged)) \<and> content (snd (sweep example_gc example_staged)) (Path [1] (lit ''b.download.tmp'')) = None"
  by (simp add: sweep_def sweep_at_def sweep_entry_def fs_entries_def example_gc_def example_staged_def simple_call_def
     tick_def is_staging_name_def to_str_def scalar_value_def ends_with_def lit_def tmp_suffix_def state_suffix_def
     is_protected_def register_def active_downloads_new_def is_stale_def lookup_def fs_remove_def content_def
     sidecar_state_path_def strip_suffix_or_def to_string_lossy_def)


text \<open>The downloads that hold a staging path: claims made and dropped in any order.\<close>

datatype claim_op = ClaimPath path | DropNth nat

fun claim_trace :: "claim_op list \<Rightarrow> path list \<times> active_downloads \<Rightarrow> path list \<times> active_downloads" where
  "claim_trace [] s = s"
| "claim_trace (ClaimPath p # ops) (held, R) =
     (case claim p R of
        (None, R') \<Rightarrow> claim_trace ops (held, R')
      | (Some h, R') \<Rightarrow> claim_trace ops (held @ [h], R'))"
| "claim_trace (DropNth n # ops) (held, R) =
     (if n < length held
      then claim_trace ops (take n held @ drop (Suc n) held, drop_claim (held ! n) R)
      else claim_trace ops (held, R))"

lemma claim_trace_inv:
  "distinct held \<Longrightarrow> set held = protected R \<Longrightarrow>
   distinct (fst (claim_trace ops (held, R))) \<and> set (fst (claim_trace ops (held, R))) = protected (snd (claim_trace ops (held, R)))"
proof (induction ops "(held, R)" arbitrary: held R rule: claim_trace.induct)
  case (3 n ops held R)
  then show ?case
    using set_drop_nth[of held n] by (auto simp: drop_claim_def set_take_disj_set_drop_if_distinct)
qed (auto simp: claim_def split: if_splits)

text \<open>
  C20: whatever downloads claim and drop staging paths, in whatever order, no path is held twice and
  the registry protects exactly the paths that are held.
\<close>

theorem claims_exclusive:
  "distinct (fst (claim_trace ops ([], active_downloads_new)))
   \<and> set (fst (claim_trace ops ([], active_downloads_new))) = protected (snd (claim_trace ops ([], active_downloads_new)))"
  by (rule claim_trace_inv) (simp_all add: active_downloads_new_def)

end
