(* ===== verification/Addr.thy ===== *)
theory Addr
  imports Errors
begin

text \<open>
  Provider records and the order their addresses are dialled in (\<^verbatim>\<open>src/src/addr.rs\<close>), and the
  discovery seam (\<^verbatim>\<open>src/src/locate.rs\<close>).

  A candidate address and a provider record are values of the \<^verbatim>\<open>dig-dht\<close> crate, given here by
  the fields the code reads. The parser and printer of IP literals are parameters.
\<close>

record candidate_addr =
  host_text :: rstring
  port :: "16 word"
  dialable :: bool

record provider_record =
  provider_peer_id :: rstring
  addresses :: "candidate_addr list"

datatype ip_addr = V4 "u8 list" | V6 "16 word list"

record ip_ops =
  parse_ip :: "rstring \<Rightarrow> ip_addr option"
  show_ip :: "ip_addr \<Rightarrow> rstring"

datatype addr_error = NotAnIpLiteral rstring

definition max_dial_candidates :: nat where "max_dial_candidates = 4"

definition candidate_socket :: "ip_ops \<Rightarrow> candidate_addr \<Rightarrow> addr_error + (ip_addr \<times> 16 word)" where
  "candidate_socket I a =
     (case parse_ip I (host_text a) of
        None \<Rightarrow> Err (NotAnIpLiteral (host_text a))
      | Some ip \<Rightarrow> Ok (ip, port a))"

text \<open>\<open>SocketAddr\<close>'s printer: an IPv6 address is bracketed.\<close>

definition show_socket :: "ip_ops \<Rightarrow> ip_addr \<times> 16 word \<Rightarrow> rstring" where
  "show_socket I s =
     (case fst s of
        V4 bs \<Rightarrow> show_ip I (V4 bs) @ lit '':'' @ dec (unat (snd s))
      | V6 gs \<Rightarrow> lit ''['' @ show_ip I (V6 gs) @ lit '']:'' @ dec (unat (snd s)))"

definition display_addr :: "ip_ops \<Rightarrow> candidate_addr \<Rightarrow> rstring" where
  "display_addr I a =
     (case candidate_socket I a of
        Ok s \<Rightarrow> show_socket I s
      | Err e \<Rightarrow> host_text a @ lit '':'' @ dec (unat (port a)))"

definition dial_rank :: "ip_ops \<Rightarrow> candidate_addr \<Rightarrow> nat" where
  "dial_rank I a =
     (case candidate_socket I a of
        Ok (V6 gs, p) \<Rightarrow> 0
      | Ok (V4 bs, p) \<Rightarrow> 1
      | Err e \<Rightarrow> 2)"

definition dial_candidates :: "ip_ops \<Rightarrow> provider_record \<Rightarrow> candidate_addr list" where
  "dial_candidates I p =
     take max_dial_candidates (sort_key (dial_rank I) (filter dialable (addresses p)))"

section \<open>Discovery\<close>

text \<open>
  The DHT-backed locator: the DHT's own lookup is a parameter; a failure is a transport error
  attributed to the DHT.
\<close>

definition dht_find_providers ::
    "('c \<Rightarrow> 'w \<Rightarrow> (rstring + provider_record list) \<times> 'w)
     \<Rightarrow> 'c \<Rightarrow> 'w \<Rightarrow> (download_error + provider_record list) \<times> 'w" where
  "dht_find_providers dht c w =
     (case dht c w of
        (Err e, w') \<Rightarrow> (Err (Transport (lit ''dht'') e), w')
      | (Ok ps, w') \<Rightarrow> (Ok ps, w'))"

section \<open>Properties\<close>

lemma sorted_take_le:
  assumes "sorted (map f xs)" "x \<in> set (take n xs)" "y \<in> set (drop n xs)"
  shows "f x \<le> f y"
proof -
  have "sorted (map f (take n xs) @ map f (drop n xs))" using assms(1) by (simp flip: map_append)
  then show ?thesis using assms(2,3) by (auto simp: sorted_append)
qed

text \<open>
  A provider is dialled at no more than four of its dialable addresses, IPv6 before IPv4 before
  text that is no address, in the order announced within each kind, and an address that is
  left out is never of a better kind than one that is dialled.
\<close>

theorem dial_candidates_order:
  "length (dial_candidates I p) \<le> 4
   \<and> sorted (map (dial_rank I) (dial_candidates I p))
   \<and> (\<forall>a. a \<in> set (dial_candidates I p) \<longrightarrow> a \<in> set (addresses p) \<and> dialable a)
   \<and> (\<forall>k. \<exists>n. filter (\<lambda>a. dial_rank I a = k) (dial_candidates I p)
               = take n (filter (\<lambda>a. dialable a \<and> dial_rank I a = k) (addresses p)))
   \<and> (\<forall>a b. a \<in> set (addresses p) \<and> dialable a \<and> a \<notin> set (dial_candidates I p)
             \<and> b \<in> set (dial_candidates I p) \<longrightarrow> dial_rank I b \<le> dial_rank I a)"
proof -
  let ?xs = "sort_key (dial_rank I) (filter dialable (addresses p))"
  have d: "dial_candidates I p = take 4 ?xs" by (simp add: dial_candidates_def max_dial_candidates_def)
  have s: "sorted (map (dial_rank I) ?xs)" by simp
  have prefix: "\<exists>n. filter (\<lambda>a. dial_rank I a = k) (take 4 ?xs)
      = take n (filter (\<lambda>a. dialable a \<and> dial_rank I a = k) (addresses p))" for k
  proof -
    have 1: "filter (\<lambda>a. dial_rank I a = k) ?xs = filter (\<lambda>a. dialable a \<and> dial_rank I a = k) (addresses p)"
      by (simp add: sort_key_stable)
    have "filter (\<lambda>a. dial_rank I a = k) (take 4 ?xs @ drop 4 ?xs)
        = filter (\<lambda>a. dial_rank I a = k) (take 4 ?xs) @ filter (\<lambda>a. dial_rank I a = k) (drop 4 ?xs)"
      by (rule filter_append)
    then have 2: "filter (\<lambda>a. dial_rank I a = k) (take 4 ?xs) @ filter (\<lambda>a. dial_rank I a = k) (drop 4 ?xs)
        = filter (\<lambda>a. dialable a \<and> dial_rank I a = k) (addresses p)"
      unfolding append_take_drop_id 1 by (rule sym)
    show ?thesis
      by (rule exI[of _ "length (filter (\<lambda>a. dial_rank I a = k) (take 4 ?xs))"]) (simp flip: 2)
  qed
  have rest: "dial_rank I b \<le> dial_rank I a"
    if "a \<in> set (addresses p)" "dialable a" "a \<notin> set (take 4 ?xs)" "b \<in> set (take 4 ?xs)" for a b
  proof -
    have "a \<in> set ?xs" using that(1,2) by simp
    then have "a \<in> set (take 4 ?xs) \<union> set (drop 4 ?xs)" by (metis append_take_drop_id set_append)
    then show ?thesis using sorted_take_le[OF s that(4)] that(3) by blast
  qed
  have sub: "a \<in> set (addresses p) \<and> dialable a" if "a \<in> set (take 4 ?xs)" for a
    using in_set_takeD[OF that] by simp
  have sd: "sorted (map (dial_rank I) (take 4 ?xs))" unfolding take_map[symmetric] by (rule sorted_wrt_take[OF s])
  have len: "length (take 4 ?xs) \<le> 4" by simp
  show ?thesis
    unfolding d by (intro conjI allI impI, rule len, rule sd) (use sub rest prefix in blast)+
qed

definition example_ips :: ip_ops where
  "example_ips = \<lparr>parse_ip = (\<lambda>s. if s = [4] then Some (V4 []) else if s = [6] then Some (V6 []) else None),
                  show_ip = (\<lambda>i. [])\<rparr>"

definition example_provider :: provider_record where
  "example_provider = \<lparr>provider_peer_id = [1],
     addresses = [\<lparr>host_text = [9], port = 1, dialable = True\<rparr>, \<lparr>host_text = [4], port = 2, dialable = True\<rparr>,
                  \<lparr>host_text = [6], port = 3, dialable = True\<rparr>, \<lparr>host_text = [4], port = 4, dialable = False\<rparr>]\<rparr>"

theorem dial_candidates_order_witness:
  "map port (dial_candidates example_ips example_provider) = [3, 2, 1]
   \<and> sorted (map (dial_rank example_ips) (dial_candidates example_ips example_provider))"
  using dial_candidates_order[of example_ips example_provider]
  by (simp add: dial_candidates_def example_provider_def max_dial_candidates_def dial_rank_def
      candidate_socket_def example_ips_def)

end
