(* ===== verification/Select.thy ===== *)
theory Select
  imports Prelude
begin

text \<open>
  The selection seam (\<^verbatim>\<open>src/src/select.rs\<close>): its questions and answers, and the round-robin
  selector used when no other is injected. The shared cursor is a counter that wraps at the
  platform's \<open>usize\<close>.
\<close>

record candidate_ref =
  cr_peer_id :: rstring
  cr_addrs :: "rstring list"
  cr_tag :: "u64 option"

definition candidate_ref_new :: "rstring \<Rightarrow> rstring list \<Rightarrow> candidate_ref" where
  "candidate_ref_new p as = \<lparr>cr_peer_id = p, cr_addrs = as, cr_tag = None\<rparr>"

record select_request =
  sr_content_key :: rstring
  sr_candidates :: "candidate_ref list"
  sr_ranges_needed :: nat
  sr_inflight :: nat

record select_plan =
  ordered :: "rstring list"
  assignments :: "(nat \<times> rstring) list"

definition select_plan_ordered :: "rstring list \<Rightarrow> select_plan" where
  "select_plan_ordered ps = \<lparr>ordered = ps, assignments = []\<rparr>"

datatype range_result = ResultOk | ResultFailed | ResultTimedOut

record range_outcome =
  ro_peer_id :: rstring
  ro_bytes :: u64
  ro_elapsed :: nat
  ro_result :: range_result

text \<open>A selector is a state with its two operations.\<close>

record 'w selector_ops =
  sel_select :: "select_request \<Rightarrow> 'w \<Rightarrow> select_plan \<times> 'w"
  sel_record :: "range_outcome \<Rightarrow> 'w \<Rightarrow> 'w"

record null_selector =
  cursor :: nat

definition null_selector_new :: null_selector where
  "null_selector_new = \<lparr>cursor = 0\<rparr>"

definition null_select :: "host \<Rightarrow> select_request \<Rightarrow> null_selector \<Rightarrow> select_plan \<times> null_selector" where
  "null_select H req s =
     (let n = length (sr_candidates req)
      in if n = 0 then (\<lparr>ordered = [], assignments = []\<rparr>, s)
         else (select_plan_ordered (map cr_peer_id (rotate (cursor s mod n) (sr_candidates req))),
               \<lparr>cursor = (cursor s + 1) mod (usize_max H + 1)\<rparr>))"

definition null_selector_ops :: "host \<Rightarrow> null_selector selector_ops" where
  "null_selector_ops H = \<lparr>sel_select = null_select H, sel_record = (\<lambda>r s. s)\<rparr>"

section \<open>Properties\<close>

text \<open>The first choices of successive passes over one request.\<close>

fun first_choices :: "host \<Rightarrow> select_request \<Rightarrow> nat \<Rightarrow> null_selector \<Rightarrow> rstring list" where
  "first_choices H req 0 s = []"
| "first_choices H req (Suc k) s =
     (case null_select H req s of (plan, s') \<Rightarrow> hd (ordered plan) # first_choices H req k s')"

lemma first_choices_nth:
  assumes "sr_candidates req \<noteq> []" and "cursor s + k \<le> usize_max H"
  shows "first_choices H req k s
    = map (\<lambda>i. cr_peer_id (sr_candidates req ! ((cursor s + i) mod length (sr_candidates req)))) [0..<k]"
  using assms(2)
proof (induction k arbitrary: s)
  case 0
  then show ?case by simp
next
  case (Suc k)
  let ?s = "\<lparr>cursor = cursor s + 1\<rparr>"
  have ih: "first_choices H req k ?s
      = map (\<lambda>i. cr_peer_id (sr_candidates req ! ((cursor s + Suc i) mod length (sr_candidates req)))) [0..<k]"
    using Suc.IH[of ?s] Suc.prems by simp
  have "(cursor s + 1) mod (usize_max H + 1) = cursor s + 1" using Suc.prems by simp
  then have step: "null_select H req s = (select_plan_ordered
      (map cr_peer_id (rotate (cursor s mod length (sr_candidates req)) (sr_candidates req))), ?s)"
    using assms(1) by (simp add: null_select_def Let_def)
  have "hd (map cr_peer_id (rotate (cursor s mod length (sr_candidates req)) (sr_candidates req)))
      = cr_peer_id (sr_candidates req ! (cursor s mod length (sr_candidates req)))"
    using assms(1) by (simp add: hd_map hd_rotate_conv_nth)
  then show ?case
    unfolding first_choices.simps step
    by (simp only: ih prod.case select_plan_ordered_def select_plan.simps map_upt_Suc add_0_right)
qed

lemma mod_shift_perm:
  assumes "0 < (n::nat)" shows "distinct (map (\<lambda>i. (c + i) mod n) [0..<n])" "set (map (\<lambda>i. (c + i) mod n) [0..<n]) = {..<n}"
proof -
  have r: "map (\<lambda>i. (c + i) mod n) [0..<n] = rotate c [0..<n]"
    by (rule nth_equalityI) (use assms in \<open>auto simp: nth_rotate\<close>)
  show "distinct (map (\<lambda>i. (c + i) mod n) [0..<n])" unfolding r by simp
  show "set (map (\<lambda>i. (c + i) mod n) [0..<n]) = {..<n}" unfolding r by auto
qed

text \<open>
  Every pass of the default selector offers every candidate, and of as many successive passes as
  there are candidates each candidate is offered first in exactly one, from any cursor that
  does not wrap in between.
\<close>

theorem null_selector_fair:
  assumes "sr_candidates req \<noteq> []" and "cursor s + length (sr_candidates req) \<le> usize_max H"
    and "distinct (map cr_peer_id (sr_candidates req))"
  shows "set (ordered (fst (null_select H req s))) = cr_peer_id ` set (sr_candidates req)
    \<and> distinct (first_choices H req (length (sr_candidates req)) s)
    \<and> set (first_choices H req (length (sr_candidates req)) s) = cr_peer_id ` set (sr_candidates req)"
proof -
  let ?cs = "sr_candidates req" let ?n = "length ?cs"
  let ?ix = "map (\<lambda>i. (cursor s + i) mod ?n) [0..<?n]"
  have f: "first_choices H req ?n s = map ((!) (map cr_peer_id ?cs)) ?ix"
    unfolding first_choices_nth[OF assms(1,2)] using assms(1) by simp
  have n: "0 < ?n" using assms(1) by simp
  note perm = mod_shift_perm[OF n, of "cursor s"]
  have "inj_on ((!) (map cr_peer_id ?cs)) {..<?n}"
    by (rule inj_on_nth) (use assms(3) in auto)
  then have "distinct (first_choices H req ?n s)" unfolding f distinct_map[of "(!) _"] perm(2) using perm(1) by blast
  moreover have "set (first_choices H req ?n s) = cr_peer_id ` set ?cs"
  proof -
    have "set (first_choices H req ?n s) = (!) (map cr_peer_id ?cs) ` {..<?n}"
      unfolding f set_map[of "(!) _"] perm(2) ..
    also have "\<dots> = set (map cr_peer_id ?cs)"
      using nth_image[of "?n" "map cr_peer_id ?cs"] by (simp add: atLeast0LessThan)
    finally show ?thesis by simp
  qed
  moreover have "set (ordered (fst (null_select H req s))) = cr_peer_id ` set ?cs"
    using assms(1) by (simp add: null_select_def Let_def select_plan_ordered_def)
  ultimately show ?thesis by blast
qed

definition example_request :: select_request where
  "example_request = \<lparr>sr_content_key = [], sr_candidates = [candidate_ref_new [1] [], candidate_ref_new [2] [], candidate_ref_new [3] []],
     sr_ranges_needed = 3, sr_inflight = 0\<rparr>"

theorem null_selector_fair_witness:
  "first_choices example_host example_request 3 \<lparr>cursor = 1\<rparr> = [[2], [3], [1]]
   \<and> set (first_choices example_host example_request 3 \<lparr>cursor = 1\<rparr>) = {[1], [2], [3]}"
proof -
  have l: "length (sr_candidates example_request) = 3" by (simp add: example_request_def)
  have "set (first_choices example_host example_request 3 \<lparr>cursor = 1\<rparr>) = cr_peer_id ` set (sr_candidates example_request)"
    using null_selector_fair[of example_request "\<lparr>cursor = 1\<rparr>" example_host]
    unfolding l by (simp add: example_request_def candidate_ref_new_def example_host_def)
  moreover have "first_choices example_host example_request 3 \<lparr>cursor = 1\<rparr> = [[2], [3], [1]]"
    unfolding numeral_3_eq_3
    by (simp add: example_request_def candidate_ref_new_def null_select_def select_plan_ordered_def example_host_def)
  ultimately show ?thesis by (simp add: example_request_def candidate_ref_new_def)
qed

end
