(* ===== verification/Source.thy ===== *)
theory Source
  imports Errors "HOL-Library.AList"
begin

text \<open>
  Range streams and source health (\<^verbatim>\<open>src/src/source.rs\<close>): the metadata a stream declares, the
  check of later frames against the first, the reassembly of a frame stream into a bounded
  range, the bounded trailer drain, and the per-source backoff.

  The frame decoder and the \<open>ChunkLensAssembler\<close> belong to the \<^verbatim>\<open>dig-nat\<close> crate: the decoder is a
  function on the reader's state and the assembler a record of its operations. The reassembly
  loop runs on fuel; \<open>stream_assembly_terminates\<close> bounds the fuel it needs by the window and
  the size of the layout, for every stream.
\<close>

section \<open>Metadata and fetched ranges\<close>

record range_frame =
  fr_offset :: u64
  fr_bytes :: bytes
  fr_complete :: bool
  fr_total_length :: "u64 option"
  fr_chunk_lens :: "u64 list option"
  fr_chunk_lens_offset :: "u64 option"
  fr_chunk_count :: "u64 option"
  fr_chunk_index :: "u64 option"
  fr_root :: "rstring option"
  fr_inclusion_proof :: "rstring option"

record range_meta =
  rm_total_length :: "u64 option"
  rm_chunk_lens :: "u64 list option"
  rm_chunk_count :: "u64 option"
  rm_chunk_index :: "u64 option"
  rm_root :: "rstring option"
  rm_inclusion_proof :: "rstring option"

definition range_meta_default :: range_meta where
  "range_meta_default =
     \<lparr>rm_total_length = None, rm_chunk_lens = None, rm_chunk_count = None, rm_chunk_index = None,
      rm_root = None, rm_inclusion_proof = None\<rparr>"

definition meta_from_frame :: "range_frame \<Rightarrow> range_meta" where
  "meta_from_frame f =
     \<lparr>rm_total_length = fr_total_length f, rm_chunk_lens = fr_chunk_lens f,
      rm_chunk_count = fr_chunk_count f, rm_chunk_index = fr_chunk_index f,
      rm_root = fr_root f, rm_inclusion_proof = fr_inclusion_proof f\<rparr>"

definition declaring_layout :: "u64 \<Rightarrow> u64 list \<Rightarrow> u64 \<Rightarrow> range_meta \<Rightarrow> range_meta" where
  "declaring_layout tot lens count m =
     m\<lparr>rm_total_length := Some tot, rm_chunk_count := Some count, rm_chunk_lens := Some lens\<rparr>"

definition declaring_anchor :: "rstring \<Rightarrow> rstring option \<Rightarrow> range_meta \<Rightarrow> range_meta" where
  "declaring_anchor rt prf m = m\<lparr>rm_root := Some rt, rm_inclusion_proof := prf\<rparr>"

definition declaring_chunk_index :: "u64 \<Rightarrow> range_meta \<Rightarrow> range_meta" where
  "declaring_chunk_index i m = m\<lparr>rm_chunk_index := Some i\<rparr>"

record fetched_range =
  request_offset :: u64
  fetched_bytes :: bytes
  fetched_meta :: range_meta

section \<open>Source health\<close>

record source_health =
  failures :: u32
  served :: u64
  backoff_until :: "nat option"

definition source_health_default :: source_health where
  "source_health_default = \<lparr>failures = 0, served = 0, backoff_until = None\<rparr>"

text \<open>Durations and instants are nanoseconds; a \<open>Duration\<close> holds at most \<open>2 ^ 64\<close> seconds.\<close>

definition duration_limit :: nat where "duration_limit = 2 ^ 64 * 10 ^ 9"

record source_tracker =
  health :: "(rstring \<times> source_health) list"
  base_backoff :: nat
  max_backoff :: nat

definition source_tracker_new :: "nat \<Rightarrow> nat \<Rightarrow> source_tracker" where
  "source_tracker_new b m = \<lparr>health = [], base_backoff = b, max_backoff = m\<rparr>"

definition health_of :: "source_tracker \<Rightarrow> rstring \<Rightarrow> source_health" where
  "health_of T p = (case map_of (health T) p of Some h \<Rightarrow> h | None \<Rightarrow> source_health_default)"

definition is_available :: "source_tracker \<Rightarrow> rstring \<Rightarrow> nat \<Rightarrow> bool" where
  "is_available T p now =
     (case map_of (health T) p of
        Some h \<Rightarrow> (case backoff_until h of Some t \<Rightarrow> t \<le> now | None \<Rightarrow> True)
      | None \<Rightarrow> True)"

definition record_success :: "rstring \<Rightarrow> source_tracker \<Rightarrow> source_tracker" where
  "record_success p T =
     (let h = health_of T p
      in T\<lparr>health := AList.update p (h\<lparr>failures := 0, served := served h + 1, backoff_until := None\<rparr>) (health T)\<rparr>)"

definition record_failure :: "rstring \<Rightarrow> nat \<Rightarrow> source_tracker \<Rightarrow> source_tracker" where
  "record_failure p now T =
     (let h = health_of T p;
          fails = saturating_add (failures h) 1;
          shift = min (unat (saturating_sub fails 1)) 16;
          raw = base_backoff T * 2 ^ shift;
          backoff = min (if raw < duration_limit then raw else max_backoff T) (max_backoff T)
      in T\<lparr>health := AList.update p (h\<lparr>failures := fails, backoff_until := Some (now + backoff)\<rparr>) (health T)\<rparr>)"

definition tracker_served :: "source_tracker \<Rightarrow> rstring \<Rightarrow> u64" where
  "tracker_served T p = (case map_of (health T) p of Some h \<Rightarrow> served h | None \<Rightarrow> 0)"

definition tracker_failures :: "source_tracker \<Rightarrow> rstring \<Rightarrow> u32" where
  "tracker_failures T p = (case map_of (health T) p of Some h \<Rightarrow> failures h | None \<Rightarrow> 0)"

section \<open>The identity a stream declares\<close>

record stream_identity =
  id_root :: "rstring option"
  id_total_length :: "u64 option"
  id_chunk_count :: "u64 option"
  highest_chunk_index :: "u64 option"
  prologue_frontier :: u64

datatype later_frame = Continuation | NewProloguePage u64 nat

definition page_len :: "u64 list option \<Rightarrow> u64" where
  "page_len pg = (case pg of None \<Rightarrow> 0 | Some ls \<Rightarrow> len64 ls)"

definition or_zero :: "u64 option \<Rightarrow> u64" where
  "or_zero x = (case x of None \<Rightarrow> 0 | Some v \<Rightarrow> v)"

definition identity_from_first_frame :: "range_frame \<Rightarrow> stream_identity" where
  "identity_from_first_frame f =
     \<lparr>id_root = fr_root f, id_total_length = fr_total_length f, id_chunk_count = fr_chunk_count f,
      highest_chunk_index = fr_chunk_index f,
      prologue_frontier = saturating_add (or_zero (fr_chunk_lens_offset f)) (page_len (fr_chunk_lens f))\<rparr>"

text \<open>The \<open>{:?}\<close> rendering of a field's value is passed in.\<close>

definition check_unrevised ::
    "('a \<Rightarrow> rstring) \<Rightarrow> rstring \<Rightarrow> 'a option \<Rightarrow> 'a option \<Rightarrow> rstring + unit" where
  "check_unrevised dbg field committed declared =
     (case declared of
        None \<Rightarrow> Ok ()
      | Some d \<Rightarrow>
          (case committed of
             Some c \<Rightarrow>
               if c = d then Ok ()
               else Err (field @ lit '' changed mid-stream: first frame declared '' @ dbg c
                         @ lit '', a later frame '' @ dbg d)
           | None \<Rightarrow>
               Err (field @ lit '' '' @ dbg d
                    @ lit '' appears only on a later frame; the first frame left it unstated'')))"

definition advance_chunk_index ::
    "range_frame \<Rightarrow> stream_identity \<Rightarrow> rstring + stream_identity" where
  "advance_chunk_index f ident =
     (case fr_chunk_index f of
        None \<Rightarrow> Ok ident
      | Some i \<Rightarrow>
          (case highest_chunk_index ident of
             None \<Rightarrow> Ok (ident\<lparr>highest_chunk_index := Some i\<rparr>)
           | Some h \<Rightarrow>
               if i < h
               then Err (lit ''chunk_index '' @ dec64 i @ lit '' rewinds below '' @ dec64 h
                         @ lit ''; frames arrive in ascending offset'')
               else Ok (ident\<lparr>highest_chunk_index := Some i\<rparr>)))"

definition check_later_frame ::
    "(rstring \<Rightarrow> rstring) \<Rightarrow> range_frame \<Rightarrow> stream_identity \<Rightarrow> rstring + (later_frame \<times> stream_identity)" where
  "check_later_frame dbg f ident =
     and_then (check_unrevised dbg (lit ''root'') (id_root ident) (fr_root f)) (\<lambda>_.
     and_then (check_unrevised dec64 (lit ''total_length'') (id_total_length ident) (fr_total_length f)) (\<lambda>_.
     and_then (check_unrevised dec64 (lit ''chunk_count'') (id_chunk_count ident) (fr_chunk_count f)) (\<lambda>_.
     if fr_inclusion_proof f \<noteq> None
     then Err (lit ''a later frame restates inclusion_proof, which is once-per-stream'')
     else
       and_then (advance_chunk_index f ident) (\<lambda>ident'.
         case fr_chunk_lens f of
           None \<Rightarrow> Ok (Continuation, ident')
         | Some page \<Rightarrow>
             (let off = or_zero (fr_chunk_lens_offset f)
              in if off < prologue_frontier ident'
                 then Err (lit ''a later frame's chunk_lens page at offset '' @ dec64 off
                           @ lit '' re-covers entries below '' @ dec64 (prologue_frontier ident')
                           @ lit '', which an earlier page already filled; a paged prologue must ADVANCE, never restate'')
                 else Ok (NewProloguePage off (length page),
                          ident'\<lparr>prologue_frontier := saturating_add off (len64 page)\<rparr>))))))"

definition entries_delivered :: "stream_identity \<Rightarrow> u64" where
  "entries_delivered ident = prologue_frontier ident"

section \<open>Reassembly\<close>

text \<open>The paged-prologue assembler of \<^verbatim>\<open>dig-nat\<close>.\<close>

record 'a chunk_lens_assembler =
  asm_new :: "nat \<Rightarrow> rstring + 'a"
  asm_accept_page :: "u64 \<Rightarrow> u64 list \<Rightarrow> 'a \<Rightarrow> rstring + 'a"
  asm_is_complete :: "'a \<Rightarrow> bool"
  asm_into_chunk_lens :: "'a \<Rightarrow> rstring + u64 list"

definition transport_err :: "rstring \<Rightarrow> download_error" where
  "transport_err reason = Transport [] reason"

definition chunk_lens_error :: "rstring \<Rightarrow> download_error" where
  "chunk_lens_error e = transport_err (lit ''chunk_lens prologue rejected: '' @ e)"

text \<open>\<open>as usize\<close>, which truncates on a platform narrower than 64 bits.\<close>

definition as_usize :: "host \<Rightarrow> u64 \<Rightarrow> nat" where
  "as_usize H a = unat a mod (usize_max H + 1)"

record 'a assembly =
  ay_buf :: bytes
  ay_meta :: range_meta
  ay_identity :: "stream_identity option"
  ay_assembler :: "'a option"
  byte_frontier :: nat

definition assembly_start :: "'a assembly" where
  "assembly_start =
     \<lparr>ay_buf = [], ay_meta = range_meta_default, ay_identity = None, ay_assembler = None, byte_frontier = 0\<rparr>"

text \<open>The first frame: adopt its declaration, and begin a paged layout when it is one.\<close>

definition accept_first_frame ::
    "host \<Rightarrow> 'a chunk_lens_assembler \<Rightarrow> range_frame \<Rightarrow> 'a assembly \<Rightarrow> download_error + ('a assembly \<times> bool)" where
  "accept_first_frame H A f st =
     (let st1 = st\<lparr>ay_meta := meta_from_frame f, ay_identity := Some (identity_from_first_frame f)\<rparr>
      in case fr_chunk_count f of
           None \<Rightarrow> Ok (st1, False)
         | Some count \<Rightarrow>
             if page_len (fr_chunk_lens f) < count
             then and_then (map_err chunk_lens_error (asm_new A (as_usize H count))) (\<lambda>a.
                    case fr_chunk_lens f of
                      None \<Rightarrow> Ok (st1\<lparr>ay_assembler := Some a\<rparr>, False)
                    | Some page \<Rightarrow>
                        and_then (map_err chunk_lens_error
                                    (asm_accept_page A (or_zero (fr_chunk_lens_offset f)) page a)) (\<lambda>a'.
                          Ok (st1\<lparr>ay_assembler := Some a'\<rparr>, True)))
             else Ok (st1, False))"

text \<open>A later frame: check it against the first, and place its page when it carries one.\<close>

definition accept_later_frame ::
    "(rstring \<Rightarrow> rstring) \<Rightarrow> 'a chunk_lens_assembler \<Rightarrow> range_frame \<Rightarrow> stream_identity \<Rightarrow> 'a assembly
     \<Rightarrow> download_error + ('a assembly \<times> bool)" where
  "accept_later_frame dbg A f ident st =
     and_then (map_err transport_err (check_later_frame dbg f ident)) (\<lambda>(verdict, ident').
       let st1 = st\<lparr>ay_identity := Some ident'\<rparr>
       in case verdict of
            Continuation \<Rightarrow> Ok (st1, False)
          | NewProloguePage off n \<Rightarrow>
              (case ay_assembler st1 of
                 None \<Rightarrow> Err (PagedPrologueUnsupported [] (or_zero (id_chunk_count ident')) (entries_delivered ident'))
               | Some a \<Rightarrow>
                   and_then (map_err chunk_lens_error
                               (asm_accept_page A off (case fr_chunk_lens f of Some pg \<Rightarrow> pg | None \<Rightarrow> []) a)) (\<lambda>a'.
                     Ok (st1\<lparr>ay_assembler := Some a'\<rparr>, True))))"

definition accept_frame ::
    "host \<Rightarrow> (rstring \<Rightarrow> rstring) \<Rightarrow> 'a chunk_lens_assembler \<Rightarrow> range_frame \<Rightarrow> 'a assembly
     \<Rightarrow> download_error + ('a assembly \<times> bool)" where
  "accept_frame H dbg A f st =
     (case ay_identity st of
        None \<Rightarrow> accept_first_frame H A f st
      | Some ident \<Rightarrow> accept_later_frame dbg A f ident st)"

definition prologue_drained :: "'a chunk_lens_assembler \<Rightarrow> 'a assembly \<Rightarrow> bool" where
  "prologue_drained A st = (case ay_assembler st of None \<Rightarrow> True | Some a \<Rightarrow> asm_is_complete A a)"

text \<open>Clip a frame to the window and place its bytes, growing the buffer fallibly.\<close>

definition place_frame ::
    "host \<Rightarrow> u64 \<Rightarrow> range_frame \<Rightarrow> 'a assembly \<Rightarrow> download_error + ('a assembly \<times> nat)" where
  "place_frame H max_len f st =
     (if max_len \<le> fr_offset f
      then Err (transport_err (lit ''range frame at offset '' @ dec64 (fr_offset f)
                               @ lit '' starts beyond expected length '' @ dec64 max_len))
      else
        let start = as_usize H (fr_offset f);
            n = min (length (fr_bytes f)) (as_usize H (max_len - fr_offset f));
            stop = start + n
        in case (if length (ay_buf st) < stop
                 then reserve_refusal H (stop - length (ay_buf st)) else None) of
             Some e \<Rightarrow> Err (transport_err (lit ''cannot allocate a '' @ dec stop
                                          @ lit ''-byte range assembly buffer: '' @ e))
           | None \<Rightarrow> Ok (st\<lparr>ay_buf := place start (take n (fr_bytes f)) (ay_buf st)\<rparr>, stop))"

datatype 'a loop_step = Break 'a | Continue 'a

definition frame_step ::
    "host \<Rightarrow> (rstring \<Rightarrow> rstring) \<Rightarrow> 'a chunk_lens_assembler \<Rightarrow> u64 \<Rightarrow> range_frame \<Rightarrow> 'a assembly
     \<Rightarrow> download_error + 'a assembly loop_step" where
  "frame_step H dbg A max_len f st =
     and_then (accept_frame H dbg A f st) (\<lambda>(st1, accepted_page).
       if max_len = 0
       then if prologue_drained A st1 then Ok (Break st1)
            else if \<not> accepted_page
            then Err (transport_err (lit ''a metadata stream ended its prologue short without progressing''))
            else Ok (Continue st1)
       else
         and_then (place_frame H max_len f st1) (\<lambda>(st2, stop).
           if fr_complete f \<or> (prologue_drained A st1 \<and> unat max_len \<le> length (ay_buf st2))
           then Ok (Break st2)
           else if stop \<le> byte_frontier st2 \<and> \<not> accepted_page
           then Err (transport_err (lit ''a frame at offset '' @ dec64 (fr_offset f)
                       @ lit '' extends the range to '' @ dec stop
                       @ lit '', past nothing (already at '' @ dec (byte_frontier st2)
                       @ lit ''), and does not complete it; the stream cannot progress''))
           else Ok (Continue (st2\<lparr>byte_frontier := max (byte_frontier st2) stop\<rparr>))))"

text \<open>A layout is adopted only whole.\<close>

definition assembly_finish ::
    "'a chunk_lens_assembler \<Rightarrow> 'a assembly \<Rightarrow> download_error + (bytes \<times> range_meta)" where
  "assembly_finish A st =
     (case ay_assembler st of
        None \<Rightarrow> Ok (ay_buf st, ay_meta st)
      | Some a \<Rightarrow>
          (case asm_into_chunk_lens A a of
             Ok full \<Rightarrow> Ok (ay_buf st, (ay_meta st)\<lparr>rm_chunk_lens := Some full\<rparr>)
           | Err e \<Rightarrow>
               Err (PagedPrologueUnsupported [] (or_zero (rm_chunk_count (ay_meta st)))
                      (case ay_identity st of None \<Rightarrow> 0 | Some ident \<Rightarrow> entries_delivered ident))))"

text \<open>The decoder reads one frame, or the end of the stream, from the reader's state.\<close>

type_synonym 'r decoder = "'r \<Rightarrow> (rstring + range_frame option) \<times> 'r"

fun assemble_loop ::
    "nat \<Rightarrow> host \<Rightarrow> (rstring \<Rightarrow> rstring) \<Rightarrow> 'a chunk_lens_assembler \<Rightarrow> 'r decoder \<Rightarrow> u64 \<Rightarrow> 'a assembly \<Rightarrow> 'r
     \<Rightarrow> ((download_error + (bytes \<times> range_meta)) \<times> 'r) option" where
  "assemble_loop 0 H dbg A decode max_len st r = None"
| "assemble_loop (Suc fuel) H dbg A decode max_len st r =
     (case decode r of
        (Err e, r') \<Rightarrow> Some (Err (transport_err (lit ''range frame decode: '' @ e)), r')
      | (Ok None, r') \<Rightarrow> Some (assembly_finish A st, r')
      | (Ok (Some f), r') \<Rightarrow>
          (case frame_step H dbg A max_len f st of
             Err e \<Rightarrow> Some (Err e, r')
           | Ok (Break st') \<Rightarrow> Some (assembly_finish A st', r')
           | Ok (Continue st') \<Rightarrow> assemble_loop fuel H dbg A decode max_len st' r'))"

definition assemble_range_stream ::
    "nat \<Rightarrow> host \<Rightarrow> (rstring \<Rightarrow> rstring) \<Rightarrow> 'a chunk_lens_assembler \<Rightarrow> 'r decoder \<Rightarrow> u64 \<Rightarrow> 'r
     \<Rightarrow> ((download_error + (bytes \<times> range_meta)) \<times> 'r) option" where
  "assemble_range_stream fuel H dbg A decode max_len r =
     assemble_loop fuel H dbg A decode max_len assembly_start r"

section \<open>The trailer\<close>

definition max_trailer_drain :: u64 where "max_trailer_drain = 64 * 1024"

text \<open>A read of at most \<open>want\<close> bytes returns how many it got; zero is the end of the stream.\<close>

function drain_loop :: "host \<Rightarrow> (nat \<Rightarrow> 'r \<Rightarrow> nat option \<times> 'r) \<Rightarrow> nat \<Rightarrow> nat \<Rightarrow> 'r \<Rightarrow> nat \<times> 'r" where
  "drain_loop H read cap drained r =
     (if drained < cap
      then (case read (min ((cap - drained) mod (usize_max H + 1)) 4096) r of
              (None, r') \<Rightarrow> (drained, r')
            | (Some n, r') \<Rightarrow> if n = 0 then (drained, r') else drain_loop H read cap (drained + n) r')
      else (drained, r))"
  by pat_completeness auto

termination
  by (relation "measure (\<lambda>(H, read, cap, drained, r). cap - drained)") auto

declare drain_loop.simps [simp del]

definition drain_trailer_bounded :: "host \<Rightarrow> (nat \<Rightarrow> 'r \<Rightarrow> nat option \<times> 'r) \<Rightarrow> u64 \<Rightarrow> 'r \<Rightarrow> nat \<times> 'r" where
  "drain_trailer_bounded H read cap r = drain_loop H read (unat cap) 0 r"

section \<open>Termination of the reassembly\<close>

text \<open>
  What the assembler documents: it is created with no slot filled, an accepted page fills at
  least one further slot (a duplicate, misaligned or empty page is refused), and no more than
  the bound on a layout.
\<close>

definition assembler_progresses :: "'a chunk_lens_assembler \<Rightarrow> ('a \<Rightarrow> nat) \<Rightarrow> nat \<Rightarrow> bool" where
  "assembler_progresses A filled cap \<longleftrightarrow>
     (\<forall>off page a a'. asm_accept_page A off page a = Ok a' \<longrightarrow> filled a < filled a' \<and> filled a' \<le> cap)"

definition slots :: "('a \<Rightarrow> nat) \<Rightarrow> 'a assembly \<Rightarrow> nat" where
  "slots filled st = (case ay_assembler st of None \<Rightarrow> 0 | Some a \<Rightarrow> filled a)"

definition stream_budget :: "('a \<Rightarrow> nat) \<Rightarrow> nat \<Rightarrow> u64 \<Rightarrow> 'a assembly \<Rightarrow> nat" where
  "stream_budget filled cap max_len st = (unat max_len - byte_frontier st) + (cap - slots filled st)"

lemma accept_first_OkD:
  assumes "accept_first_frame H A f st = Ok (st', page)"
  shows "\<exists>x. st' = st\<lparr>ay_meta := meta_from_frame f, ay_identity := Some (identity_from_first_frame f), ay_assembler := x\<rparr>
    \<and> (page \<longrightarrow> (\<exists>off pg a a'. asm_accept_page A off pg a = Ok a' \<and> x = Some a'))"
  using assms
  by (cases st)
    (auto simp: accept_first_frame_def Let_def and_then_Ok_iff split: option.splits if_splits; blast)

lemma accept_later_OkD:
  assumes "accept_later_frame dbg A f ident st = Ok (st', page)"
  shows "\<exists>verdict ident' x. check_later_frame dbg f ident = Ok (verdict, ident')
    \<and> st' = st\<lparr>ay_identity := Some ident', ay_assembler := x\<rparr>
    \<and> (if page then \<exists>off pg a a'. ay_assembler st = Some a \<and> asm_accept_page A off pg a = Ok a' \<and> x = Some a'
       else x = ay_assembler st)"
proof -
  obtain v where v: "check_later_frame dbg f ident = Ok v"
    using assms by (auto simp: accept_later_frame_def and_then_Ok_iff)
  obtain verdict ident' where vi: "v = (verdict, ident')" by (cases v)
  show ?thesis
  proof (cases verdict)
    case Continuation
    then show ?thesis using assms v vi by (cases st) (auto simp: accept_later_frame_def)
  next
    case (NewProloguePage off n)
    obtain pg where pg: "(case fr_chunk_lens f of Some pg \<Rightarrow> pg | None \<Rightarrow> []) = pg" by blast
    show ?thesis
      using assms v vi NewProloguePage unfolding accept_later_frame_def
      by (cases st) (auto simp: and_then_Ok_iff Let_def pg split: option.splits)
  qed
qed

lemma accept_frame_buf: "accept_frame H dbg A f st = Ok (st', page) \<Longrightarrow> ay_buf st' = ay_buf st"
  unfolding accept_frame_def
  using accept_first_OkD accept_later_OkD by (fastforce split: option.splits)

lemma accept_frame_slots:
  assumes prog: "assembler_progresses A filled cap" and a: "accept_frame H dbg A f st = Ok (st', page)"
    and ident: "ay_identity st = None \<longrightarrow> ay_assembler st = None"
  shows "ay_identity st' \<noteq> None \<and> byte_frontier st' = byte_frontier st \<and> ay_buf st' = ay_buf st
    \<and> slots filled st \<le> slots filled st'
    \<and> (page \<longrightarrow> slots filled st < slots filled st' \<and> slots filled st' \<le> cap)"
proof -
  have up: "asm_accept_page A off pg a = Ok a' \<Longrightarrow> filled a < filled a' \<and> filled a' \<le> cap" for off pg a a'
    using prog by (simp add: assembler_progresses_def)
  show ?thesis
  proof (cases "ay_identity st")
    case None
    then have "accept_first_frame H A f st = Ok (st', page)" using a by (simp add: accept_frame_def)
    from accept_first_OkD[OF this] None ident show ?thesis
      by (auto simp: slots_def dest!: up)
  next
    case (Some i)
    then have "accept_later_frame dbg A f i st = Ok (st', page)" using a by (simp add: accept_frame_def)
    from accept_later_OkD[OF this] obtain verdict ident' x where
      x: "st' = st\<lparr>ay_identity := Some ident', ay_assembler := x\<rparr>"
      and p: "if page then \<exists>off pg a a'. ay_assembler st = Some a \<and> asm_accept_page A off pg a = Ok a' \<and> x = Some a'
              else x = ay_assembler st" by blast
    show ?thesis
    proof (cases page)
      case True
      then obtain off pg a a' where "ay_assembler st = Some a" "asm_accept_page A off pg a = Ok a'" "x = Some a'"
        using p by auto
      then show ?thesis using x up by (fastforce simp: slots_def)
    next
      case False
      then show ?thesis using x p by (simp add: slots_def)
    qed
  qed
qed

text \<open>Inside the window: a placed frame ends within it.\<close>

lemma place_frame_bounds:
  assumes p: "place_frame H max_len f st = Ok (st', stop)" and u: "unat max_len \<le> usize_max H"
  shows "stop \<le> unat max_len" "byte_frontier st' = byte_frontier st" "ay_assembler st' = ay_assembler st"
    "ay_identity st' = ay_identity st" "ay_meta st' = ay_meta st" "length (ay_buf st') = max (length (ay_buf st)) stop"
    "ay_buf st' = place (unat (fr_offset f)) (take (unat max_len - unat (fr_offset f)) (fr_bytes f)) (ay_buf st)"
    "stop = unat (fr_offset f) + min (length (fr_bytes f)) (unat max_len - unat (fr_offset f))"
    "fr_offset f < max_len"
proof -
  have lt: "fr_offset f < max_len" using p by (auto simp: place_frame_def not_le split: if_splits)
  have d: "unat (max_len - fr_offset f) = unat max_len - unat (fr_offset f)"
    using lt by (simp add: unat_sub)
  have m: "as_usize H (fr_offset f) = unat (fr_offset f)"
    "as_usize H (max_len - fr_offset f) = unat max_len - unat (fr_offset f)"
    using lt u d by (auto simp: as_usize_def to_nat intro: mod_less)
  have e: "st' = st\<lparr>ay_buf := place (unat (fr_offset f)) (take (min (length (fr_bytes f)) (unat max_len - unat (fr_offset f))) (fr_bytes f)) (ay_buf st)\<rparr>
      \<and> stop = unat (fr_offset f) + min (length (fr_bytes f)) (unat max_len - unat (fr_offset f))"
    using p lt by (auto simp: place_frame_def Let_def m not_le[symmetric] split: option.splits if_splits)
  have tk: "take (min (length (fr_bytes f)) k) (fr_bytes f) = take k (fr_bytes f)" for k
    by (simp add: min_def)
  show "stop \<le> unat max_len" using e lt by (simp add: to_nat)
  show "byte_frontier st' = byte_frontier st" "ay_assembler st' = ay_assembler st"
    "ay_identity st' = ay_identity st" "ay_meta st' = ay_meta st" "fr_offset f < max_len"
    "stop = unat (fr_offset f) + min (length (fr_bytes f)) (unat max_len - unat (fr_offset f))"
    using e lt by simp_all
  show "ay_buf st' = place (unat (fr_offset f)) (take (unat max_len - unat (fr_offset f)) (fr_bytes f)) (ay_buf st)"
    using e tk by simp
  show "length (ay_buf st') = max (length (ay_buf st)) stop"
    using e by (simp add: tk)
qed

definition in_window :: "u64 \<Rightarrow> 'a assembly \<Rightarrow> bool" where
  "in_window max_len st \<longleftrightarrow> length (ay_buf st) \<le> unat max_len
     \<and> (ay_identity st = None \<longrightarrow> ay_assembler st = None)"

lemma frame_step_Ok:
  assumes s: "frame_step H dbg A max_len f st = Ok x"
  obtains st1 page where "accept_frame H dbg A f st = Ok (st1, page)"
    and "max_len = 0 \<longrightarrow> (x = Break st1 \<or> (x = Continue st1 \<and> page))"
    and "max_len \<noteq> 0 \<longrightarrow> (\<exists>st2 stop. place_frame H max_len f st1 = Ok (st2, stop)
          \<and> (x = Break st2 \<or> (x = Continue (st2\<lparr>byte_frontier := max (byte_frontier st2) stop\<rparr>)
                               \<and> (page \<or> byte_frontier st2 < stop))))"
  using s unfolding frame_step_def
  by (auto simp: and_then_Ok_iff split: if_splits)

lemma frame_step_progress:
  assumes prog: "assembler_progresses A filled cap" and u: "unat max_len \<le> usize_max H"
    and w: "in_window max_len st" and s: "frame_step H dbg A max_len f st = Ok (Continue st')"
  shows "in_window max_len st' \<and> stream_budget filled cap max_len st' < stream_budget filled cap max_len st"
proof -
  obtain st1 page where a: "accept_frame H dbg A f st = Ok (st1, page)"
    and z: "max_len = 0 \<longrightarrow> st' = st1 \<and> page"
    and nz: "max_len \<noteq> 0 \<longrightarrow> (\<exists>st2 stop. place_frame H max_len f st1 = Ok (st2, stop)
          \<and> st' = st2\<lparr>byte_frontier := max (byte_frontier st2) stop\<rparr> \<and> (page \<or> byte_frontier st2 < stop))"
    using frame_step_Ok[OF s] by (metis loop_step.distinct(1) loop_step.inject(2))
  have k: "ay_identity st1 \<noteq> None \<and> byte_frontier st1 = byte_frontier st \<and> ay_buf st1 = ay_buf st
    \<and> slots filled st \<le> slots filled st1 \<and> (page \<longrightarrow> slots filled st < slots filled st1 \<and> slots filled st1 \<le> cap)"
    by (rule accept_frame_slots[OF prog a]) (use w in \<open>simp add: in_window_def\<close>)
  show ?thesis
  proof (cases "max_len = 0")
    case True
    then show ?thesis using z k w by (auto simp: stream_budget_def in_window_def)
  next
    case False
    then obtain st2 stop where p: "place_frame H max_len f st1 = Ok (st2, stop)"
      and st': "st' = st2\<lparr>byte_frontier := max (byte_frontier st2) stop\<rparr>" "page \<or> byte_frontier st2 < stop"
      using nz by blast
    note b = place_frame_bounds[OF p u]
    have sl: "slots filled st' = slots filled st1" using st'(1) b(3) by (simp add: slots_def)
    have "in_window max_len st'" using st' b k w by (auto simp: in_window_def)
    moreover have "stream_budget filled cap max_len st' < stream_budget filled cap max_len st"
      using st' b(1,2) k sl by (auto simp: stream_budget_def max_def)
    ultimately show ?thesis by blast
  qed
qed

lemma assemble_loop_terminates:
  assumes prog: "assembler_progresses A filled cap" and u: "unat max_len \<le> usize_max H"
  shows "in_window max_len st \<Longrightarrow> stream_budget filled cap max_len st < fuel \<Longrightarrow>
     assemble_loop fuel H dbg A decode max_len st r \<noteq> None"
proof (induction fuel arbitrary: st r)
  case 0
  then show ?case by simp
next
  case (Suc fuel)
  obtain d r' where d: "decode r = (d, r')" by fastforce
  have "assemble_loop fuel H dbg A decode max_len st' r' \<noteq> None"
    if "frame_step H dbg A max_len f st = Ok (Continue st')" for f st'
    using Suc.IH[of st' r'] frame_step_progress[OF prog u Suc.prems(1) that] Suc.prems(2) by linarith
  then show ?case using d by (auto split: sum.splits option.splits loop_step.splits)
qed

text \<open>A finished assembly never holds more than the window.\<close>

lemma frame_step_in_window:
  assumes u: "unat max_len \<le> usize_max H" and w: "length (ay_buf st) \<le> unat max_len"
    and s: "frame_step H dbg A max_len f st = Ok x"
  shows "case x of Break st' \<Rightarrow> length (ay_buf st') \<le> unat max_len | Continue st' \<Rightarrow> length (ay_buf st') \<le> unat max_len"
proof -
  obtain st1 page where a: "accept_frame H dbg A f st = Ok (st1, page)"
    and z: "max_len = 0 \<longrightarrow> (x = Break st1 \<or> (x = Continue st1 \<and> page))"
    and nz: "max_len \<noteq> 0 \<longrightarrow> (\<exists>st2 stop. place_frame H max_len f st1 = Ok (st2, stop)
          \<and> (x = Break st2 \<or> (x = Continue (st2\<lparr>byte_frontier := max (byte_frontier st2) stop\<rparr>)
                               \<and> (page \<or> byte_frontier st2 < stop))))"
    using frame_step_Ok[OF s] by blast
  have b1: "ay_buf st1 = ay_buf st" by (rule accept_frame_buf[OF a])
  show ?thesis
  proof (cases "max_len = 0")
    case True
    then show ?thesis using z b1 w by auto
  next
    case False
    then obtain st2 stop where p: "place_frame H max_len f st1 = Ok (st2, stop)"
      and x: "x = Break st2 \<or> x = Continue (st2\<lparr>byte_frontier := max (byte_frontier st2) stop\<rparr>)"
      using nz by blast
    show ?thesis using place_frame_bounds(1,6)[OF p u] x b1 w by auto
  qed
qed

lemma assemble_loop_bounded:
  assumes u: "unat max_len \<le> usize_max H"
  shows "length (ay_buf st) \<le> unat max_len \<Longrightarrow>
     assemble_loop fuel H dbg A decode max_len st r = Some (Ok (bs, m), r') \<Longrightarrow> length bs \<le> unat max_len"
proof (induction fuel arbitrary: st r)
  case 0
  then show ?case by simp
next
  case (Suc fuel)
  obtain d r1 where d: "decode r = (d, r1)" by fastforce
  have fin: "length bs \<le> unat max_len" if "assembly_finish A st' = Ok (bs, m)" "length (ay_buf st') \<le> unat max_len" for st'
    using that by (auto simp: assembly_finish_def split: option.splits sum.splits)
  show ?case
  proof (cases d)
    case (Inl e)
    then show ?thesis using Suc.prems d by simp
  next
    case (Inr fo)
    show ?thesis
    proof (cases fo)
      case None
      then have "assembly_finish A st = Ok (bs, m)" using Suc.prems(2) d Inr by simp
      then show ?thesis using fin Suc.prems(1) by blast
    next
      case (Some f)
      show ?thesis
      proof (cases "frame_step H dbg A max_len f st")
        case (Inl e)
        then show ?thesis using Suc.prems d Inr Some by simp
      next
        case (Inr x)
        show ?thesis
          using Suc.prems Suc.IH d \<open>d = Ok fo\<close> Some Inr fin frame_step_in_window[OF u Suc.prems(1) Inr]
          by (cases x) auto
      qed
    qed
  qed
qed

section \<open>Properties\<close>

text \<open>
  The reassembly of a frame stream returns after at most as many frames as the window
  has bytes, the layout has entries, and one rest, whatever the holder sends, endless streams
  included; and it never holds more than the requested window. It is assumed that the
  assembler fills a new slot with every page it accepts.
\<close>

theorem stream_assembly_terminates:
  assumes "assembler_progresses A filled cap" and "unat max_len \<le> usize_max H"
    and "unat max_len + cap < fuel"
  shows "\<exists>res r'. assemble_range_stream fuel H dbg A decode max_len r = Some (res, r')
     \<and> (\<forall>bs m. res = Ok (bs, m) \<longrightarrow> length bs \<le> unat max_len)"
proof -
  have "assemble_range_stream fuel H dbg A decode max_len r \<noteq> None"
    unfolding assemble_range_stream_def
    by (rule assemble_loop_terminates[OF assms(1,2)])
      (use assms(3) in \<open>auto simp: in_window_def assembly_start_def stream_budget_def slots_def\<close>)
  moreover have "length bs \<le> unat max_len"
    if "assemble_range_stream fuel H dbg A decode max_len r = Some (Ok (bs, m), r')" for bs m r'
    using assemble_loop_bounded[OF assms(2), of assembly_start] that
    unfolding assemble_range_stream_def by (simp add: assembly_start_def)
  ultimately show ?thesis by fastforce
qed

text \<open>An endless stream of the same empty frame, and an assembler that counts its slots.\<close>

definition stuck_frame :: range_frame where
  "stuck_frame = \<lparr>fr_offset = 0, fr_bytes = [], fr_complete = False, fr_total_length = None,
     fr_chunk_lens = None, fr_chunk_lens_offset = None, fr_chunk_count = None, fr_chunk_index = None,
     fr_root = None, fr_inclusion_proof = None\<rparr>"

definition counting_assembler :: "(nat \<times> u64 list) chunk_lens_assembler" where
  "counting_assembler =
     \<lparr>asm_new = (\<lambda>n. if n \<le> 4 then Ok (n, []) else Err (lit ''too many'')),
      asm_accept_page = (\<lambda>off pg (n, ls). if pg \<noteq> [] \<and> unat off = length ls \<and> length ls + length pg \<le> min n 4
                           then Ok (n, ls @ pg) else Err (lit ''misaligned'')),
      asm_is_complete = (\<lambda>(n, ls). length ls = n),
      asm_into_chunk_lens = (\<lambda>(n, ls). if length ls = n then Ok ls else Err (lit ''short''))\<rparr>"

lemma counting_progresses: "assembler_progresses counting_assembler (\<lambda>(n, ls). length ls) 4"
  by (auto simp: assembler_progresses_def counting_assembler_def split: if_splits)

theorem stream_assembly_terminates_witness:
  "\<exists>e r'. assemble_range_stream 13 example_host id counting_assembler (\<lambda>r. (Ok (Some stuck_frame), r)) 8 () = Some (Err e, r')"
proof -
  obtain res r' where "assemble_range_stream 13 example_host id counting_assembler (\<lambda>r. (Ok (Some stuck_frame), r)) 8 () = Some (res, r')"
    using stream_assembly_terminates[OF counting_progresses, of 8 example_host 13 id "\<lambda>r. (Ok (Some stuck_frame), r)" "()"]
    by (auto simp: example_host_def)
  moreover have "\<not> is_ok (fst (the (assemble_range_stream (Suc 12) example_host id counting_assembler (\<lambda>r. (Ok (Some stuck_frame), r)) 8 ())))"
    unfolding assemble_range_stream_def assemble_loop.simps
    by (simp add: frame_step_def accept_frame_def accept_first_frame_def Let_def
        assembly_start_def stuck_frame_def place_frame_def as_usize_def example_host_def prologue_drained_def
        place_def range_meta_default_def)
  ultimately show ?thesis by (cases res) auto
qed

text \<open>
  After a failure a source is avoided for the base backoff doubled per consecutive failure,
  never beyond the configured maximum, so no source is banned for good; any other source is
  as available as before; and one success clears the window.
\<close>

theorem backoff_bounded:
  shows "is_available (record_failure p now T) p (now + max_backoff T)
    \<and> (q \<noteq> p \<longrightarrow> is_available (record_failure p now T) q t = is_available T q t)
    \<and> is_available (record_success p (record_failure p now T)) p t
    \<and> (unat (failures (health_of T p)) = k \<and> k < 16 \<and> base_backoff T * 2 ^ k < duration_limit \<longrightarrow>
        (is_available (record_failure p now T) p t \<longleftrightarrow> now + min (base_backoff T * 2 ^ k) (max_backoff T) \<le> t))"
proof -
  have av: "is_available (record_failure p now T) q t = (if q = p
      then (\<exists>b. backoff_until (health_of (record_failure p now T) p) = Some b \<and> b \<le> t) else is_available T q t)" for q t
    by (auto simp: is_available_def record_failure_def health_of_def Let_def update_conv')
  have b: "backoff_until (health_of (record_failure p now T) p) = Some
      (now + min (if base_backoff T * 2 ^ min (unat (saturating_sub (saturating_add (failures (health_of T p)) 1) 1)) 16 < duration_limit
                  then base_backoff T * 2 ^ min (unat (saturating_sub (saturating_add (failures (health_of T p)) 1) 1)) 16
                  else max_backoff T) (max_backoff T))"
    by (simp add: record_failure_def health_of_def Let_def update_conv')
  have sh: "min (unat (saturating_sub (saturating_add (failures (health_of T p)) 1) 1)) 16 = k"
    if "unat (failures (health_of T p)) = k" "k < 16"
    using that by (simp add: unat_saturating_sub unat_saturating_add)
  have s: "is_available (record_success p U) p t" for U
    by (simp add: is_available_def record_success_def Let_def update_conv')
  show ?thesis using s sh by (auto simp: av b)
qed

theorem backoff_bounded_witness:
  "\<not> is_available (record_failure [1] 5 (source_tracker_new 200 10000)) [1] 204
   \<and> is_available (record_failure [1] 5 (source_tracker_new 200 10000)) [1] 205"
  using backoff_bounded[of "[1]" 5 "source_tracker_new 200 10000" "[2]" 204 0]
    backoff_bounded[of "[1]" 5 "source_tracker_new 200 10000" "[2]" 205 0]
  by (simp add: source_tracker_new_def health_of_def source_health_default_def duration_limit_def)

lemma drain_loop_bounded:
  assumes rd: "\<forall>want r n r'. read want r = (Some n, r') \<longrightarrow> n \<le> want" and d: "drained \<le> cap"
  shows "fst (drain_loop H read cap drained r) \<le> cap"
  using d
proof (induction "cap - drained" arbitrary: drained r rule: less_induct)
  case less
  let ?w = "min ((cap - drained) mod (usize_max H + 1)) 4096"
  obtain x r' where x: "read ?w r = (x, r')" by fastforce
  show ?case
  proof (cases "drained < cap \<and> (\<exists>n. x = Some n \<and> n \<noteq> 0)")
    case True
    then obtain n where n: "x = Some n" "n \<noteq> 0" "drained < cap" by blast
    have "n \<le> ?w" using rd x n(1) by blast
    also have "\<dots> \<le> cap - drained" by (meson min.cobounded1 mod_less_eq_dividend order_trans)
    finally have "drained + n \<le> cap" using n(3) by simp
    then have "fst (drain_loop H read cap (drained + n) r') \<le> cap"
      by (rule less.hyps[rotated]) (use n in simp)
    then show ?thesis using x n by (subst drain_loop.simps) simp
  next
    case False
    then show ?thesis using x less.prems by (subst drain_loop.simps) (auto split: option.splits)
  qed
qed

text \<open>
  Draining a trailer stops after at most \<open>cap\<close> bytes, however long the peer keeps sending, as
  long as a read returns no more than it was asked for.
\<close>

theorem drain_bounded:
  assumes "\<forall>want r n r'. read want r = (Some n, r') \<longrightarrow> n \<le> want"
  shows "fst (drain_trailer_bounded H read cap r) \<le> unat cap"
  using drain_loop_bounded[OF assms, of 0 "unat cap"] by (simp add: drain_trailer_bounded_def)

theorem drain_bounded_witness:
  "fst (drain_trailer_bounded example_host (\<lambda>want r. (Some want, r)) max_trailer_drain ()) \<le> 65536"
  using drain_bounded[of "\<lambda>want r. (Some want, r)" example_host max_trailer_drain "()"]
  by (simp add: max_trailer_drain_def)

section \<open>Streams of frames\<close>

text \<open>A reader that holds the frames themselves.\<close>

definition decode_list :: "range_frame list decoder" where
  "decode_list fs = (case fs of [] \<Rightarrow> (Ok None, []) | f # fs' \<Rightarrow> (Ok (Some f), fs'))"

lemma decode_list_simps [simp]: "decode_list [] = (Ok None, [])" "decode_list (f # fs) = (Ok (Some f), fs)"
  by (simp_all add: decode_list_def)

definition same_or_silent :: "'a option \<Rightarrow> 'a option \<Rightarrow> bool" where
  "same_or_silent committed declared \<longleftrightarrow> declared = None \<or> declared = committed"

definition frame_agrees :: "stream_identity \<Rightarrow> range_frame \<Rightarrow> bool" where
  "frame_agrees ident f \<longleftrightarrow> same_or_silent (id_root ident) (fr_root f)
     \<and> same_or_silent (id_total_length ident) (fr_total_length f)
     \<and> same_or_silent (id_chunk_count ident) (fr_chunk_count f) \<and> fr_inclusion_proof f = None"

lemma check_unrevised_Ok_iff: "check_unrevised dbg field c d = Ok u \<longleftrightarrow> same_or_silent c d"
  by (auto simp: check_unrevised_def same_or_silent_def split: option.splits if_splits)

lemma advance_chunk_index_OkD:
  "advance_chunk_index f ident = Ok ident' \<Longrightarrow> \<exists>h. ident' = ident\<lparr>highest_chunk_index := h\<rparr>"
  by (cases ident) (auto simp: advance_chunk_index_def split: option.splits if_splits; blast)

lemma check_later_OkD:
  assumes "check_later_frame dbg f ident = Ok (v, ident')"
  shows "frame_agrees ident f \<and> frame_agrees ident' = frame_agrees ident"
proof -
  have a: "frame_agrees ident f"
    using assms by (auto simp: check_later_frame_def and_then_Ok_iff check_unrevised_Ok_iff frame_agrees_def split: if_splits)
  obtain i2 where i2: "advance_chunk_index f ident = Ok i2" "\<exists>p. ident' = i2\<lparr>prologue_frontier := p\<rparr>"
    using assms by (cases ident') (auto simp: check_later_frame_def and_then_Ok_iff Let_def split: if_splits option.splits; metis stream_identity.surjective stream_identity.update_convs(5))
  then obtain h p where "ident' = ident\<lparr>highest_chunk_index := h, prologue_frontier := p\<rparr>"
    using advance_chunk_index_OkD by blast
  then show ?thesis using a by (auto simp: frame_agrees_def fun_eq_iff)
qed

lemma place_frame_meta:
  "place_frame H max_len f st = Ok (st', stop) \<Longrightarrow> ay_identity st' = ay_identity st \<and> ay_meta st' = ay_meta st"
  by (auto simp: place_frame_def Let_def split: if_splits option.splits)

lemma frame_step_later:
  assumes "frame_step H dbg A max_len f st = Ok x" "ay_identity st = Some ident"
  shows "frame_agrees ident f \<and> (\<forall>st'. x = Break st' \<or> x = Continue st' \<longrightarrow>
     ay_meta st' = ay_meta st \<and> (\<exists>ident'. ay_identity st' = Some ident' \<and> frame_agrees ident' = frame_agrees ident))"
proof -
  obtain st1 page where a: "accept_frame H dbg A f st = Ok (st1, page)"
    and z: "max_len = 0 \<longrightarrow> (x = Break st1 \<or> (x = Continue st1 \<and> page))"
    and nz: "max_len \<noteq> 0 \<longrightarrow> (\<exists>st2 stop. place_frame H max_len f st1 = Ok (st2, stop)
          \<and> (x = Break st2 \<or> (x = Continue (st2\<lparr>byte_frontier := max (byte_frontier st2) stop\<rparr>)
                               \<and> (page \<or> byte_frontier st2 < stop))))"
    using frame_step_Ok[OF assms(1)] by blast
  have "accept_later_frame dbg A f ident st = Ok (st1, page)" using a assms(2) by (simp add: accept_frame_def)
  from accept_later_OkD[OF this] obtain v ident' y where c: "check_later_frame dbg f ident = Ok (v, ident')"
    and st1: "st1 = st\<lparr>ay_identity := Some ident', ay_assembler := y\<rparr>" by blast
  note k = check_later_OkD[OF c]
  show ?thesis
  proof (cases "max_len = 0")
    case True
    then show ?thesis using z st1 k by auto
  next
    case False
    then obtain st2 stop where "place_frame H max_len f st1 = Ok (st2, stop)"
      "x = Break st2 \<or> x = Continue (st2\<lparr>byte_frontier := max (byte_frontier st2) stop\<rparr>)" using nz by blast
    then show ?thesis using place_frame_meta st1 k by fastforce
  qed
qed

lemma assembly_finish_meta:
  "assembly_finish A st = Ok (bs, m) \<Longrightarrow> \<exists>x. m = (ay_meta st)\<lparr>rm_chunk_lens := x\<rparr>"
  by (cases "ay_meta st"; cases m) (auto simp: assembly_finish_def split: option.splits sum.splits)

lemma assemble_loop_agrees:
  "ay_identity st = Some ident \<Longrightarrow> assemble_loop fuel H dbg A decode_list max_len st fs = Some (Ok (bs, m), rest) \<Longrightarrow>
   \<exists>used x. fs = used @ rest \<and> list_all (frame_agrees ident) used \<and> m = (ay_meta st)\<lparr>rm_chunk_lens := x\<rparr>"
proof (induction fuel arbitrary: st ident fs)
  case 0
  then show ?case by simp
next
  case (Suc fuel)
  show ?case
  proof (cases fs)
    case Nil
    then show ?thesis using Suc.prems assembly_finish_meta by force
  next
    case (Cons f fs')
    show ?thesis
    proof (cases "frame_step H dbg A max_len f st")
      case (Inl e)
      then show ?thesis using Suc.prems Cons by simp
    next
      case (Inr x)
      note l = frame_step_later[OF Inr Suc.prems(1)]
      show ?thesis
      proof (cases x)
        case (Break st')
        then have "assembly_finish A st' = Ok (bs, m)" "rest = fs'"
          using Suc.prems(2) Cons Inr by (simp_all add:)
        then show ?thesis using l Break Cons assembly_finish_meta[of A st' bs m]
          by (intro exI[of _ "[f]"]) auto
      next
        case (Continue st')
        then have run: "assemble_loop fuel H dbg A decode_list max_len st' fs' = Some (Ok (bs, m), rest)"
          using Suc.prems(2) Cons Inr by simp
        obtain ident' where i: "ay_identity st' = Some ident'" "frame_agrees ident' = frame_agrees ident"
          "ay_meta st' = ay_meta st" using l Continue by blast
        from Suc.IH[OF i(1) run] i obtain used y where
          "fs' = used @ rest" "list_all (frame_agrees ident) used" "m = (ay_meta st)\<lparr>rm_chunk_lens := y\<rparr>" by auto
        then show ?thesis using l Cons by (intro exI[of _ "f # used"]) auto
      qed
    qed
  qed
qed

text \<open>
  C31: a stream that is accepted declares one identity: the metadata returned is the first frame's
  (its layout completed from the pages that followed), and every later frame that was read
  repeats the first frame's root, total length and chunk count or leaves them out, and never
  restates the inclusion proof.
\<close>

theorem stream_declares_one_identity:
  assumes "assemble_range_stream fuel H dbg A decode_list max_len (f # fs) = Some (Ok (bs, m), rest)"
  shows "\<exists>used. fs = used @ rest
     \<and> list_all (frame_agrees (identity_from_first_frame f)) used
     \<and> rm_root m = fr_root f \<and> rm_total_length m = fr_total_length f
     \<and> rm_chunk_count m = fr_chunk_count f \<and> rm_inclusion_proof m = fr_inclusion_proof f"
proof (cases fuel)
  case 0
  then show ?thesis using assms by (simp add: assemble_range_stream_def)
next
  case (Suc n)
  let ?run = "assemble_loop fuel H dbg A decode_list max_len assembly_start (f # fs)"
  obtain x where s: "frame_step H dbg A max_len f (assembly_start :: 'a assembly) = Ok x"
    using assms Suc by (cases "frame_step H dbg A max_len f (assembly_start :: 'a assembly)")
      (auto simp: assemble_range_stream_def)
  have first: "ay_identity st' = Some (identity_from_first_frame f) \<and> ay_meta st' = meta_from_frame f"
    if "x = Break st' \<or> x = Continue st'" for st'
  proof -
    obtain st1 page where a: "accept_frame H dbg A f assembly_start = Ok (st1, page)"
      and "max_len = 0 \<longrightarrow> (x = Break st1 \<or> (x = Continue st1 \<and> page))"
      and "max_len \<noteq> 0 \<longrightarrow> (\<exists>st2 stop. place_frame H max_len f st1 = Ok (st2, stop)
          \<and> (x = Break st2 \<or> (x = Continue (st2\<lparr>byte_frontier := max (byte_frontier st2) stop\<rparr>)
                               \<and> (page \<or> byte_frontier st2 < stop))))"
      using frame_step_Ok[OF s] by blast
    moreover have "ay_identity st1 = Some (identity_from_first_frame f) \<and> ay_meta st1 = meta_from_frame f"
      using accept_first_OkD[of H A f assembly_start st1 page] a by (auto simp: accept_frame_def assembly_start_def)
    ultimately show ?thesis using that place_frame_meta by (cases "max_len = 0") fastforce+
  qed
  show ?thesis
  proof (cases x)
    case (Break st')
    then have "assembly_finish A st' = Ok (bs, m)" "rest = fs"
      using assms Suc s by (simp_all add: assemble_range_stream_def)
    then show ?thesis using first[of st'] Break assembly_finish_meta[of A st' bs m]
      by (auto simp: meta_from_frame_def)
  next
    case (Continue st')
    then have "assemble_loop n H dbg A decode_list max_len st' fs = Some (Ok (bs, m), rest)"
      using assms Suc s by (simp add: assemble_range_stream_def)
    from assemble_loop_agrees[OF _ this] first[of st'] Continue show ?thesis
      by (auto simp: meta_from_frame_def)
  qed
qed

definition data_frame :: "nat \<Rightarrow> bytes \<Rightarrow> bool \<Rightarrow> range_frame" where
  "data_frame off bs fin = stuck_frame\<lparr>fr_offset := of_nat off, fr_bytes := bs, fr_complete := fin\<rparr>"

lemma example_stream:
  "assemble_range_stream (Suc (Suc (Suc 0))) example_host id counting_assembler decode_list 4
     [(data_frame 0 [1, 2] False)\<lparr>fr_root := Some [97]\<rparr>, data_frame 2 [3, 4, 5] False, stuck_frame]
   = Some (Ok ([1, 2, 3, 4], range_meta_default\<lparr>rm_root := Some [97]\<rparr>), [stuck_frame])"
  unfolding assemble_range_stream_def assemble_loop.simps
  by (simp add: frame_step_def accept_frame_def accept_first_frame_def accept_later_frame_def Let_def
        assembly_start_def data_frame_def stuck_frame_def place_frame_def as_usize_def example_host_def prologue_drained_def
        place_def range_meta_default_def meta_from_frame_def identity_from_first_frame_def check_later_frame_def
        check_unrevised_def advance_chunk_index_def assembly_finish_def or_zero_def page_len_def)

theorem stream_declares_one_identity_witness:
  "\<exists>used. [data_frame 2 [3, 4, 5] False, stuck_frame] = used @ [stuck_frame]
     \<and> list_all (frame_agrees (identity_from_first_frame ((data_frame 0 [1, 2] False)\<lparr>fr_root := Some [97]\<rparr>))) used"
  using stream_declares_one_identity[OF example_stream] by blast

section \<open>A conforming holder\<close>

text \<open>The frames of a holder that sends the pieces of a range one after the other.\<close>

fun serve :: "nat \<Rightarrow> bytes list \<Rightarrow> range_frame list" where
  "serve off [] = []"
| "serve off (bs # bss) = data_frame off bs False # serve (off + length bs) bss"

lemma place_append: "length buf = off \<Longrightarrow> place off bs buf = buf @ bs"
  by (auto simp: place_def Let_def)

definition silent_frame :: "range_frame \<Rightarrow> bool" where
  "silent_frame f \<longleftrightarrow> fr_total_length f = None \<and> fr_chunk_lens f = None \<and> fr_chunk_count f = None
     \<and> fr_chunk_index f = None \<and> fr_root f = None \<and> fr_inclusion_proof f = None"

lemma check_later_silent: "silent_frame f \<Longrightarrow> check_later_frame dbg f ident = Ok (Continuation, ident)"
  by (simp add: silent_frame_def check_later_frame_def check_unrevised_def advance_chunk_index_def)

lemma accept_silent:
  "silent_frame f \<Longrightarrow> ay_identity st = Some ident \<Longrightarrow> accept_frame H dbg A f st = Ok (st, False)"
  by (cases st) (simp add: accept_frame_def accept_later_frame_def check_later_silent Let_def)

lemma place_next:
  assumes "fr_offset f < max_len" and "length (ay_buf st) = unat (fr_offset f)"
    and "\<forall>n \<le> unat max_len. reserve_refusal H n = None" and "unat max_len \<le> usize_max H"
  shows "place_frame H max_len f st =
     Ok (st\<lparr>ay_buf := ay_buf st @ take (unat max_len - unat (fr_offset f)) (fr_bytes f)\<rparr>,
         unat (fr_offset f) + min (length (fr_bytes f)) (unat max_len - unat (fr_offset f)))"
proof -
  have m: "as_usize H (fr_offset f) = unat (fr_offset f)"
    "as_usize H (max_len - fr_offset f) = unat max_len - unat (fr_offset f)"
    using assms(1,4) by (auto simp: as_usize_def to_nat unat_sub)
  have tk: "take (min (length (fr_bytes f)) k) (fr_bytes f) = take k (fr_bytes f)" for k
    by (simp add: min_def)
  have "reserve_refusal H (min (length (fr_bytes f)) (unat max_len - unat (fr_offset f))) = None"
    using assms(3) by (simp add: min_le_iff_disj)
  then show ?thesis
    using assms(1) by (auto simp: place_frame_def Let_def m assms(2) place_append tk not_le)
qed

text \<open>The last byte placed decides whether the stream goes on.\<close>

lemma step_next:
  assumes f: "fr_offset f < max_len" "\<not> fr_complete f" "fr_bytes f \<noteq> []"
    and a: "accept_frame H dbg A f st = Ok (st1, page)" and d: "ay_assembler st1 = None"
    and b: "length (ay_buf st1) = unat (fr_offset f)" "byte_frontier st1 = unat (fr_offset f)"
    and h: "\<forall>n \<le> unat max_len. reserve_refusal H n = None" "unat max_len \<le> usize_max H"
  shows "frame_step H dbg A max_len f st = Ok
     (let st2 = st1\<lparr>ay_buf := take (unat max_len) (ay_buf st1 @ fr_bytes f)\<rparr>
      in if unat max_len \<le> unat (fr_offset f) + length (fr_bytes f) then Break st2
         else Continue (st2\<lparr>byte_frontier := unat (fr_offset f) + length (fr_bytes f)\<rparr>))"
proof -
  have nz: "max_len \<noteq> 0" and lt: "unat (fr_offset f) < unat max_len" using f(1) by (auto simp: to_nat)
  note p = place_next[OF f(1) b(1) h]
  have buf: "ay_buf st1 @ take (unat max_len - unat (fr_offset f)) (fr_bytes f) = take (unat max_len) (ay_buf st1 @ fr_bytes f)"
    using b(1) lt by simp
  have pd: "prologue_drained A st1" using d by (simp add: prologue_drained_def)
  have n: "0 < length (fr_bytes f)" using f(3) by simp
  show ?thesis
    unfolding frame_step_def a and_then.simps prod.case p buf
    using nz pd f(2) b lt n by (auto simp: Let_def min_def max_def)
qed

lemma unat_of_nat_small: "n < 2 ^ 64 \<Longrightarrow> unat (of_nat n :: u64) = n"
  by (simp add: unat_of_nat)

lemma serve_assembles:
  assumes h: "\<forall>n \<le> unat max_len. reserve_refusal H n = None" "unat max_len \<le> usize_max H"
  shows "bss \<noteq> [] \<Longrightarrow> list_all (\<lambda>bs. bs \<noteq> []) bss \<Longrightarrow> off + length (concat (butlast bss)) < unat max_len
    \<Longrightarrow> unat max_len \<le> off + length (concat bss) \<Longrightarrow> ay_identity st = Some ident \<Longrightarrow> ay_assembler st = None
    \<Longrightarrow> length (ay_buf st) = off \<Longrightarrow> byte_frontier st = off \<Longrightarrow> length bss \<le> fuel
    \<Longrightarrow> assemble_loop fuel H dbg A decode_list max_len st (serve off bss @ rest)
        = Some (Ok (take (unat max_len) (ay_buf st @ concat bss), ay_meta st), rest)"
proof (induction bss arbitrary: off st fuel)
  case Nil
  then show ?case by simp
next
  case (Cons bs bss)
  obtain n where fuel: "fuel = Suc n" using Cons.prems by (cases fuel) auto
  let ?f = "data_frame off bs False"
  have off: "off < unat max_len" using Cons.prems(3) by simp
  then have o64: "unat (of_nat off :: u64) = off" using unat_bound[of max_len] by (intro unat_of_nat_small) simp
  have f: "fr_offset ?f = of_nat off" "fr_bytes ?f = bs" "\<not> fr_complete ?f" "silent_frame ?f"
    by (simp_all add: data_frame_def stuck_frame_def silent_frame_def)
  have lt: "fr_offset ?f < max_len" using off o64 f by (simp add: to_nat)
  note acc = accept_silent[OF f(4) Cons.prems(5), of H dbg A]
  have st: "frame_step H dbg A max_len ?f st = Ok
     (let st2 = st\<lparr>ay_buf := take (unat max_len) (ay_buf st @ bs)\<rparr>
      in if unat max_len \<le> off + length bs then Break st2
         else Continue (st2\<lparr>byte_frontier := off + length bs\<rparr>))"
    using step_next[OF lt f(3) _ acc _ _ _ h] Cons.prems f o64 by (simp add: Let_def)
  show ?case
  proof (cases "unat max_len \<le> off + length bs")
    case True
    have e: "bss = []"
    proof (rule ccontr)
      assume "bss \<noteq> []"
      then have "off + length bs \<le> off + length (concat (butlast (bs # bss)))" by simp
      then show False using True Cons.prems(3) by simp
    qed
    show ?thesis
      using st True Cons.prems(6) e by (simp add: fuel Let_def assembly_finish_def)
  next
    case False
    have ne: "bss \<noteq> []" using False Cons.prems(4) by auto
    let ?st = "st\<lparr>ay_buf := take (unat max_len) (ay_buf st @ bs), byte_frontier := off + length bs\<rparr>"
    have tk: "take (unat max_len) (ay_buf st @ bs) = ay_buf st @ bs"
      using False Cons.prems(7) by simp
    have "assemble_loop n H dbg A decode_list max_len ?st (serve (off + length bs) bss @ rest)
        = Some (Ok (take (unat max_len) (ay_buf ?st @ concat bss), ay_meta ?st), rest)"
      by (rule Cons.IH) (use Cons.prems ne fuel tk in \<open>auto simp: add.assoc\<close>)
    then have "assemble_loop n H dbg A decode_list max_len ?st (serve (off + length bs) bss @ rest)
        = Some (Ok (take (unat max_len) (ay_buf st @ concat (bs # bss)), ay_meta st), rest)"
      using tk by (simp del: take_append)
    then show ?thesis using st False tk by (simp add: fuel Let_def del: take_append)
  qed
qed



end
