(* ===== verification/Orchestrator.thy ===== *)
theory Orchestrator
  imports Plan Verify Sink Progress Gc Addr Select Source
begin

text \<open>
  The multi-source downloader (\<^verbatim>\<open>src/src/orchestrator.rs\<close>): a job's state, the steps of its
  task in the order the code has them (discover and confirm, establish the layout, plan,
  rehydrate, schedule, verify, promote), and the scheduler loop.

  Everything outside the job is a parameter: the sink and the state store by their records of
  operations, the verifier and the digest, and an environment that answers discovery,
  availability and range requests, holds the selector and the clock, and says which branch of
  the scheduler's \<open>select!\<close> is taken next. The loop runs on fuel, since a paused download may
  wait for ever. Events are kept in the order they are emitted.
\<close>

section \<open>Content, requests and configuration\<close>

datatype content_id =
    StoreContent bytes
  | RootContent bytes bytes
  | ResourceContent bytes bytes bytes

record availability_item =
  ai_store_id :: rstring
  ai_root :: "rstring option"
  ai_retrieval_key :: "rstring option"

record range_request =
  rq_store_id :: rstring
  rq_retrieval_key :: "rstring option"
  rq_offset :: u64
  rq_length :: u64
  rq_root :: "rstring option"
  rq_skip_layout :: bool

record download_config =
  window :: u64
  max_concurrency :: nat
  max_inflight_per_source :: nat
  cf_base_backoff :: nat
  cf_max_backoff :: nat
  max_relocate_attempts :: nat
  max_range_attempts :: nat
  max_resource_size :: u64
  verify_whole_resource :: bool
  range_timeout :: "nat option"
  refresh_interval :: "nat option"

definition default_range_timeout :: nat where "default_range_timeout = 30 * 10 ^ 9"
definition default_refresh_interval :: nat where "default_refresh_interval = 15 * 10 ^ 9"

definition download_config_default :: download_config where
  "download_config_default =
     \<lparr>window = 3 * 1024 * 1024, max_concurrency = 8, max_inflight_per_source = 4,
      cf_base_backoff = 200 * 10 ^ 6, cf_max_backoff = 10 * 10 ^ 9, max_relocate_attempts = 4,
      max_range_attempts = 6, max_resource_size = default_max_resource_size,
      verify_whole_resource = True, range_timeout = Some default_range_timeout,
      refresh_interval = Some default_refresh_interval\<rparr>"

record download_options =
  start_paused :: bool
  resume_key :: "rstring option"

datatype control = Pause | Resume | Cancel

text \<open>The handle's control channel holds sixteen messages; a message to a full channel is dropped.\<close>

definition control_capacity :: nat where "control_capacity = 16"

definition try_send :: "control \<Rightarrow> control list \<Rightarrow> control list" where
  "try_send c q = (if length q < control_capacity then q @ [c] else q)"

definition handle_join :: "(download_error + u64) option \<Rightarrow> download_error + u64" where
  "handle_join r = (case r of Some res \<Rightarrow> res | None \<Rightarrow> Err TaskEnded)"

text \<open>What may wake the scheduler: the branches of its \<open>select!\<close>.\<close>

datatype turn =
    GotControl "control option"
  | FetchDone nat nat "download_error + fetched_range"
  | BackoffElapsed
  | RefreshDue

record 'w env =
  en_find_providers :: "content_id \<Rightarrow> 'w \<Rightarrow> (download_error + provider_record list) \<times> 'w"
  en_availability :: "provider_record \<Rightarrow> availability_item list \<Rightarrow> 'w \<Rightarrow> (download_error + bool list) \<times> 'w"
  en_fetch_range :: "provider_record \<Rightarrow> range_request \<Rightarrow> 'w \<Rightarrow> (nat \<times> (download_error + fetched_range)) \<times> 'w"
  en_now :: "'w \<Rightarrow> nat"
  en_turn :: "'w \<Rightarrow> turn \<times> 'w"
  en_selector :: "'w selector_ops"
  en_ips :: ip_ops
  en_show_content :: "content_id \<Rightarrow> rstring"
  en_content_key :: "content_id \<Rightarrow> rstring"

record ('s, 't, 'h, 'w) deps =
  dp_sink :: "'s sink_ops"
  dp_store :: "'t state_ops"
  dp_verifier :: verifier_ops
  dp_hash :: "'h hash_ops"
  dp_env :: "'w env"
  dp_config :: download_config
  dp_host :: host

record fetch_job =
  fj_range :: nat
  fj_peer :: rstring
  fj_provider :: "provider_record option"
  fj_request :: "download_error + range_request"

record ('s, 't, 'h, 'w) job =
  jb_content :: content_id
  jb_key :: rstring
  jb_sink :: 's
  jb_store :: 't
  jb_world :: 'w
  jb_registry :: active_downloads
  jb_providers :: "provider_record list"
  jb_commitment :: "resource_commitment option"
  jb_ranges :: "range list"
  jb_range_state :: "range_state list"
  jb_tracker :: source_tracker
  jb_inflight_per_source :: "(rstring \<times> nat) list"
  jb_resume :: download_state
  jb_paused :: bool
  jb_bytes_done :: u64
  jb_hasher :: "'h resource_hasher option"
  jb_relocate_attempts :: nat
  jb_relocated_since_progress :: bool
  jb_total_failures :: nat
  jb_last_refresh :: nat
  jb_inflight :: "fetch_job list"
  jb_events :: "download_event list"

definition download_key :: "'w env \<Rightarrow> content_id \<Rightarrow> rstring" where
  "download_key E c = en_content_key E c"

text \<open>\<open>Downloader::download\<close>: the job a call starts with.\<close>

definition job_new ::
    "('s, 't, 'h, 'w) deps \<Rightarrow> content_id \<Rightarrow> download_options \<Rightarrow> 's \<Rightarrow> 't \<Rightarrow> active_downloads \<Rightarrow> 'w \<Rightarrow> ('s, 't, 'h, 'w) job" where
  "job_new D c opts s t R w =
     \<lparr>jb_content = c,
      jb_key = (case resume_key opts of Some k \<Rightarrow> k | None \<Rightarrow> download_key (dp_env D) c),
      jb_sink = s, jb_store = t, jb_world = w, jb_registry = R, jb_providers = [],
      jb_commitment = None, jb_ranges = [], jb_range_state = [],
      jb_tracker = source_tracker_new (cf_base_backoff (dp_config D)) (cf_max_backoff (dp_config D)),
      jb_inflight_per_source = [], jb_resume = download_state_new [], jb_paused = start_paused opts,
      jb_bytes_done = 0, jb_hasher = None, jb_relocate_attempts = 0, jb_relocated_since_progress = False,
      jb_total_failures = 0, jb_last_refresh = en_now (dp_env D) w, jb_inflight = [], jb_events = []\<rparr>"

section \<open>Small steps of a job\<close>

definition emit :: "download_event \<Rightarrow> ('s, 't, 'h, 'w) job \<Rightarrow> ('s, 't, 'h, 'w) job" where
  "emit e J = J\<lparr>jb_events := jb_events J @ [e]\<rparr>"

definition checkpoint :: "('s, 't, 'h, 'w) deps \<Rightarrow> ('s, 't, 'h, 'w) job \<Rightarrow> (download_error + unit) \<times> ('s, 't, 'h, 'w) job" where
  "checkpoint D J =
     (case ss_save (dp_store D) (jb_resume J) (jb_store J) of (r, t) \<Rightarrow> (r, J\<lparr>jb_store := t\<rparr>))"

definition clear_checkpoint :: "('s, 't, 'h, 'w) deps \<Rightarrow> ('s, 't, 'h, 'w) job \<Rightarrow> ('s, 't, 'h, 'w) job" where
  "clear_checkpoint D J =
     (case ss_clear (dp_store D) (jb_key J) (jb_store J) of (r, t) \<Rightarrow> J\<lparr>jb_store := t\<rparr>)"

definition truncate_staging :: "('s, 't, 'h, 'w) deps \<Rightarrow> ('s, 't, 'h, 'w) job \<Rightarrow> ('s, 't, 'h, 'w) job" where
  "truncate_staging D J = (case sk_truncate (dp_sink D) 0 (jb_sink J) of (r, s) \<Rightarrow> J\<lparr>jb_sink := s\<rparr>)"

definition availability_item :: "content_id \<Rightarrow> download_error + availability_item" where
  "availability_item c =
     (case c of
        StoreContent s \<Rightarrow> Err NotDownloadable
      | RootContent s r \<Rightarrow> Ok \<lparr>ai_store_id = hex_of s, ai_root = Some (hex_of r), ai_retrieval_key = None\<rparr>
      | ResourceContent s r k \<Rightarrow>
          Ok \<lparr>ai_store_id = hex_of s, ai_root = Some (hex_of r), ai_retrieval_key = Some (hex_of k)\<rparr>)"

definition content_root_hex :: "content_id \<Rightarrow> rstring option" where
  "content_root_hex c =
     (case c of StoreContent s \<Rightarrow> None | RootContent s r \<Rightarrow> Some (hex_of r) | ResourceContent s r k \<Rightarrow> Some (hex_of r))"

definition range_request_for :: "content_id \<Rightarrow> u64 \<Rightarrow> u64 \<Rightarrow> bool \<Rightarrow> download_error + range_request" where
  "range_request_for c off n skip =
     (case c of
        StoreContent s \<Rightarrow> Err NotDownloadable
      | RootContent s r \<Rightarrow>
          Ok \<lparr>rq_store_id = hex_of s, rq_retrieval_key = None, rq_offset = off, rq_length = n,
              rq_root = Some (hex_of r), rq_skip_layout = skip\<rparr>
      | ResourceContent s r k \<Rightarrow>
          Ok \<lparr>rq_store_id = hex_of s, rq_retrieval_key = Some (hex_of k), rq_offset = off, rq_length = n,
              rq_root = Some (hex_of r), rq_skip_layout = skip\<rparr>)"

section \<open>Discovery\<close>

fun confirm_holders ::
    "'w env \<Rightarrow> availability_item \<Rightarrow> provider_record list \<Rightarrow> 'w \<Rightarrow> provider_record list \<times> 'w" where
  "confirm_holders E item [] w = ([], w)"
| "confirm_holders E item (p # ps) w =
     (case en_availability E p [item] w of
        (answered, w') \<Rightarrow>
          (case confirm_holders E item ps w' of
             (confirmed, w'') \<Rightarrow>
               (case answered of
                  Ok (True # _) \<Rightarrow> (p # confirmed, w'')
                | _ \<Rightarrow> (confirmed, w''))))"

definition locate_and_confirm ::
    "('s, 't, 'h, 'w) deps \<Rightarrow> ('s, 't, 'h, 'w) job \<Rightarrow> (download_error + provider_record list) \<times> ('s, 't, 'h, 'w) job" where
  "locate_and_confirm D J =
     (case en_find_providers (dp_env D) (jb_content J) (jb_world J) of
        (Err e, w) \<Rightarrow> (Err e, J\<lparr>jb_world := w\<rparr>)
      | (Ok found, w) \<Rightarrow>
          (case availability_item (jb_content J) of
             Err e \<Rightarrow> (Err e, J\<lparr>jb_world := w\<rparr>)
           | Ok item \<Rightarrow>
               (case confirm_holders (dp_env D) item found w of
                  (confirmed, w') \<Rightarrow> (Ok confirmed, J\<lparr>jb_world := w'\<rparr>))))"

definition discover_more ::
    "('s, 't, 'h, 'w) deps \<Rightarrow> ('s, 't, 'h, 'w) job \<Rightarrow> (download_error + nat) \<times> ('s, 't, 'h, 'w) job" where
  "discover_more D J =
     (case locate_and_confirm D J of
        (Err e, J1) \<Rightarrow> (Err e, J1)
      | (Ok more_providers, J1) \<Rightarrow>
          (let known = map provider_peer_id (jb_providers J1);
               fresh_ones = filter (\<lambda>p. provider_peer_id p \<notin> set known) more_providers;
               J2 = J1\<lparr>jb_providers := jb_providers J1 @ fresh_ones\<rparr>
           in (Ok (length fresh_ones),
               if 0 < length fresh_ones then emit (ProvidersRefreshed (length (jb_providers J2))) J2 else J2)))"

definition relocate ::
    "('s, 't, 'h, 'w) deps \<Rightarrow> ('s, 't, 'h, 'w) job \<Rightarrow> (download_error + nat) \<times> ('s, 't, 'h, 'w) job" where
  "relocate D J = discover_more D (J\<lparr>jb_relocate_attempts := jb_relocate_attempts J + 1\<rparr>)"

section \<open>The commitment\<close>

text \<open>A fetch under the range timeout; one that takes longer than the limit is abandoned.\<close>

definition timed_result :: "nat option \<Rightarrow> rstring \<Rightarrow> nat \<Rightarrow> download_error + fetched_range \<Rightarrow> download_error + fetched_range" where
  "timed_result limit peer elapsed res =
     (case limit of
        None \<Rightarrow> res
      | Some l \<Rightarrow> if l < elapsed then Err (Timeout peer) else res)"

definition probe_metadata ::
    "('s, 't, 'h, 'w) deps \<Rightarrow> provider_record \<Rightarrow> range_request \<Rightarrow> 'w \<Rightarrow> (download_error + fetched_range) \<times> 'w" where
  "probe_metadata D p req w =
     (case en_fetch_range (dp_env D) p req w of
        ((elapsed, res), w') \<Rightarrow> (timed_result (range_timeout (dp_config D)) (provider_peer_id p) elapsed res, w'))"

definition check_declared_root :: "rstring option \<Rightarrow> rstring option \<Rightarrow> rstring + unit" where
  "check_declared_root want got =
     (case want of
        None \<Rightarrow> Ok ()
      | Some w \<Rightarrow>
          (case got of
             Some g \<Rightarrow>
               if g = w then Ok ()
               else Err (lit ''serves generation root '' @ hex64_or_sentinel g (lit ''root'')
                         @ lit '', not the requested '' @ w)
           | None \<Rightarrow>
               Err (lit ''states no generation root, so it cannot be checked against the requested '' @ w)))"

definition adopt_layout ::
    "('s, 't, 'h, 'w) deps \<Rightarrow> content_id \<Rightarrow> provider_record \<Rightarrow> fetched_range \<Rightarrow> rstring + resource_commitment" where
  "adopt_layout D c p fetched =
     (let m = fetched_meta fetched
      in and_then (check_declared_root (content_root_hex c) (rm_root m)) (\<lambda>_.
           case (rm_total_length m, rm_chunk_lens m) of
             (Some tot, Some lens) \<Rightarrow>
               (let build = map_err verify_error_display
                      (from_first_frame_bounded (dp_host D) tot lens (rm_root m) (rm_inclusion_proof m)
                         (max_resource_size (dp_config D)))
                in case rm_chunk_count m of
                     Some declared \<Rightarrow>
                       if declared \<noteq> len64 lens
                       then Err (download_error_display
                                   (PagedPrologueUnsupported (provider_peer_id p) declared (len64 lens)))
                       else build
                   | None \<Rightarrow> build)
           | _ \<Rightarrow> Err (lit ''first frame declared no total_length/chunk_lens'')))"

definition probe_note :: "provider_record \<Rightarrow> rstring \<Rightarrow> rstring" where
  "probe_note p reason = hex64_or_sentinel (provider_peer_id p) (lit ''peer-id'') @ lit '': '' @ reason"

text \<open>Probe the holders in discovery order; the first layout that survives every gate wins.\<close>

fun probe_holders ::
    "('s, 't, 'h, 'w) deps \<Rightarrow> content_id \<Rightarrow> provider_record list \<Rightarrow> rstring list \<Rightarrow> 'w
     \<Rightarrow> (download_error + (resource_commitment option \<times> rstring list)) \<times> 'w" where
  "probe_holders D c [] reasons w = (Ok (None, reasons), w)"
| "probe_holders D c (p # ps) reasons w =
     (case range_request_for c 0 1 False of
        Err e \<Rightarrow> (Err e, w)
      | Ok req \<Rightarrow>
          (case probe_metadata D p req w of
             (Err e, w') \<Rightarrow>
               probe_holders D c ps
                 (reasons @ [probe_note p (lit ''metadata probe failed: '' @ download_error_display e)]) w'
           | (Ok fetched, w') \<Rightarrow>
               (case adopt_layout D c p fetched of
                  Ok C \<Rightarrow> (Ok (Some C, reasons), w')
                | Err reason \<Rightarrow> probe_holders D c ps (reasons @ [probe_note p reason]) w')))"

definition establish_commitment ::
    "('s, 't, 'h, 'w) deps \<Rightarrow> ('s, 't, 'h, 'w) job \<Rightarrow> (download_error + unit) \<times> ('s, 't, 'h, 'w) job" where
  "establish_commitment D J =
     (case probe_holders D (jb_content J) (jb_providers J) [] (jb_world J) of
        (Err e, w) \<Rightarrow> (Err e, J\<lparr>jb_world := w\<rparr>)
      | (Ok (Some C, reasons), w) \<Rightarrow> (Ok (), J\<lparr>jb_world := w, jb_commitment := Some C\<rparr>)
      | (Ok (None, reasons), w) \<Rightarrow>
          (let e = MetadataProbeFailed (en_show_content (dp_env D) (jb_content J)) (length (jb_providers J)) reasons
           in (Err e, emit (Failed (download_error_display e)) (J\<lparr>jb_world := w\<rparr>))))"

definition persist_commitment ::
    "('s, 't, 'h, 'w) deps \<Rightarrow> ('s, 't, 'h, 'w) job \<Rightarrow> (download_error + unit) \<times> ('s, 't, 'h, 'w) job" where
  "persist_commitment D J =
     (case jb_commitment J of
        None \<Rightarrow> (Ok (), J)
      | Some C \<Rightarrow>
          checkpoint D (J\<lparr>jb_resume := (jb_resume J)
             \<lparr>st_total_length := c_total_length C, st_chunk_lens := chunk_lens (c_layout C),
              st_root := c_root C, st_inclusion_proof := c_inclusion_proof C\<rparr>\<rparr>))"

definition discard_bytes_staged_for_another_plan ::
    "('s, 't, 'h, 'w) deps \<Rightarrow> ('s, 't, 'h, 'w) job \<Rightarrow> ('s, 't, 'h, 'w) job" where
  "discard_bytes_staged_for_another_plan D J =
     (case jb_commitment J of
        None \<Rightarrow> J
      | Some C \<Rightarrow>
          if st_chunk_lens (jb_resume J) = [] \<or> st_chunk_lens (jb_resume J) = chunk_lens (c_layout C) then J
          else truncate_staging D
                 (clear_checkpoint D (J\<lparr>jb_resume := (jb_resume J)\<lparr>st_done_ranges := {}\<rparr>\<rparr>)))"

definition discard_unverifiable_assembly ::
    "('s, 't, 'h, 'w) deps \<Rightarrow> ('s, 't, 'h, 'w) job \<Rightarrow> ('s, 't, 'h, 'w) job" where
  "discard_unverifiable_assembly D J = truncate_staging D (clear_checkpoint D J)"

section \<open>Resuming\<close>

definition rehydrate_range ::
    "('s, 't, 'h, 'w) deps \<Rightarrow> resource_commitment \<Rightarrow> range \<Rightarrow> ('s, 't, 'h, 'w) job \<Rightarrow> ('s, 't, 'h, 'w) job" where
  "rehydrate_range D C r J =
     (let (staged, J1) =
        (case jb_hasher J of
           Some h \<Rightarrow> (case sk_read_at (dp_sink D) (r_offset r) (r_length r) (jb_sink J) of
                        (x, s) \<Rightarrow> (x, J\<lparr>jb_sink := s\<rparr>))
         | None \<Rightarrow> (Err (SinkError (lit ''the whole-resource check is disabled, so staged bytes cannot be bound to the commitment; re-fetching this range instead of trusting it'')), J));
        verified = and_then staged (\<lambda>bs.
          map_err Verify (and_then (v_range (dp_verifier D) C (of_nat (chunk_start r)) (r_length r) bs) (\<lambda>_. Ok bs)))
      in case verified of
           Ok bs \<Rightarrow> J1\<lparr>jb_hasher := map_option (feed (dp_hash D) (r_offset r) bs) (jb_hasher J1)\<rparr>
         | Err e \<Rightarrow>
             J1\<lparr>jb_range_state := (jb_range_state J1)[r_index r := Pending],
                jb_resume := (jb_resume J1)\<lparr>st_done_ranges := st_done_ranges (jb_resume J1) - {r_index r}\<rparr>,
                jb_bytes_done := saturating_sub (jb_bytes_done J1) (r_length r)\<rparr>)"

definition rehydrate_resumed_ranges ::
    "('s, 't, 'h, 'w) deps \<Rightarrow> resource_commitment \<Rightarrow> ('s, 't, 'h, 'w) job \<Rightarrow> ('s, 't, 'h, 'w) job" where
  "rehydrate_resumed_ranges D C J =
     fold (rehydrate_range D C) (filter (\<lambda>r. jb_range_state J ! r_index r = Done) (jb_ranges J)) J"

end
