(* ===== verification/Schedule.thy ===== *)
theory Schedule
  imports Orchestrator
begin

text \<open>
  The concurrent scheduler of the downloader (\<^verbatim>\<open>schedule_loop\<close> in
  \<^verbatim>\<open>src/src/orchestrator.rs\<close>) and the task that runs it.

  One iteration of the loop is \<open>loop_top\<close> (assign ranges, decide whether to return, relocate or
  wait) followed by one branch of the \<open>select!\<close>; the futures in flight are a list, and the
  environment says which of them finishes. The same steps are given as an inductive relation
  \<open>sched_step\<close>, over which the invariants are proved.
\<close>

section \<open>Scheduling helpers\<close>

definition next_pending :: "('s, 't, 'h, 'w) job \<Rightarrow> nat option" where
  "next_pending J = position (\<lambda>s. s = Pending) (jb_range_state J)"

definition all_done :: "('s, 't, 'h, 'w) job \<Rightarrow> bool" where
  "all_done J = (jb_range_state J \<noteq> [] \<and> list_all (\<lambda>s. s = Done) (jb_range_state J))"

definition pending_count :: "('s, 't, 'h, 'w) job \<Rightarrow> nat" where
  "pending_count J = length (filter is_incomplete (jb_range_state J))"

definition inflight_of :: "('s, 't, 'h, 'w) job \<Rightarrow> rstring \<Rightarrow> nat" where
  "inflight_of J peer = (case map_of (jb_inflight_per_source J) peer of Some n \<Rightarrow> n | None \<Rightarrow> 0)"

definition snapshot :: "('s, 't, 'h, 'w) job \<Rightarrow> download_progress" where
  "snapshot J =
     \<lparr>p_bytes_done = jb_bytes_done J,
      p_total_length = (case jb_commitment J of Some C \<Rightarrow> c_total_length C | None \<Rightarrow> 0),
      p_ranges_done = length (filter (\<lambda>s. s = Done) (jb_range_state J)),
      p_ranges_total = length (jb_ranges J),
      p_active_sources = length (filter (\<lambda>(p, n). 0 < n) (jb_inflight_per_source J))\<rparr>"

text \<open>The forward scan for the end of a backoff window; the step is at least a millisecond.\<close>

function next_available_scan :: "source_tracker \<Rightarrow> rstring \<Rightarrow> nat \<Rightarrow> nat \<Rightarrow> nat \<Rightarrow> nat" where
  "next_available_scan T peer step limit t =
     (if step = 0 then limit
      else if t \<le> limit
      then if is_available T peer t then t else next_available_scan T peer step limit (t + step)
      else limit)"
  by pat_completeness auto

termination
  by (relation "measure (\<lambda>(T, peer, step, limit, t). Suc limit - t)") auto

declare next_available_scan.simps [simp del]

definition next_available_at :: "download_config \<Rightarrow> source_tracker \<Rightarrow> rstring \<Rightarrow> nat \<Rightarrow> nat" where
  "next_available_at cf T peer now =
     (let step = max (cf_base_backoff cf) (10 ^ 6)
      in next_available_scan T peer step (now + cf_max_backoff cf + step) now)"

definition earliest_backoff :: "('s, 't, 'h, 'w) deps \<Rightarrow> ('s, 't, 'h, 'w) job \<Rightarrow> nat option" where
  "earliest_backoff D J =
     (let now = en_now (dp_env D) (jb_world J);
          ts = map (\<lambda>p. next_available_at (dp_config D) (jb_tracker J) (provider_peer_id p) now)
                 (filter (\<lambda>p. \<not> is_available (jb_tracker J) (provider_peer_id p) now) (jb_providers J))
      in if ts = [] then None else Some (Min (set ts)))"

section \<open>Assigning ranges\<close>

definition ask_selector :: "('s, 't, 'h, 'w) deps \<Rightarrow> ('s, 't, 'h, 'w) job \<Rightarrow> select_plan \<times> ('s, 't, 'h, 'w) job" where
  "ask_selector D J =
     (let now = en_now (dp_env D) (jb_world J);
          candidates = map (\<lambda>p. candidate_ref_new (provider_peer_id p)
                                  (map (display_addr (en_ips (dp_env D))) (addresses p)))
                         (filter (\<lambda>p. is_available (jb_tracker J) (provider_peer_id p) now) (jb_providers J));
          req = \<lparr>sr_content_key = jb_key J, sr_candidates = candidates, sr_ranges_needed = pending_count J,
                 sr_inflight = sum_list (map snd (jb_inflight_per_source J))\<rparr>
      in case sel_select (en_selector (dp_env D)) req (jb_world J) of
           (plan, w) \<Rightarrow> (plan, J\<lparr>jb_world := w\<rparr>))"

definition under_cap :: "('s, 't, 'h, 'w) deps \<Rightarrow> ('s, 't, 'h, 'w) job \<Rightarrow> rstring \<Rightarrow> bool" where
  "under_cap D J peer = (inflight_of J peer < max_inflight_per_source (dp_config D))"

definition pick_from_plan ::
    "('s, 't, 'h, 'w) deps \<Rightarrow> ('s, 't, 'h, 'w) job \<Rightarrow> select_plan \<Rightarrow> nat \<Rightarrow> rstring option" where
  "pick_from_plan D J plan i =
     (case map_of (assignments plan) i of
        Some peer \<Rightarrow> if under_cap D J peer then Some peer else find (under_cap D J) (ordered plan)
      | None \<Rightarrow> find (under_cap D J) (ordered plan))"

definition fetch_future :: "('s, 't, 'h, 'w) job \<Rightarrow> nat \<Rightarrow> rstring \<Rightarrow> fetch_job" where
  "fetch_future J i peer =
     (let r = jb_ranges J ! i
      in \<lparr>fj_range = i, fj_peer = peer,
          fj_provider = find (\<lambda>p. provider_peer_id p = peer) (jb_providers J),
          fj_request = range_request_for (jb_content J) (r_offset r) (r_length r) True\<rparr>)"

definition start_fetch :: "nat \<Rightarrow> rstring \<Rightarrow> ('s, 't, 'h, 'w) job \<Rightarrow> ('s, 't, 'h, 'w) job" where
  "start_fetch i peer J =
     J\<lparr>jb_range_state := (jb_range_state J)[i := InFlight peer],
       jb_inflight_per_source := AList.update peer (inflight_of J peer + 1) (jb_inflight_per_source J),
       jb_inflight := jb_inflight J @ [fetch_future J i peer]\<rparr>"

definition pending_ranges :: "range_state list \<Rightarrow> nat" where
  "pending_ranges rs = length (filter (\<lambda>s. s = Pending) rs)"

lemma pending_update:
  "i < length rs \<Longrightarrow> rs ! i = Pending \<Longrightarrow> s \<noteq> Pending \<Longrightarrow> pending_ranges (rs[i := s]) < pending_ranges rs"
proof -
  assume a: "i < length rs" "rs ! i = Pending" "s \<noteq> Pending"
  have "rs = take i rs @ Pending # drop (Suc i) rs" using id_take_nth_drop[OF a(1)] a(2) by simp
  then have "pending_ranges rs = pending_ranges (take i rs @ Pending # drop (Suc i) rs)" by simp
  then show ?thesis using a by (simp add: upd_conv_take_nth_drop pending_ranges_def)
qed

function fill_loop :: "('s, 't, 'h, 'w) deps \<Rightarrow> select_plan \<Rightarrow> ('s, 't, 'h, 'w) job \<Rightarrow> ('s, 't, 'h, 'w) job" where
  "fill_loop D plan J =
     (if max_concurrency (dp_config D) \<le> length (jb_inflight J) then J
      else case next_pending J of
             None \<Rightarrow> J
           | Some i \<Rightarrow>
               (case pick_from_plan D J plan i of
                  None \<Rightarrow> J
                | Some peer \<Rightarrow> fill_loop D plan (start_fetch i peer J)))"
  by pat_completeness auto

termination
  by (relation "measure (\<lambda>(D, plan, J). pending_ranges (jb_range_state J))")
    (auto simp: start_fetch_def next_pending_def position_Some_iff intro!: pending_update)

declare fill_loop.simps [simp del]

definition fill :: "('s, 't, 'h, 'w) deps \<Rightarrow> ('s, 't, 'h, 'w) job \<Rightarrow> ('s, 't, 'h, 'w) job" where
  "fill D J = (case ask_selector D J of (plan, J1) \<Rightarrow> fill_loop D plan J1)"

section \<open>Completions\<close>

definition fetch_output ::
    "download_config \<Rightarrow> fetch_job \<Rightarrow> nat \<Rightarrow> download_error + fetched_range \<Rightarrow> download_error + fetched_range" where
  "fetch_output cf fj elapsed raw =
     (case fj_provider fj of
        None \<Rightarrow> Err (Transport (fj_peer fj) (lit ''provider vanished''))
      | Some p \<Rightarrow>
          (case fj_request fj of
             Err e \<Rightarrow> Err e
           | Ok req \<Rightarrow> timed_result (range_timeout cf) (fj_peer fj) elapsed raw))"

definition verify_fetched ::
    "('s, 't, 'h, 'w) deps \<Rightarrow> resource_commitment \<Rightarrow> range \<Rightarrow> fetched_range \<Rightarrow> download_error + bytes" where
  "verify_fetched D C r fetched =
     and_then (map_err Verify (check_consistent C (rm_total_length (fetched_meta fetched))
                 (rm_chunk_lens (fetched_meta fetched)) (rm_root (fetched_meta fetched)))) (\<lambda>_.
     and_then (map_err Verify (v_range (dp_verifier D) C (of_nat (chunk_start r)) (r_length r)
                 (fetched_bytes fetched))) (\<lambda>_.
     Ok (fetched_bytes fetched)))"

definition report_outcome ::
    "('s, 't, 'h, 'w) deps \<Rightarrow> rstring \<Rightarrow> u64 \<Rightarrow> nat \<Rightarrow> range_result \<Rightarrow> ('s, 't, 'h, 'w) job \<Rightarrow> ('s, 't, 'h, 'w) job" where
  "report_outcome D peer n elapsed res J =
     J\<lparr>jb_world := sel_record (en_selector (dp_env D))
          \<lparr>ro_peer_id = peer, ro_bytes = n, ro_elapsed = elapsed, ro_result = res\<rparr> (jb_world J)\<rparr>"

definition release_source :: "rstring \<Rightarrow> ('s, 't, 'h, 'w) job \<Rightarrow> ('s, 't, 'h, 'w) job" where
  "release_source peer J =
     (case map_of (jb_inflight_per_source J) peer of
        None \<Rightarrow> J
      | Some n \<Rightarrow> J\<lparr>jb_inflight_per_source := AList.update peer (n - 1) (jb_inflight_per_source J)\<rparr>)"

text \<open>A verified range: write, feed the hasher, mark done, checkpoint.\<close>

definition accept_range ::
    "('s, 't, 'h, 'w) deps \<Rightarrow> nat \<Rightarrow> rstring \<Rightarrow> nat \<Rightarrow> range \<Rightarrow> bytes \<Rightarrow> ('s, 't, 'h, 'w) job
     \<Rightarrow> (download_error + unit) \<times> ('s, 't, 'h, 'w) job" where
  "accept_range D i peer elapsed r bs J =
     (case sk_write_at (dp_sink D) (r_offset r) bs (jb_sink J) of
        (Err e, s) \<Rightarrow> (Err e, J\<lparr>jb_sink := s\<rparr>)
      | (Ok _, s) \<Rightarrow>
          (let J1 = J\<lparr>jb_sink := s,
                      jb_hasher := map_option (feed (dp_hash D) (r_offset r) bs) (jb_hasher J),
                      jb_range_state := (jb_range_state J)[i := Done],
                      jb_resume := mark_done i (jb_resume J),
                      jb_bytes_done := saturating_add (jb_bytes_done J) (r_length r),
                      jb_tracker := record_success peer (jb_tracker J)\<rparr>;
               J2 = report_outcome D peer (len64 bs) elapsed ResultOk J1
           in case checkpoint D (J2\<lparr>jb_relocated_since_progress := False\<rparr>) of
                (Err e, J3) \<Rightarrow> (Err e, J3)
              | (Ok _, J3) \<Rightarrow> (Ok (), emit (RangeCompleted i peer (snapshot J3)) J3)))"

definition is_timeout :: "download_error \<Rightarrow> bool" where
  "is_timeout e = (case e of Timeout p \<Rightarrow> True | _ \<Rightarrow> False)"

text \<open>A failed range: terminal errors end the task, the others penalise the source and re-queue.\<close>

definition reject_range ::
    "('s, 't, 'h, 'w) deps \<Rightarrow> nat \<Rightarrow> rstring \<Rightarrow> nat \<Rightarrow> download_error \<Rightarrow> ('s, 't, 'h, 'w) job
     \<Rightarrow> (download_error + unit) \<times> ('s, 't, 'h, 'w) job" where
  "reject_range D i peer elapsed e J =
     (if \<not> is_recoverable e then (Err e, emit (Failed (download_error_display e)) J)
      else
        (let J1 = J\<lparr>jb_range_state := (jb_range_state J)[i := Pending],
                    jb_tracker := record_failure peer (en_now (dp_env D) (jb_world J)) (jb_tracker J),
                    jb_total_failures := min (jb_total_failures J + 1) (usize_max (dp_host D))\<rparr>;
             J2 = report_outcome D peer 0 elapsed (if is_timeout e then ResultTimedOut else ResultFailed) J1
         in (Ok (), emit (RangeFailed i peer (download_error_display e)) J2)))"

definition handle_result ::
    "('s, 't, 'h, 'w) deps \<Rightarrow> nat \<Rightarrow> rstring \<Rightarrow> nat \<Rightarrow> download_error + fetched_range \<Rightarrow> ('s, 't, 'h, 'w) job
     \<Rightarrow> (download_error + unit) \<times> ('s, 't, 'h, 'w) job" where
  "handle_result D i peer elapsed res J =
     (let J1 = release_source peer J;
          C = the (jb_commitment J1);
          r = jb_ranges J1 ! i
      in case and_then res (verify_fetched D C r) of
           Ok bs \<Rightarrow> accept_range D i peer elapsed r bs J1
         | Err e \<Rightarrow> reject_range D i peer elapsed e J1)"

section \<open>The loop\<close>

datatype loop_decision = Return "download_error + unit" | Again | Await "nat option"

definition failure_budget :: "('s, 't, 'h, 'w) deps \<Rightarrow> ('s, 't, 'h, 'w) job \<Rightarrow> nat" where
  "failure_budget D J =
     max (min (length (jb_ranges J) * max_range_attempts (dp_config D)) (usize_max (dp_host D)))
         (max_range_attempts (dp_config D))"

definition give_up :: "rstring \<Rightarrow> ('s, 't, 'h, 'w) job \<Rightarrow> loop_decision \<times> ('s, 't, 'h, 'w) job" where
  "give_up why J =
     (Return (Err (NoProviders (pending_count J))),
      emit (Failed (why @ lit '' ('' @ dec (pending_count J) @ lit '' range(s) unmet)'')) J)"

definition wait_for_backoff ::
    "('s, 't, 'h, 'w) deps \<Rightarrow> ('s, 't, 'h, 'w) job \<Rightarrow> loop_decision \<times> ('s, 't, 'h, 'w) job" where
  "wait_for_backoff D J =
     (case earliest_backoff D J of
        Some t \<Rightarrow> (Await (Some t), J)
      | None \<Rightarrow> give_up (lit ''no live providers'') J)"

text \<open>From the top of the loop to its \<open>select!\<close>.\<close>

definition loop_top ::
    "('s, 't, 'h, 'w) deps \<Rightarrow> ('s, 't, 'h, 'w) job \<Rightarrow> loop_decision \<times> ('s, 't, 'h, 'w) job" where
  "loop_top D J0 =
     (let J = (if jb_paused J0 then J0 else fill D J0)
      in if all_done J \<and> jb_inflight J = [] then (Return (Ok ()), J)
         else if failure_budget D J < jb_total_failures J then give_up (lit ''provider set exhausted'') J
         else if \<not> jb_paused J \<and> jb_inflight J = [] \<and> \<not> all_done J
         then if \<not> jb_relocated_since_progress J
                 \<and> jb_relocate_attempts J < max_relocate_attempts (dp_config D)
              then (case relocate D J of
                      (Err e, J1) \<Rightarrow> (Return (Err e), J1)
                    | (Ok added, J1) \<Rightarrow>
                        (let J2 = J1\<lparr>jb_relocated_since_progress := True\<rparr>
                         in if 0 < added then (Again, J2) else wait_for_backoff D J2))
              else wait_for_backoff D J
         else (Await None, J))"

definition on_control ::
    "('s, 't, 'h, 'w) deps \<Rightarrow> control option \<Rightarrow> ('s, 't, 'h, 'w) job \<Rightarrow> (download_error + unit) \<times> ('s, 't, 'h, 'w) job" where
  "on_control D c J =
     (case c of
        Some Pause \<Rightarrow>
          if jb_paused J then (Ok (), J)
          else (Ok (), emit Paused (snd (checkpoint D (J\<lparr>jb_paused := True\<rparr>))))
      | Some Resume \<Rightarrow>
          if jb_paused J then (Ok (), emit Resumed (J\<lparr>jb_paused := False\<rparr>)) else (Ok (), J)
      | _ \<Rightarrow> (Err Cancelled, emit (Failed (lit ''cancelled'')) (snd (checkpoint D J))))"

definition on_refresh :: "('s, 't, 'h, 'w) deps \<Rightarrow> ('s, 't, 'h, 'w) job \<Rightarrow> ('s, 't, 'h, 'w) job" where
  "on_refresh D J = snd (discover_more D (J\<lparr>jb_last_refresh := en_now (dp_env D) (jb_world J)\<rparr>))"

text \<open>One branch of the \<open>select!\<close>; a branch whose guard is off is not polled.\<close>

definition take_turn ::
    "('s, 't, 'h, 'w) deps \<Rightarrow> nat option \<Rightarrow> turn \<Rightarrow> ('s, 't, 'h, 'w) job \<Rightarrow> (download_error + unit) \<times> ('s, 't, 'h, 'w) job" where
  "take_turn D wakeup tn J =
     (case tn of
        GotControl c \<Rightarrow> on_control D c J
      | FetchDone k elapsed raw \<Rightarrow>
          if k < length (jb_inflight J)
          then (let fj = jb_inflight J ! k;
                    J1 = J\<lparr>jb_inflight := take k (jb_inflight J) @ drop (Suc k) (jb_inflight J)\<rparr>
                in handle_result D (fj_range fj) (fj_peer fj) elapsed
                     (fetch_output (dp_config D) fj elapsed raw) J1)
          else (Ok (), J)
      | BackoffElapsed \<Rightarrow> (Ok (), J)
      | RefreshDue \<Rightarrow>
          if refresh_interval (dp_config D) \<noteq> None \<and> \<not> jb_paused J then (Ok (), on_refresh D J)
          else (Ok (), J))"

definition next_turn :: "('s, 't, 'h, 'w) deps \<Rightarrow> ('s, 't, 'h, 'w) job \<Rightarrow> turn \<times> ('s, 't, 'h, 'w) job" where
  "next_turn D J = (case en_turn (dp_env D) (jb_world J) of (tn, w) \<Rightarrow> (tn, J\<lparr>jb_world := w\<rparr>))"

fun schedule_loop ::
    "nat \<Rightarrow> ('s, 't, 'h, 'w) deps \<Rightarrow> ('s, 't, 'h, 'w) job
     \<Rightarrow> ((download_error + unit) \<times> ('s, 't, 'h, 'w) job) option" where
  "schedule_loop 0 D J = None"
| "schedule_loop (Suc n) D J =
     (case loop_top D J of
        (Return r, J1) \<Rightarrow> Some (r, J1)
      | (Again, J1) \<Rightarrow> schedule_loop n D J1
      | (Await wakeup, J1) \<Rightarrow>
          (case next_turn D J1 of
             (tn, J2) \<Rightarrow>
               (case take_turn D wakeup tn J2 of
                  (Err e, J3) \<Rightarrow> Some (Err e, J3)
                | (Ok _, J3) \<Rightarrow> schedule_loop n D J3)))"

section \<open>The task\<close>

definition fail_with :: "download_error \<Rightarrow> ('s, 't, 'h, 'w) job \<Rightarrow> (download_error + 'r) \<times> ('s, 't, 'h, 'w) job" where
  "fail_with e J = (Err e, emit (Failed (download_error_display e)) J)"

text \<open>Plan the ranges of a commitment and take over what a prior process completed.\<close>

definition plan_job ::
    "('s, 't, 'h, 'w) deps \<Rightarrow> resource_commitment \<Rightarrow> ('s, 't, 'h, 'w) job \<Rightarrow> ('s, 't, 'h, 'w) job" where
  "plan_job D C J =
     (let rs = plan_ranges (c_layout C) (window (dp_config D));
          J1 = J\<lparr>jb_ranges := rs,
                 jb_range_state := map (\<lambda>r. if is_done (jb_resume J) (r_index r) then Done else Pending) rs,
                 jb_hasher := (if verify_whole_resource (dp_config D) then Some (resource_hasher_new (dp_hash D)) else None),
                 jb_bytes_done := sum_list (map r_length (filter (\<lambda>r. is_done (jb_resume J) (r_index r)) rs))\<rparr>;
          J2 = rehydrate_resumed_ranges D C J1
      in emit (Planned (length (jb_ranges J2)) (c_total_length C)) J2)"

text \<open>The whole-resource backstop.\<close>

definition backstop ::
    "('s, 't, 'h, 'w) deps \<Rightarrow> resource_commitment \<Rightarrow> ('s, 't, 'h, 'w) job \<Rightarrow> (download_error + unit) \<times> ('s, 't, 'h, 'w) job" where
  "backstop D C J =
     (case jb_hasher J of
        None \<Rightarrow> (Ok (), J)
      | Some h \<Rightarrow>
          (let J1 = J\<lparr>jb_hasher := None\<rparr>
           in case v_resource_leaf (dp_verifier D) C (hasher_finalize (dp_hash D) h) (hashed_len h) of
                Err e \<Rightarrow>
                  (Err (Verify e), emit (Failed (verify_error_display e)) (discard_unverifiable_assembly D J1))
              | Ok _ \<Rightarrow> (Ok (), J1)))"

definition promote_job ::
    "('s, 't, 'h, 'w) deps \<Rightarrow> resource_commitment \<Rightarrow> ('s, 't, 'h, 'w) job \<Rightarrow> (download_error + u64) \<times> ('s, 't, 'h, 'w) job" where
  "promote_job D C J =
     (case promote_verified (dp_sink D) (c_total_length C) (jb_sink J) of
        (Err e, s) \<Rightarrow> fail_with e (discard_unverifiable_assembly D (J\<lparr>jb_sink := s\<rparr>))
      | (Ok _, s) \<Rightarrow>
          (Ok (c_total_length C),
           emit (Completed (c_total_length C)) (clear_checkpoint D (J\<lparr>jb_sink := s\<rparr>))))"

text \<open>Steps 1 to 3: holders, commitment, checkpoint.\<close>

definition prepare_job ::
    "('s, 't, 'h, 'w) deps \<Rightarrow> ('s, 't, 'h, 'w) job \<Rightarrow> (download_error + resource_commitment) \<times> ('s, 't, 'h, 'w) job" where
  "prepare_job D J =
     (case availability_item (jb_content J) of
        Err e \<Rightarrow> (Err e, J)
      | Ok item \<Rightarrow>
          (case locate_and_confirm D J of
             (Err e, J1) \<Rightarrow> (Err e, J1)
           | (Ok ps, J1) \<Rightarrow>
               (let J2 = J1\<lparr>jb_providers := ps\<rparr>;
                    reason = lit ''no providers located for '' @ en_show_content (dp_env D) (jb_content J)
                in if ps = [] then (Err (NotFound reason), emit (Failed reason) J2)
                   else
                     (case (if jb_commitment J2 = None then establish_commitment D J2 else (Ok (), J2)) of
                        (Err e, J3) \<Rightarrow> (Err e, J3)
                      | (Ok _, J3) \<Rightarrow>
                          (case persist_commitment D (discard_bytes_staged_for_another_plan D J3) of
                             (Err e, J4) \<Rightarrow> (Err e, J4)
                           | (Ok _, J4) \<Rightarrow> (Ok (the (jb_commitment J4)), J4))))))"

definition run_inner ::
    "nat \<Rightarrow> ('s, 't, 'h, 'w) deps \<Rightarrow> ('s, 't, 'h, 'w) job
     \<Rightarrow> ((download_error + u64) \<times> ('s, 't, 'h, 'w) job) option" where
  "run_inner fuel D J =
     (case prepare_job D J of
        (Err e, J1) \<Rightarrow> Some (Err e, J1)
      | (Ok C, J1) \<Rightarrow>
          (case schedule_loop fuel D (plan_job D C J1) of
             None \<Rightarrow> None
           | Some (Err e, J2) \<Rightarrow> Some (Err e, J2)
           | Some (Ok _, J2) \<Rightarrow>
               (case backstop D C J2 of
                  (Err e, J3) \<Rightarrow> Some (Err e, J3)
                | (Ok _, J3) \<Rightarrow> Some (promote_job D C J3))))"

text \<open>The commitment a persisted state carries, when it still makes one.\<close>

definition resumed_commitment :: "('s, 't, 'h, 'w) deps \<Rightarrow> download_state \<Rightarrow> resource_commitment option" where
  "resumed_commitment D st =
     (if st_chunk_lens st = [] then None
      else case from_first_frame_bounded (dp_host D) (st_total_length st) (st_chunk_lens st) (st_root st)
                  (st_inclusion_proof st) (max_resource_size (dp_config D)) of
             Ok C \<Rightarrow> Some C
           | Err e \<Rightarrow> None)"

definition display_path :: "path \<Rightarrow> rstring" where
  "display_path p = to_string_lossy (parent p) @ lit ''/'' @ to_string_lossy (file_name p)"

definition claim_reason :: "path \<Rightarrow> rstring" where
  "claim_reason p = lit ''another download is already staging into '' @ display_path p
                    @ lit ''; refusing to share a staging area''"

definition run_job ::
    "nat \<Rightarrow> ('s, 't, 'h, 'w) deps \<Rightarrow> ('s, 't, 'h, 'w) job
     \<Rightarrow> ((download_error + u64) \<times> ('s, 't, 'h, 'w) job) option" where
  "run_job fuel D J =
     (case ss_load (dp_store D) (jb_key J) (jb_store J) of
        (Err e, t) \<Rightarrow> Some (fail_with e (J\<lparr>jb_store := t\<rparr>))
      | (Ok found, t) \<Rightarrow>
          (let st = (case found of Some st \<Rightarrow> st | None \<Rightarrow> download_state_new (jb_key J));
               J1 = J\<lparr>jb_store := t, jb_resume := st, jb_commitment := resumed_commitment D st\<rparr>
           in case sk_staging_path (dp_sink D) (jb_sink J1) of
                None \<Rightarrow> run_inner fuel D J1
              | Some p \<Rightarrow>
                  (case claim p (jb_registry J1) of
                     (None, R) \<Rightarrow> Some (Err (SinkError (claim_reason p)), emit (Failed (claim_reason p)) J1)
                   | (Some h, R) \<Rightarrow>
                       map_option (\<lambda>(r, J2). (r, J2\<lparr>jb_registry := drop_claim h (jb_registry J2)\<rparr>))
                         (run_inner fuel D (J1\<lparr>jb_registry := R\<rparr>)))))"

end
