(* ===== verification/Schedule_Invariants.thy ===== *)
theory Schedule_Invariants
  imports Schedule
begin

text \<open>
  The scheduler as a step relation, and the invariants every reachable state of a job has: the
  bookkeeping of ranges in flight, the concurrency caps, and the agreement of the checkpoint
  with the ranges done. One preservation lemma per step, combined by rule induction.
\<close>

section \<open>The step relation\<close>

text \<open>
  An iteration that goes on; \<open>sched_stops\<close> is one that ends the loop. \<open>sched_reach\<close> is the
  reflexive transitive closure, and every run of \<open>schedule_loop\<close> is a path in it.
\<close>

inductive sched_step :: "('s, 't, 'h, 'w) deps \<Rightarrow> ('s, 't, 'h, 'w) job \<Rightarrow> ('s, 't, 'h, 'w) job \<Rightarrow> bool"
  for D where
  retry: "loop_top D J = (Again, J1) \<Longrightarrow> sched_step D J J1"
| turn: "\<lbrakk>loop_top D J = (Await wk, J1); next_turn D J1 = (tn, J2); take_turn D wk tn J2 = (Ok u, J3)\<rbrakk>
    \<Longrightarrow> sched_step D J J3"

inductive sched_stops :: "('s, 't, 'h, 'w) deps \<Rightarrow> ('s, 't, 'h, 'w) job \<Rightarrow> (download_error + unit) \<Rightarrow> ('s, 't, 'h, 'w) job \<Rightarrow> bool"
  for D where
  returns: "loop_top D J = (Return r, J1) \<Longrightarrow> sched_stops D J r J1"
| fails: "\<lbrakk>loop_top D J = (Await wk, J1); next_turn D J1 = (tn, J2); take_turn D wk tn J2 = (Err e, J3)\<rbrakk>
    \<Longrightarrow> sched_stops D J (Err e) J3"

inductive sched_reach :: "('s, 't, 'h, 'w) deps \<Rightarrow> ('s, 't, 'h, 'w) job \<Rightarrow> ('s, 't, 'h, 'w) job \<Rightarrow> bool"
  for D J where
  start: "sched_reach D J J"
| extend: "sched_reach D J J1 \<Longrightarrow> sched_step D J1 J2 \<Longrightarrow> sched_reach D J J2"

inductive_cases sched_stopsE: "sched_stops D J r J'"

lemma sched_reach_trans: "sched_reach D J1 J2 \<Longrightarrow> sched_reach D J J1 \<Longrightarrow> sched_reach D J J2"
  by (induction rule: sched_reach.induct) (auto intro: sched_reach.intros)

lemma sched_reach_step: "sched_step D J J1 \<Longrightarrow> sched_reach D J1 J2 \<Longrightarrow> sched_reach D J J2"
  by (meson sched_reach.intros sched_reach_trans)

lemma schedule_loop_reaches:
  "schedule_loop n D J = Some (r, J') \<Longrightarrow> \<exists>J1. sched_reach D J J1 \<and> sched_stops D J1 r J'"
proof (induction n arbitrary: J)
  case 0
  then show ?case by simp
next
  case (Suc n)
  obtain dec J1 where t: "loop_top D J = (dec, J1)" by fastforce
  show ?case
  proof (cases dec)
    case (Return x)
    then show ?thesis using Suc.prems t by (auto intro!: exI[of _ J] sched_reach.start sched_stops.returns)
  next
    case Again
    then have "schedule_loop n D J1 = Some (r, J')" using Suc.prems t by simp
    from Suc.IH[OF this] obtain J2 where J2: "sched_reach D J1 J2" "sched_stops D J2 r J'" by blast
    have "sched_step D J J1" by (rule sched_step.retry) (simp add: t Again)
    then show ?thesis using J2 sched_reach_step by blast
  next
    case (Await wk)
    obtain tn J2 where n: "next_turn D J1 = (tn, J2)" by fastforce
    obtain x J3 where k: "take_turn D wk tn J2 = (x, J3)" by fastforce
    show ?thesis
    proof (cases x)
      case (Inl e)
      then have "r = Err e" "J' = J3" using Suc.prems t Await n k by auto
      then show ?thesis using sched_stops.fails[of D J wk J1 tn J2 e J3] t Await n k Inl
        by (auto intro!: exI[of _ J] sched_reach.start)
    next
      case (Inr u)
      then have "schedule_loop n D J3 = Some (r, J')" using Suc.prems t Await n k by simp
      from Suc.IH[OF this] obtain J4 where J4: "sched_reach D J3 J4" "sched_stops D J4 r J'" by blast
      have "sched_step D J J3" by (rule sched_step.turn) (use t Await n k Inr in auto)
      then show ?thesis using J4 sched_reach_step by blast
    qed
  qed
qed

section \<open>The bookkeeping invariant\<close>

definition in_flight_by :: "fetch_job list \<Rightarrow> rstring \<Rightarrow> nat" where
  "in_flight_by fs peer = length (filter (\<lambda>fj. fj_peer fj = peer) fs)"

definition mirror :: "range_state list \<Rightarrow> fetch_job list \<Rightarrow> bool" where
  "mirror rs fs \<longleftrightarrow> (\<forall>i peer. (i < length rs \<and> rs ! i = InFlight peer)
     \<longleftrightarrow> (i, peer) \<in> (\<lambda>fj. (fj_range fj, fj_peer fj)) ` set fs)"

lemma mirror_start:
  assumes m: "mirror rs fs" and i: "i < length rs" "rs ! i = Pending" and f: "fj_range f = i" "fj_peer f = p"
  shows "mirror (rs[i := InFlight p]) (fs @ [f])"
proof -
  have not: "(i, q) \<notin> (\<lambda>fj. (fj_range fj, fj_peer fj)) ` set fs" for q
    using m i unfolding mirror_def by (metis range_state.distinct(1))
  have e: "(\<lambda>fj. (fj_range fj, fj_peer fj)) ` set (fs @ [f]) = insert (i, p) ((\<lambda>fj. (fj_range fj, fj_peer fj)) ` set fs)"
    using f by auto
  show ?thesis unfolding mirror_def e
  proof (intro allI)
    fix j q
    show "(j < length (rs[i := InFlight p]) \<and> rs[i := InFlight p] ! j = InFlight q)
        = ((j, q) \<in> insert (i, p) ((\<lambda>fj. (fj_range fj, fj_peer fj)) ` set fs))"
    proof (cases "j = i")
      case True
      then show ?thesis using i not by auto
    next
      case False
      then show ?thesis using m unfolding mirror_def by (metis insert_iff length_list_update nth_list_update_neq prod.inject)
    qed
  qed
qed

lemma mirror_finish:
  assumes m: "mirror rs fs" and d: "distinct (map fj_range fs)" and k: "k < length fs"
    and s: "s = Pending \<or> s = Done"
  shows "mirror (rs[fj_range (fs ! k) := s]) (take k fs @ drop (Suc k) fs)"
proof -
  let ?g = "\<lambda>fj. (fj_range fj, fj_peer fj)"
  have dg: "distinct (map ?g fs)" using d by (auto simp: distinct_map inj_on_def)
  have "?g ` set (take k fs @ drop (Suc k) fs) = set (take k (map ?g fs) @ drop (Suc k) (map ?g fs))"
    by (simp add: take_map drop_map image_Un)
  then have e: "?g ` set (take k fs @ drop (Suc k) fs) = ?g ` set fs - {?g (fs ! k)}"
    using set_drop_nth[OF dg, of k] k by simp
  have only: "(fj_range (fs ! k), q) \<in> ?g ` set fs \<Longrightarrow> q = fj_peer (fs ! k)" for q
    using d k by (auto simp: in_set_conv_nth distinct_conv_nth) (metis length_map nth_map)
  show ?thesis unfolding mirror_def e
  proof (intro allI)
    fix j q
    show "(j < length (rs[fj_range (fs ! k) := s]) \<and> rs[fj_range (fs ! k) := s] ! j = InFlight q)
        = ((j, q) \<in> ?g ` set fs - {?g (fs ! k)})"
    proof (cases "j = fj_range (fs ! k)")
      case True
      then show ?thesis using s only by (auto simp: nth_list_update)
    next
      case False
      have "rs[fj_range (fs ! k) := s] ! j = rs ! j" using False by simp
      moreover have "(j, q) \<in> ?g ` set fs - {?g (fs ! k)} \<longleftrightarrow> (j, q) \<in> ?g ` set fs" using False by blast
      moreover have "(j < length rs \<and> rs ! j = InFlight q) \<longleftrightarrow> (j, q) \<in> ?g ` set fs" using m unfolding mirror_def by blast
      ultimately show ?thesis by simp
    qed
  qed
qed

definition book_ok :: "('s, 't, 'h, 'w) deps \<Rightarrow> ('s, 't, 'h, 'w) job \<Rightarrow> bool" where
  "book_ok D J \<longleftrightarrow>
     length (jb_range_state J) = length (jb_ranges J)
     \<and> mirror (jb_range_state J) (jb_inflight J)
     \<and> distinct (map fj_range (jb_inflight J))
     \<and> length (jb_inflight J) \<le> max_concurrency (dp_config D)
     \<and> (\<forall>peer. inflight_of J peer = in_flight_by (jb_inflight J) peer)
     \<and> (\<forall>peer. inflight_of J peer \<le> max_inflight_per_source (dp_config D))
     \<and> (\<forall>i < length (jb_ranges J). is_done (jb_resume J) i \<longleftrightarrow> jb_range_state J ! i = Done)"

text \<open>The fields the bookkeeping reads; a step that leaves them alone preserves it.\<close>

definition same_book :: "('s, 't, 'h, 'w) job \<Rightarrow> ('s, 't, 'h, 'w) job \<Rightarrow> bool" where
  "same_book J J' \<longleftrightarrow> jb_range_state J' = jb_range_state J \<and> jb_ranges J' = jb_ranges J
     \<and> jb_inflight J' = jb_inflight J \<and> jb_inflight_per_source J' = jb_inflight_per_source J
     \<and> st_done_ranges (jb_resume J') = st_done_ranges (jb_resume J)"

lemma book_ok_same: "same_book J J' \<Longrightarrow> book_ok D J' = book_ok D J"
  by (simp add: same_book_def book_ok_def inflight_of_def is_done_def)

text \<open>
  And the data a step of the scheduler must leave alone when it completes no fetch: the sink
  and the hasher, the commitment and the content, the number of failures and the claims.
\<close>

definition same_data :: "('s, 't, 'h, 'w) job \<Rightarrow> ('s, 't, 'h, 'w) job \<Rightarrow> bool" where
  "same_data J J' \<longleftrightarrow> jb_sink J' = jb_sink J \<and> jb_hasher J' = jb_hasher J
     \<and> jb_commitment J' = jb_commitment J \<and> jb_content J' = jb_content J
     \<and> jb_total_failures J' = jb_total_failures J \<and> jb_registry J' = jb_registry J"

lemma same_refl [simp]: "same_book J J" "same_data J J"
  by (simp_all add: same_book_def same_data_def)

lemma same_book_trans: "same_book J1 J2 \<Longrightarrow> same_book J J1 \<Longrightarrow> same_book J J2"
  by (simp add: same_book_def)

lemma same_data_trans: "same_data J1 J2 \<Longrightarrow> same_data J J1 \<Longrightarrow> same_data J J2"
  by (simp add: same_data_def)

lemma emit_same [simp]: "same_book J (emit e J)" "same_data J (emit e J)" "jb_resume (emit e J) = jb_resume J"
  by (simp_all add: emit_def same_book_def same_data_def)

lemma checkpoint_same: "checkpoint D J = (r, J') \<Longrightarrow> same_book J J' \<and> same_data J J'"
  by (auto simp: checkpoint_def same_book_def same_data_def split: prod.splits)

lemma locate_and_confirm_same: "locate_and_confirm D J = (r, J') \<Longrightarrow> same_book J J' \<and> same_data J J'"
  by (auto simp: locate_and_confirm_def same_book_def same_data_def split: prod.splits sum.splits)

lemma discover_more_same:
  assumes "discover_more D J = (r, J')" shows "same_book J J' \<and> same_data J J'"
proof -
  obtain x J1 where l: "locate_and_confirm D J = (x, J1)" by fastforce
  note s = locate_and_confirm_same[OF l]
  show ?thesis
  proof (cases x)
    case (Inl e)
    then show ?thesis using assms l s by (simp add: discover_more_def)
  next
    case (Inr ps)
    obtain K where K: "same_book J1 K \<and> same_data J1 K" "J' = K \<or> (\<exists>n. J' = emit (ProvidersRefreshed n) K)"
    proof
      let ?K = "J1\<lparr>jb_providers := jb_providers J1 @ filter (\<lambda>p. provider_peer_id p \<notin> set (map provider_peer_id (jb_providers J1))) ps\<rparr>"
      show "same_book J1 ?K \<and> same_data J1 ?K" by (simp add: same_book_def same_data_def)
      show "J' = ?K \<or> (\<exists>n. J' = emit (ProvidersRefreshed n) ?K)"
        using assms l Inr by (auto simp: discover_more_def Let_def split: if_splits)
    qed
    have "same_book J1 J' \<and> same_data J1 J'"
      using K emit_same(1,2) same_book_trans same_data_trans by blast
    then show ?thesis using s same_book_trans same_data_trans by blast
  qed
qed

lemma relocate_same: "relocate D J = (r, J') \<Longrightarrow> same_book J J' \<and> same_data J J'"
  using discover_more_same by (fastforce simp: relocate_def same_book_def same_data_def)

lemma on_refresh_same: "same_book J (on_refresh D J) \<and> same_data J (on_refresh D J)"
proof -
  let ?J = "J\<lparr>jb_last_refresh := en_now (dp_env D) (jb_world J)\<rparr>"
  have "discover_more D ?J = (fst (discover_more D ?J), on_refresh D J)" by (simp add: on_refresh_def)
  from discover_more_same[OF this] show ?thesis by (simp add: same_book_def same_data_def)
qed

lemma on_control_same:
  assumes "on_control D c J = (r, J')" shows "same_book J J' \<and> same_data J J'"
proof -
  have cp: "same_book K (snd (checkpoint D K)) \<and> same_data K (snd (checkpoint D K))" for K
    using checkpoint_same[of D K "fst (checkpoint D K)" "snd (checkpoint D K)"] by simp
  have em: "same_book J (emit e K) \<and> same_data J (emit e K)" if "same_book J K \<and> same_data J K" for e K
    using that emit_same(1,2) same_book_trans same_data_trans by blast
  have ps: "same_book J (snd (checkpoint D (J\<lparr>jb_paused := True\<rparr>))) \<and> same_data J (snd (checkpoint D (J\<lparr>jb_paused := True\<rparr>)))"
    using cp[of "J\<lparr>jb_paused := True\<rparr>"] by (simp add: same_book_def same_data_def)
  have rs: "same_book J (J\<lparr>jb_paused := False\<rparr>) \<and> same_data J (J\<lparr>jb_paused := False\<rparr>)"
    by (simp add: same_book_def same_data_def)
  show ?thesis
  proof (cases c)
    case None
    then show ?thesis using assms cp em by (auto simp: on_control_def)
  next
    case (Some k)
    then show ?thesis using assms cp em ps rs
      by (cases k) (auto simp: on_control_def split: if_splits)
  qed
qed

lemma ask_selector_same: "ask_selector D J = (p, J') \<Longrightarrow> same_book J J' \<and> same_data J J'"
  by (auto simp: ask_selector_def Let_def same_book_def same_data_def split: prod.splits)

lemma next_turn_same: "next_turn D J = (tn, J') \<Longrightarrow> same_book J J' \<and> same_data J J'"
  by (auto simp: next_turn_def same_book_def same_data_def split: prod.splits)

section \<open>Assigning preserves it\<close>

lemma pick_under_cap: "pick_from_plan D J plan i = Some peer \<Longrightarrow> under_cap D J peer"
  by (auto simp: pick_from_plan_def find_Some_iff split: option.splits if_splits)

lemma inflight_of_start [simp]:
  "inflight_of (start_fetch i peer J) q = (if q = peer then inflight_of J peer + 1 else inflight_of J q)"
  by (simp add: start_fetch_def inflight_of_def update_conv')

lemma start_fetch_book:
  assumes ok: "book_ok D J" and i: "next_pending J = Some i" and cap: "under_cap D J peer"
    and room: "length (jb_inflight J) < max_concurrency (dp_config D)"
  shows "book_ok D (start_fetch i peer J)"
proof -
  let ?J = "start_fetch i peer J"
  have ib: "i < length (jb_range_state J)" "jb_range_state J ! i = Pending"
    using i by (auto simp: next_pending_def position_Some_iff)
  have fr: "fj_range (fetch_future J i peer) = i" "fj_peer (fetch_future J i peer) = peer"
    by (simp_all add: fetch_future_def Let_def)
  have f: "jb_range_state ?J = (jb_range_state J)[i := InFlight peer]" "jb_ranges ?J = jb_ranges J"
    "jb_inflight ?J = jb_inflight J @ [fetch_future J i peer]" "jb_resume ?J = jb_resume J"
    by (simp_all add: start_fetch_def)
  have m: "mirror (jb_range_state J) (jb_inflight J)" using ok by (simp add: book_ok_def)
  have not: "i \<notin> fj_range ` set (jb_inflight J)"
    using m ib unfolding mirror_def by (metis (mono_tags, lifting) image_iff range_state.distinct(1))
  have a: "mirror (jb_range_state ?J) (jb_inflight ?J)"
    unfolding f by (rule mirror_start[OF m ib fr])
  have b: "distinct (map fj_range (jb_inflight ?J))" using ok f fr not by (auto simp: book_ok_def)
  have c: "inflight_of ?J q = in_flight_by (jb_inflight ?J) q" for q
    using ok f fr by (simp add: book_ok_def in_flight_by_def)
  have d: "inflight_of ?J q \<le> max_inflight_per_source (dp_config D)" for q
    using ok cap by (auto simp: book_ok_def under_cap_def Suc_le_eq)
  have e: "is_done (jb_resume ?J) j \<longleftrightarrow> jb_range_state ?J ! j = Done" if "j < length (jb_ranges ?J)" for j
    using ok ib f that by (auto simp: book_ok_def nth_list_update)
  show ?thesis
    unfolding book_ok_def using a b c d e f room ok by (auto simp: book_ok_def)
qed

lemma start_fetch_data [simp]: "same_data J (start_fetch i peer J)" "jb_ranges (start_fetch i peer J) = jb_ranges J"
  by (simp_all add: same_data_def start_fetch_def)

lemma fill_loop_book: "book_ok D J \<Longrightarrow> book_ok D (fill_loop D plan J)"
proof (induction D plan J rule: fill_loop.induct)
  case (1 D plan J)
  show ?case
  proof (cases "max_concurrency (dp_config D) \<le> length (jb_inflight J)")
    case True
    then show ?thesis using 1(2) by (subst fill_loop.simps) simp
  next
    case False
    show ?thesis
    proof (cases "next_pending J")
      case None
      then show ?thesis using 1(2) False by (subst fill_loop.simps) simp
    next
      case (Some i)
      show ?thesis
      proof (cases "pick_from_plan D J plan i")
        case None
        then show ?thesis using 1(2) False Some by (subst fill_loop.simps) simp
      next
        case (Some peer)
        have "book_ok D (start_fetch i peer J)"
          by (rule start_fetch_book[OF 1(2) \<open>next_pending J = Some i\<close> pick_under_cap[OF Some]]) (use False in simp)
        from 1(1)[OF False \<open>next_pending J = Some i\<close> Some this] show ?thesis
          using False \<open>next_pending J = Some i\<close> Some by (subst fill_loop.simps) simp
      qed
    qed
  qed
qed

lemma fill_loop_data: "same_data J (fill_loop D plan J) \<and> jb_ranges (fill_loop D plan J) = jb_ranges J
    \<and> jb_paused (fill_loop D plan J) = jb_paused J
    \<and> (\<forall>i. jb_range_state (fill_loop D plan J) ! i = Done \<longrightarrow> i < length (jb_range_state J) \<longrightarrow> jb_range_state J ! i = Done)
    \<and> length (jb_range_state (fill_loop D plan J)) = length (jb_range_state J)"
proof (induction D plan J rule: fill_loop.induct)
  case (1 D plan J)
  have st: "same_data J (start_fetch i peer J)" "jb_paused (start_fetch i peer J) = jb_paused J"
    "length (jb_range_state (start_fetch i peer J)) = length (jb_range_state J)"
    "jb_range_state (start_fetch i peer J) ! j = Done \<Longrightarrow> j < length (jb_range_state J) \<Longrightarrow> jb_range_state J ! j = Done" for i j peer
    by (auto simp: start_fetch_def same_data_def nth_list_update) (metis nth_list_update_neq nth_list_update_eq range_state.distinct(5))
  show ?case
  proof (cases "max_concurrency (dp_config D) \<le> length (jb_inflight J)")
    case True
    then show ?thesis by (subst (1 2 3 4 5) fill_loop.simps) simp
  next
    case False
    show ?thesis
    proof (cases "next_pending J")
      case None
      then show ?thesis using False by (subst (1 2 3 4 5) fill_loop.simps) simp
    next
      case (Some i)
      show ?thesis
      proof (cases "pick_from_plan D J plan i")
        case None
        then show ?thesis using False Some by (subst (1 2 3 4 5) fill_loop.simps) simp
      next
        case (Some peer)
        have e: "fill_loop D plan J = fill_loop D plan (start_fetch i peer J)"
          using False \<open>next_pending J = Some i\<close> Some by (subst fill_loop.simps) simp
        note ih = 1[OF False \<open>next_pending J = Some i\<close> Some]
        have "same_data J (fill_loop D plan (start_fetch i peer J))"
          using ih st(1) same_data_trans by blast
        then show ?thesis unfolding e using ih st by (metis start_fetch_data(2))
      qed
    qed
  qed
qed

lemma fill_book: "book_ok D J \<Longrightarrow> book_ok D (fill D J)"
  using ask_selector_same book_ok_same fill_loop_book by (fastforce simp: fill_def split: prod.splits)

end
