(* ===== verification/Completion.thy ===== *)
theory Completion
  imports Schedule_Invariants
begin

text \<open>
  The scheduler's completions preserve the bookkeeping, and with them every step does: the
  reachability theorem for the invariant of \<^theory_text>\<open>Schedule_Invariants\<close>.
\<close>

section \<open>Completions preserve the bookkeeping\<close>

definition without_nth :: "nat \<Rightarrow> 'a list \<Rightarrow> 'a list" where
  "without_nth k xs = take k xs @ drop (Suc k) xs"

lemma in_flight_without:
  assumes "k < length fs"
  shows "in_flight_by (without_nth k fs) q = in_flight_by fs q - (if fj_peer (fs ! k) = q then 1 else 0)"
proof -
  have "in_flight_by fs q = in_flight_by (take k fs @ fs ! k # drop (Suc k) fs) q"
    using id_take_nth_drop[OF assms] by simp
  then show ?thesis by (simp add: in_flight_by_def without_nth_def)
qed

lemma inflight_of_release [simp]:
  "inflight_of (release_source p J) q = (if q = p then inflight_of J p - 1 else inflight_of J q)"
  by (auto simp: release_source_def inflight_of_def update_conv' split: option.splits)

lemma release_source_fields [simp]:
  "jb_range_state (release_source p J) = jb_range_state J" "jb_ranges (release_source p J) = jb_ranges J"
  "jb_inflight (release_source p J) = jb_inflight J" "jb_resume (release_source p J) = jb_resume J"
  "jb_sink (release_source p J) = jb_sink J" "jb_hasher (release_source p J) = jb_hasher J"
  "jb_commitment (release_source p J) = jb_commitment J" "jb_content (release_source p J) = jb_content J"
  "jb_bytes_done (release_source p J) = jb_bytes_done J"
  "jb_total_failures (release_source p J) = jb_total_failures J"
  by (simp_all add: release_source_def split: option.splits)

lemma finish_book:
  assumes ok: "book_ok D J" and k: "k < length (jb_inflight J)" and i: "i = fj_range (jb_inflight J ! k)"
    and s: "s = Pending \<or> s = Done"
    and rs: "jb_range_state J' = (jb_range_state J)[i := s]" and rg: "jb_ranges J' = jb_ranges J"
    and fl: "jb_inflight J' = without_nth k (jb_inflight J)"
    and ps: "\<forall>q. inflight_of J' q = inflight_of J q - (if fj_peer (jb_inflight J ! k) = q then 1 else 0)"
    and dr: "st_done_ranges (jb_resume J') = (if s = Done then insert i (st_done_ranges (jb_resume J))
                                           else st_done_ranges (jb_resume J))"
  shows "book_ok D J'"
proof -
  have m: "mirror (jb_range_state J) (jb_inflight J)" and d: "distinct (map fj_range (jb_inflight J))"
    using ok by (auto simp: book_ok_def)
  have "(i, fj_peer (jb_inflight J ! k)) \<in> (\<lambda>fj. (fj_range fj, fj_peer fj)) ` set (jb_inflight J)"
    using k i by auto
  then have il: "i < length (jb_range_state J)" "jb_range_state J ! i = InFlight (fj_peer (jb_inflight J ! k))"
    using m unfolding mirror_def by blast+
  have "mirror (jb_range_state J') (jb_inflight J')"
    unfolding rs fl i without_nth_def by (rule mirror_finish[OF m d k s])
  moreover have "distinct (take k (map fj_range (jb_inflight J)) @ drop (Suc k) (map fj_range (jb_inflight J)))"
    using d by (simp add: set_take_disj_set_drop_if_distinct)
  then have "distinct (map fj_range (jb_inflight J'))"
    by (simp only: fl without_nth_def map_append take_map drop_map)
  moreover have "length (jb_inflight J') \<le> max_concurrency (dp_config D)"
    using ok k by (auto simp: fl without_nth_def book_ok_def)
  moreover have "inflight_of J' q = in_flight_by (jb_inflight J') q" for q
    using ok ps by (simp add: fl in_flight_without[OF k] book_ok_def)
  moreover have "inflight_of J' q \<le> max_inflight_per_source (dp_config D)" for q
    using ok ps unfolding book_ok_def by (metis diff_le_self le_trans)
  moreover have "is_done (jb_resume J') j \<longleftrightarrow> jb_range_state J' ! j = Done" if "j < length (jb_ranges J')" for j
    using ok il that s by (auto simp: book_ok_def rs rg dr is_done_def nth_list_update)
  ultimately show ?thesis
    using ok unfolding book_ok_def by (simp add: rs rg)
qed

lemma accept_range_effect:
  assumes "accept_range D i peer elapsed r bs J = (Ok u, J')"
  shows "jb_range_state J' = (jb_range_state J)[i := Done]" "jb_ranges J' = jb_ranges J" "jb_inflight J' = jb_inflight J"
    "jb_inflight_per_source J' = jb_inflight_per_source J" "jb_commitment J' = jb_commitment J"
    "jb_content J' = jb_content J"
    "st_done_ranges (jb_resume J') = insert i (st_done_ranges (jb_resume J))"
    "jb_hasher J' = map_option (feed (dp_hash D) (r_offset r) bs) (jb_hasher J)"
    "sk_write_at (dp_sink D) (r_offset r) bs (jb_sink J) = (Ok (), jb_sink J')"
    "jb_bytes_done J' = saturating_add (jb_bytes_done J) (r_length r)"
    "jb_total_failures J' = jb_total_failures J"
proof -
  obtain w s where w: "sk_write_at (dp_sink D) (r_offset r) bs (jb_sink J) = (w, s)" by fastforce
  obtain v where wv: "w = Ok v" using assms w by (cases w) (auto simp: accept_range_def)
  define J1 where "J1 = J\<lparr>jb_sink := s,
      jb_hasher := map_option (feed (dp_hash D) (r_offset r) bs) (jb_hasher J),
      jb_range_state := (jb_range_state J)[i := Done], jb_resume := mark_done i (jb_resume J),
      jb_bytes_done := saturating_add (jb_bytes_done J) (r_length r),
      jb_tracker := record_success peer (jb_tracker J)\<rparr>"
  define J2 where "J2 = (report_outcome D peer (len64 bs) elapsed ResultOk J1)\<lparr>jb_relocated_since_progress := False\<rparr>"
  obtain c J3 where c: "checkpoint D J2 = (c, J3)" by fastforce
  have J': "J' = emit (RangeCompleted i peer (snapshot J3)) J3"
    using assms w wv c by (cases c) (auto simp: accept_range_def Let_def J1_def J2_def)
  have cs: "same_book J2 J3" "same_data J2 J3" using checkpoint_same[OF c] by auto
  have bd: "jb_bytes_done J3 = jb_bytes_done J2" using c by (auto simp: checkpoint_def split: prod.splits)
  show "jb_range_state J' = (jb_range_state J)[i := Done]" "jb_ranges J' = jb_ranges J" "jb_inflight J' = jb_inflight J"
    "jb_inflight_per_source J' = jb_inflight_per_source J" "jb_commitment J' = jb_commitment J"
    "jb_content J' = jb_content J"
    "st_done_ranges (jb_resume J') = insert i (st_done_ranges (jb_resume J))"
    "jb_hasher J' = map_option (feed (dp_hash D) (r_offset r) bs) (jb_hasher J)"
    "sk_write_at (dp_sink D) (r_offset r) bs (jb_sink J) = (Ok (), jb_sink J')"
    "jb_bytes_done J' = saturating_add (jb_bytes_done J) (r_length r)"
    "jb_total_failures J' = jb_total_failures J"
    using cs bd w wv by (simp_all add: J' emit_def same_book_def same_data_def J2_def J1_def report_outcome_def mark_done_def)
qed

lemma reject_range_effect:
  assumes "reject_range D i peer elapsed e J = (Ok u, J')"
  shows "is_recoverable e" "jb_range_state J' = (jb_range_state J)[i := Pending]" "jb_ranges J' = jb_ranges J"
    "jb_inflight J' = jb_inflight J" "jb_inflight_per_source J' = jb_inflight_per_source J"
    "jb_commitment J' = jb_commitment J" "jb_content J' = jb_content J" "jb_resume J' = jb_resume J"
    "jb_hasher J' = jb_hasher J" "jb_sink J' = jb_sink J" "jb_bytes_done J' = jb_bytes_done J"
    "jb_total_failures J' = min (jb_total_failures J + 1) (usize_max (dp_host D))"
  using assms by (auto simp: reject_range_def Let_def report_outcome_def emit_def split: if_splits)

definition take_fetch :: "nat \<Rightarrow> ('s, 't, 'h, 'w) job \<Rightarrow> ('s, 't, 'h, 'w) job" where
  "take_fetch k J = J\<lparr>jb_inflight := without_nth k (jb_inflight J)\<rparr>"

lemma take_fetch_fields [simp]:
  "jb_range_state (take_fetch k J) = jb_range_state J" "jb_ranges (take_fetch k J) = jb_ranges J"
  "jb_inflight (take_fetch k J) = without_nth k (jb_inflight J)" "jb_resume (take_fetch k J) = jb_resume J"
  "jb_sink (take_fetch k J) = jb_sink J" "jb_hasher (take_fetch k J) = jb_hasher J"
  "jb_commitment (take_fetch k J) = jb_commitment J" "jb_content (take_fetch k J) = jb_content J"
  "jb_bytes_done (take_fetch k J) = jb_bytes_done J" "jb_total_failures (take_fetch k J) = jb_total_failures J"
  "inflight_of (take_fetch k J) = inflight_of J"
  by (simp_all add: take_fetch_def inflight_of_def fun_eq_iff)

text \<open>A completion is an acceptance of verified bytes or a rejection.\<close>

lemma handle_result_cases:
  assumes h: "handle_result D i peer elapsed res J = (Ok u, J')"
  obtains (accepted) bs where "and_then res (verify_fetched D (the (jb_commitment J)) (jb_ranges J ! i)) = Ok bs"
      "accept_range D i peer elapsed (jb_ranges J ! i) bs (release_source peer J) = (Ok u, J')"
    | (rejected) e where "and_then res (verify_fetched D (the (jb_commitment J)) (jb_ranges J ! i)) = Err e"
      "reject_range D i peer elapsed e (release_source peer J) = (Ok u, J')"
  using h by (cases "and_then res (verify_fetched D (the (jb_commitment J)) (jb_ranges J ! i))")
    (auto simp: handle_result_def Let_def)

lemma handle_result_book:
  assumes ok: "book_ok D J" and k: "k < length (jb_inflight J)" and fj: "fj = jb_inflight J ! k"
    and h: "handle_result D (fj_range fj) (fj_peer fj) elapsed res (take_fetch k J) = (Ok u, J')"
  shows "book_ok D J'"
  using h
proof (cases rule: handle_result_cases)
  case (accepted bs)
  note e = accept_range_effect[OF accepted(2)]
  have p: "inflight_of J' q = inflight_of J q - (if fj_peer (jb_inflight J ! k) = q then 1 else 0)" for q
  proof -
    have "inflight_of J' q = inflight_of (release_source (fj_peer fj) (take_fetch k J)) q"
      using e(4) by (simp add: inflight_of_def)
    then show ?thesis using fj by simp
  qed
  show ?thesis
    by (rule finish_book[OF ok k, of "fj_range fj" Done]) (use e fj p in auto)
next
  case (rejected er)
  note e = reject_range_effect[OF rejected(2)]
  have p: "inflight_of J' q = inflight_of J q - (if fj_peer (jb_inflight J ! k) = q then 1 else 0)" for q
  proof -
    have "inflight_of J' q = inflight_of (release_source (fj_peer fj) (take_fetch k J)) q"
      using e(5) by (simp add: inflight_of_def)
    then show ?thesis using fj by simp
  qed
  show ?thesis
    by (rule finish_book[OF ok k, of "fj_range fj" Pending]) (use e fj p in auto)
qed

lemma take_turn_cases:
  assumes t: "take_turn D wk tn J = (r, J')"
  obtains (fetch) k elapsed raw where "tn = FetchDone k elapsed raw" "k < length (jb_inflight J)"
      "handle_result D (fj_range (jb_inflight J ! k)) (fj_peer (jb_inflight J ! k)) elapsed
         (fetch_output (dp_config D) (jb_inflight J ! k) elapsed raw) (take_fetch k J) = (r, J')"
    | (other) "same_book J J'" "same_data J J'"
proof (cases tn)
  case (GotControl c)
  then have "on_control D c J = (r, J')" using t by (simp add: take_turn_def)
  from on_control_same[OF this] show ?thesis using other by blast
next
  case (FetchDone k elapsed raw)
  show ?thesis
  proof (cases "k < length (jb_inflight J)")
    case True
    then show ?thesis using t FetchDone fetch by (simp add: take_turn_def Let_def take_fetch_def without_nth_def)
  next
    case False
    then show ?thesis using t FetchDone other by (simp add: take_turn_def)
  qed
next
  case BackoffElapsed
  then show ?thesis using t other by (simp add: take_turn_def)
next
  case RefreshDue
  then have "J' = J \<or> J' = on_refresh D J" using t by (auto simp: take_turn_def split: if_splits)
  then show ?thesis using on_refresh_same other by (metis same_refl)
qed

lemma take_turn_book:
  assumes ok: "book_ok D J" and t: "take_turn D wk tn J = (Ok u, J')"
  shows "book_ok D J'"
  using t
proof (cases rule: take_turn_cases)
  case (fetch k elapsed raw)
  show ?thesis by (rule handle_result_book[OF ok fetch(2) refl fetch(3)])
next
  case other
  then show ?thesis using ok by (simp add: book_ok_same)
qed

section \<open>Every step\<close>

text \<open>What the top of the loop may do: fill, then touch neither book nor data.\<close>

definition filled :: "('s, 't, 'h, 'w) deps \<Rightarrow> ('s, 't, 'h, 'w) job \<Rightarrow> ('s, 't, 'h, 'w) job" where
  "filled D J = (if jb_paused J then J else fill D J)"

lemma wait_for_backoff_same: "wait_for_backoff D J = (d, J') \<Longrightarrow> same_book J J' \<and> same_data J J'"
  by (auto simp: wait_for_backoff_def give_up_def split: option.splits)

lemma loop_top_same:
  assumes t: "loop_top D J = (d, J')"
  shows "same_book (filled D J) J' \<and> same_data (filled D J) J'"
proof -
  let ?K = "filled D J"
  obtain x K1 where r: "relocate D ?K = (x, K1)" by fastforce
  note rs = relocate_same[OF r]
  let ?K2 = "K1\<lparr>jb_relocated_since_progress := True\<rparr>"
  have k2: "same_book ?K ?K2 \<and> same_data ?K ?K2" using rs by (simp add: same_book_def same_data_def)
  obtain d1 W1 where w1: "wait_for_backoff D ?K = (d1, W1)" by fastforce
  obtain d2 W2 where w2: "wait_for_backoff D ?K2 = (d2, W2)" by fastforce
  have s: "same_book ?K W1 \<and> same_data ?K W1" "same_book ?K W2 \<and> same_data ?K W2"
    using wait_for_backoff_same[OF w1] wait_for_backoff_same[OF w2] k2 same_book_trans same_data_trans by blast+
  have "J' = ?K \<or> (\<exists>e. J' = emit e ?K) \<or> J' = K1 \<or> J' = ?K2 \<or> J' = W1 \<or> J' = W2"
    using t r w1 w2 unfolding loop_top_def filled_def[symmetric] Let_def
    by (auto simp: give_up_def split: if_splits sum.splits)
  then show ?thesis using s rs k2 by (auto simp: same_refl)
qed

lemma filled_book: "book_ok D J \<Longrightarrow> book_ok D (filled D J)"
  by (simp add: filled_def fill_book)

lemma loop_top_book: "book_ok D J \<Longrightarrow> loop_top D J = (d, J') \<Longrightarrow> book_ok D J'"
  using loop_top_same filled_book book_ok_same by blast

lemma sched_step_book: "sched_step D J J' \<Longrightarrow> book_ok D J \<Longrightarrow> book_ok D J'"
proof (induction rule: sched_step.cases)
  case (retry J J1)
  then show ?case using loop_top_book by blast
next
  case (turn J wk J1 tn J2 u J3)
  then have "book_ok D J2" using loop_top_book next_turn_same book_ok_same by blast
  then show ?case using take_turn_book turn by blast
qed

lemma sched_reach_book: "sched_reach D J J' \<Longrightarrow> book_ok D J \<Longrightarrow> book_ok D J'"
  by (induction rule: sched_reach.induct) (auto intro: sched_step_book)

end
