(* ===== verification/Staging.thy ===== *)
theory Staging
  imports Completion
begin

text \<open>
  What the incremental hasher knows about the staged bytes. \<open>hash_ok HO stg P h\<close> says that \<open>h\<close>
  has hashed exactly a prefix of the staged bytes \<open>stg\<close>, and that everything it has hashed or
  buffered is a copy of staged bytes inside \<open>P\<close>, the positions of the ranges that are done.
  Feeding a piece that is staged keeps it, and so does any write outside \<open>P\<close>.
\<close>

section \<open>Regions of a plan\<close>

definition region :: "range list \<Rightarrow> nat \<Rightarrow> nat set" where
  "region rs m = {unat (r_offset (rs ! m)) ..< unat (r_offset (rs ! m)) + unat (r_length (rs ! m))}"

definition regions :: "range list \<Rightarrow> nat set \<Rightarrow> nat set" where
  "regions rs M = (\<Union>m\<in>M. region rs m)"

definition done_set :: "range_state list \<Rightarrow> nat set" where
  "done_set st = {i. i < length st \<and> st ! i = Done}"

lemma regions_mono: "M \<subseteq> N \<Longrightarrow> regions rs M \<subseteq> regions rs N"
  by (auto simp: regions_def)

lemma regions_insert [simp]: "regions rs (insert m M) = region rs m \<union> regions rs M"
  by (simp add: regions_def)

lemma regions_empty [simp]: "regions rs {} = {}"
  by (simp add: regions_def)

lemma tiles_apart:
  assumes "tiles L i k rs" "m < n" "n < length rs"
  shows "unat (r_offset (rs ! m)) + unat (r_length (rs ! m)) \<le> unat (r_offset (rs ! n))"
proof -
  have m: "m < length rs" using assms by simp
  have "(\<Sum>r\<leftarrow>take (Suc m) rs. unat (r_length r)) \<le> (\<Sum>r\<leftarrow>take n rs. unat (r_length r))"
  proof -
    have "take n rs = take (Suc m) rs @ take (n - Suc m) (drop (Suc m) rs)"
      using assms(2) by (metis Suc_leI le_add_diff_inverse take_add)
    then show ?thesis by simp
  qed
  moreover have "(\<Sum>r\<leftarrow>take (Suc m) rs. unat (r_length r)) = (\<Sum>r\<leftarrow>take m rs. unat (r_length r)) + unat (r_length (rs ! m))"
    using m by (simp add: take_Suc_conv_app_nth)
  ultimately show ?thesis using tiles_offset[OF assms(1) m] tiles_offset[OF assms(1,3)] by simp
qed

lemma region_disjoint:
  assumes "tiles L i k rs" "m < length rs" "n < length rs" "m \<noteq> n"
  shows "region rs m \<inter> region rs n = {}"
proof (cases "m < n")
  case True
  then show ?thesis using tiles_apart[OF assms(1) True assms(3)] by (auto simp: region_def)
next
  case False
  then have "n < m" using assms(4) by simp
  then show ?thesis using tiles_apart[OF assms(1) _ assms(2), of n] by (auto simp: region_def)
qed

lemma regions_disjoint:
  assumes "tiles L i k rs" "m < length rs" "m \<notin> M" "\<forall>j\<in>M. j < length rs"
  shows "region rs m \<inter> regions rs M = {}"
  using assms region_disjoint[OF assms(1,2)] unfolding regions_def by blast

text \<open>A planned range ends within the resource, so its end does not wrap.\<close>

lemma tiles_end64:
  assumes "layout_ok L" "tiles L i k rs" "m < length rs"
  shows "unat (r_offset (rs ! m)) + unat (r_length (rs ! m)) < 2 ^ 64"
  using tiles_nth(6)[OF assms(2,3)] layout_ok_bound[OF assms(1)] by simp

section \<open>The hasher against the staged bytes\<close>

definition piece_ok :: "bytes \<Rightarrow> nat set \<Rightarrow> u64 \<times> bytes \<Rightarrow> bool" where
  "piece_ok stg P p \<longleftrightarrow>
     (case p of (q, bs) \<Rightarrow> bs = slice stg (unat q) (length bs) \<and> unat q + length bs < 2 ^ 64
        \<and> (bs = [] \<or> unat q + length bs \<le> length stg) \<and> {unat q ..< unat q + length bs} \<subseteq> P)"

definition hash_ok :: "'h hash_ops \<Rightarrow> bytes \<Rightarrow> nat set \<Rightarrow> 'h resource_hasher \<Rightarrow> bool" where
  "hash_ok HO stg P h \<longleftrightarrow>
     (\<exists>bss. hasher h = absorb HO bss \<and> concat bss = take (unat (next_offset h)) stg)
     \<and> unat (next_offset h) \<le> length stg \<and> {..< unat (next_offset h)} \<subseteq> P
     \<and> (\<forall>p \<in> set (pending h). piece_ok stg P p)"

lemma hash_ok_new: "hash_ok HO stg P (resource_hasher_new HO)"
  by (auto simp: hash_ok_def resource_hasher_new_def absorb_def intro!: exI[of _ "[]"])

lemma hash_ok_mono: "hash_ok HO stg P h \<Longrightarrow> P \<subseteq> Q \<Longrightarrow> hash_ok HO stg Q h"
  unfolding hash_ok_def piece_ok_def by fast

lemma set_update_subset: "set (AList.update k v al) \<subseteq> insert (k, v) (set al)"
  by (induction al) auto

lemma set_delete_subset: "set (AList.delete k al) \<subseteq> set al"
  by (induction al) auto

lemma hash_ok_drain: "hash_ok HO stg P h \<Longrightarrow> hash_ok HO stg P (drain HO h)"
proof (induction HO h rule: drain.induct)
  case (1 HO h)
  show ?case
  proof (cases "map_of (pending h) (next_offset h)")
    case None
    then show ?thesis using "1.prems" by (subst drain.simps) simp
  next
    case (Some chunk)
    let ?q = "next_offset h"
    let ?h = "h\<lparr>hasher := h_update HO (hasher h) chunk, next_offset := saturating_add ?q (len64 chunk),
                pending := AList.delete ?q (pending h)\<rparr>"
    have p: "piece_ok stg P (?q, chunk)"
      using "1.prems" map_of_SomeD[OF Some] by (simp add: hash_ok_def)
    then have e: "unat (saturating_add ?q (len64 chunk)) = unat ?q + length chunk"
      by (simp add: piece_ok_def unat_saturating_add unat_len64)
    from "1.prems" obtain bss where
      b: "hasher h = absorb HO bss" "concat bss = take (unat ?q) stg" and l: "unat ?q \<le> length stg"
      by (auto simp: hash_ok_def)
    have t: "take (unat ?q) stg @ chunk = take (unat ?q + length chunk) stg"
      using p take_slice_append[of "unat ?q" stg "length chunk"] by (simp add: piece_ok_def)
    have "h_update HO (hasher h) chunk = absorb HO (bss @ [chunk])" using b by (simp add: absorb_def)
    moreover have "concat (bss @ [chunk]) = take (unat ?q + length chunk) stg" using b t by simp
    moreover have "unat ?q + length chunk \<le> length stg" using p l by (auto simp: piece_ok_def)
    moreover have "{..< unat ?q + length chunk} \<subseteq> P"
    proof -
      have "{..< unat ?q + length chunk} = {..< unat ?q} \<union> {unat ?q ..< unat ?q + length chunk}" by auto
      then show ?thesis using "1.prems" p by (auto simp: hash_ok_def piece_ok_def)
    qed
    moreover have "\<forall>p \<in> set (AList.delete ?q (pending h)). piece_ok stg P p"
      using "1.prems" set_delete_subset[of ?q "pending h"] by (auto simp: hash_ok_def)
    ultimately have "hash_ok HO stg P ?h" unfolding hash_ok_def using e by auto
    from "1.IH"[OF Some this] show ?thesis using Some by (subst drain.simps) simp
  qed
qed

lemma hash_ok_feed:
  assumes h: "hash_ok HO stg P h" and p: "piece_ok stg P (q, bs)"
  shows "hash_ok HO stg P (feed HO q bs h)"
proof (cases "q < next_offset h")
  case True
  then show ?thesis using h by (simp add: feed_def)
next
  case False
  have "\<forall>x \<in> set (AList.update q bs (pending h)). piece_ok stg P x"
    using h p set_update_subset[of q bs "pending h"] by (auto simp: hash_ok_def)
  then have "hash_ok HO stg P (h\<lparr>pending := AList.update q bs (pending h)\<rparr>)"
    using h by (simp add: hash_ok_def)
  then show ?thesis using False hash_ok_drain by (simp add: feed_def)
qed

section \<open>Writes outside the done positions\<close>

definition agrees_on :: "nat set \<Rightarrow> bytes \<Rightarrow> bytes \<Rightarrow> bool" where
  "agrees_on P stg stg' \<longleftrightarrow> (\<forall>p\<in>P. p < length stg \<longrightarrow> p < length stg' \<and> stg' ! p = stg ! p)"

lemma agrees_slice:
  assumes "agrees_on P stg stg'" "{q ..< q + n} \<subseteq> P" "q + n \<le> length stg" "q + n \<le> length stg'"
  shows "slice stg' q n = slice stg q n"
  by (rule nth_equalityI) (use assms in \<open>auto simp: agrees_on_def nth_slice subset_iff\<close>)

lemma agrees_length: "agrees_on P stg stg' \<Longrightarrow> {q ..< q + n} \<subseteq> P \<Longrightarrow> q + n \<le> length stg \<Longrightarrow> 0 < n \<Longrightarrow> q + n \<le> length stg'"
  unfolding agrees_on_def by (auto simp: subset_iff dest!: spec[of _ "q + n - 1"] bspec[of _ _ "q + n - 1"])

lemma hash_ok_agrees:
  assumes h: "hash_ok HO stg P h" and a: "agrees_on P stg stg'"
  shows "hash_ok HO stg' P h"
proof -
  let ?n = "unat (next_offset h)"
  have n: "?n \<le> length stg" "{0 ..< 0 + ?n} \<subseteq> P" using h by (auto simp: hash_ok_def atLeast0LessThan)
  have n': "?n \<le> length stg'" using agrees_length[OF a n(2)] n(1) by (cases "?n = 0") auto
  have t: "take ?n stg' = take ?n stg"
    using agrees_slice[OF a n(2)] n(1) n' by (simp add: slice_0)
  have "piece_ok stg' P p" if "p \<in> set (pending h)" for p
  proof (cases p)
    case (Pair q bs)
    then have p: "piece_ok stg P (q, bs)" using h that by (auto simp: hash_ok_def)
    show ?thesis
    proof (cases "bs = []")
      case True
      then show ?thesis using p Pair by (simp add: piece_ok_def slice_def)
    next
      case False
      then have l: "unat q + length bs \<le> length stg" "{unat q ..< unat q + length bs} \<subseteq> P"
        using p by (auto simp: piece_ok_def)
      then have "unat q + length bs \<le> length stg'" using agrees_length[OF a] False by auto
      then show ?thesis using p Pair l agrees_slice[OF a l(2,1)] by (simp add: piece_ok_def)
    qed
  qed
  then show ?thesis using h t n' by (auto simp: hash_ok_def)
qed

lemma place_agrees:
  assumes "{q ..< q + length bs} \<inter> P = {}"
  shows "agrees_on P stg (place q bs stg)"
proof -
  have "p < q \<or> q + length bs \<le> p" if "p \<in> P" for p
  proof -
    have "p \<notin> {q ..< q + length bs}" using assms that by blast
    then show ?thesis by auto
  qed
  then show ?thesis by (fastforce simp: agrees_on_def nth_place)
qed

lemma prefix_agrees: "take (length stg) stg' = stg \<Longrightarrow> agrees_on P stg stg'"
  unfolding agrees_on_def by (metis length_take min_less_iff_conj nth_take)

end
