(* ===== verification/Download_Correct.thy ===== *)
theory Download_Correct
  imports Staging
begin

text \<open>
  The end-to-end contract of a download, proved once for any observable sink, any sound
  verifier and any streaming digest: whatever the providers answer and in whatever order, a
  run that returns success has promoted exactly the bytes whose digest the verifier bound to
  the commitment, and a run that fails has left the artifact as it was.
\<close>

section \<open>What a downloader is built from\<close>

definition downloader_new ::
    "'s sink_ops \<Rightarrow> 't state_ops \<Rightarrow> verifier_ops \<Rightarrow> 'h hash_ops \<Rightarrow> 'w env \<Rightarrow> download_config \<Rightarrow> host
     \<Rightarrow> ('s, 't, 'h, 'w) deps" where
  "downloader_new SK T V HO E cf H =
     \<lparr>dp_sink = SK, dp_store = T, dp_verifier = V, dp_hash = HO, dp_env = E, dp_config = cf, dp_host = H\<rparr>"

text \<open>Bytes a transport returns are a vector.\<close>

definition responses_ok :: "'w env \<Rightarrow> bool" where
  "responses_ok E \<longleftrightarrow>
     (\<forall>w k el f. fst (en_turn E w) = FetchDone k el (Ok f) \<longrightarrow> vec_ok (fetched_bytes f))"

lemma fetch_output_bytes: "fetch_output cf fj el raw = Ok f \<Longrightarrow> raw = Ok f"
  by (auto simp: fetch_output_def timed_result_def split: option.splits sum.splits if_splits)

lemma verify_fetched_bytes:
  "verify_fetched D C r f = Ok bs \<Longrightarrow> bs = fetched_bytes f
     \<and> (\<exists>u. v_range (dp_verifier D) C (of_nat (chunk_start r)) (r_length r) bs = Ok u)"
  by (auto simp: verify_fetched_def and_then_Ok_iff)

lemma fill_loop_done:
  "done_set (jb_range_state (fill_loop D plan J)) = done_set (jb_range_state J)"
proof (induction D plan J rule: fill_loop.induct)
  case (1 D plan J)
  have st: "done_set (jb_range_state (start_fetch i peer J)) = done_set (jb_range_state J)"
    if "next_pending J = Some i" for i peer
    using that by (auto simp: done_set_def start_fetch_def next_pending_def position_Some_iff nth_list_update)
  show ?case using 1 st
    by (subst fill_loop.simps) (auto split: option.splits)
qed

lemma filled_book_data:
  "done_set (jb_range_state (filled D J)) = done_set (jb_range_state J) \<and> jb_ranges (filled D J) = jb_ranges J
   \<and> same_data J (filled D J)"
proof -
  obtain plan J1 where a: "ask_selector D J = (plan, J1)" by fastforce
  note s = ask_selector_same[OF a]
  note l = fill_loop_data[where D = D and plan = plan and J = J1]
  have "filled D J = (if jb_paused J then J else fill_loop D plan J1)" by (simp add: filled_def fill_def a)
  moreover have "done_set (jb_range_state (fill_loop D plan J1)) = done_set (jb_range_state J)"
    "jb_ranges (fill_loop D plan J1) = jb_ranges J"
    using fill_loop_done[where D = D and plan = plan and J = J1] s l by (simp_all add: same_book_def)
  moreover have "same_data J (fill_loop D plan J1)" using s l same_data_trans by blast
  ultimately show ?thesis by simp
qed

section \<open>Before the scheduler\<close>

text \<open>The preparation of a job assigns nothing.\<close>

definition idle :: "('s, 't, 'h, 'w) job \<Rightarrow> bool" where
  "idle J \<longleftrightarrow> jb_inflight J = [] \<and> jb_inflight_per_source J = []"

definition keeps :: "('s, 't, 'h, 'w) job \<Rightarrow> ('s, 't, 'h, 'w) job \<Rightarrow> bool" where
  "keeps J J' \<longleftrightarrow> jb_sink J' = jb_sink J \<and> jb_content J' = jb_content J \<and> (idle J \<longrightarrow> idle J')"

lemma same_keeps: "same_book J J' \<Longrightarrow> same_data J J' \<Longrightarrow> keeps J J' \<and> jb_commitment J' = jb_commitment J"
  by (simp add: same_book_def same_data_def keeps_def idle_def)

lemma keeps_trans: "keeps J1 J2 \<Longrightarrow> keeps J J1 \<Longrightarrow> keeps J J2"
  by (simp add: keeps_def)

lemma adopt_layout_OkD:
  assumes "adopt_layout D c p f = Ok C"
  shows "commitment_ok C" "c_root C = rm_root (fetched_meta f)"
    "content_root_hex c = None \<or> rm_root (fetched_meta f) = content_root_hex c"
proof -
  from assms obtain tot lens where
    f: "from_first_frame_bounded (dp_host D) tot lens (rm_root (fetched_meta f))
          (rm_inclusion_proof (fetched_meta f)) (max_resource_size (dp_config D)) = Ok C"
    and r: "check_declared_root (content_root_hex c) (rm_root (fetched_meta f)) = Ok ()"
    by (auto simp: adopt_layout_def Let_def and_then_Ok_iff split: option.splits if_splits)
  show "commitment_ok C" "c_root C = rm_root (fetched_meta f)" using from_first_frame_OkD[OF f] by auto
  show "content_root_hex c = None \<or> rm_root (fetched_meta f) = content_root_hex c"
    using r by (auto simp: check_declared_root_def split: option.splits if_splits)
qed

lemma probe_holders_OkD:
  "probe_holders D c ps reasons w = (Ok (Some C, rs), w') \<Longrightarrow> \<exists>p f. adopt_layout D c p f = Ok C"
proof (induction ps arbitrary: reasons w)
  case Nil
  then show ?case by simp
next
  case (Cons p ps)
  from Cons.prems show ?case
    by (auto split: sum.splits prod.splits intro: Cons.IH)
qed

lemma establish_commitment_ok:
  assumes "establish_commitment D J = (r, J')"
  shows "keeps J J'"
    and "r = Ok u \<Longrightarrow> \<exists>C p f. jb_commitment J' = Some C \<and> adopt_layout D (jb_content J) p f = Ok C"
  using assms unfolding establish_commitment_def
  by (auto simp: keeps_def idle_def emit_def Let_def split: prod.splits sum.splits option.splits
      dest!: probe_holders_OkD) blast

lemma persist_commitment_same:
  assumes "persist_commitment D J = (r, J')"
  shows "keeps J J' \<and> jb_commitment J' = jb_commitment J"
  using assms
  by (auto simp: persist_commitment_def checkpoint_def keeps_def idle_def split: option.splits prod.splits)

section \<open>Resuming\<close>

lemma rehydrate_range_cases:
  assumes J': "J' = rehydrate_range D C r J"
  obtains (fed) bs u where "jb_hasher J \<noteq> None"
      "sk_read_at (dp_sink D) (r_offset r) (r_length r) (jb_sink J) = (Ok bs, jb_sink J')"
      "v_range (dp_verifier D) C (of_nat (chunk_start r)) (r_length r) bs = Ok u"
      "jb_hasher J' = map_option (feed (dp_hash D) (r_offset r) bs) (jb_hasher J)"
      "jb_range_state J' = jb_range_state J" "jb_resume J' = jb_resume J"
    | (requeued) "jb_hasher J' = jb_hasher J" "jb_range_state J' = (jb_range_state J)[r_index r := Pending]"
      "st_done_ranges (jb_resume J') = st_done_ranges (jb_resume J) - {r_index r}"
      "jb_sink J' = jb_sink J \<or> (\<exists>x. sk_read_at (dp_sink D) (r_offset r) (r_length r) (jb_sink J) = (x, jb_sink J'))"
proof (cases "jb_hasher J")
  case None
  then show ?thesis using requeued J' by (simp add: rehydrate_range_def Let_def)
next
  case (Some h)
  obtain x s where x: "sk_read_at (dp_sink D) (r_offset r) (r_length r) (jb_sink J) = (x, s)" by fastforce
  let ?v = "\<lambda>bs. v_range (dp_verifier D) C (of_nat (chunk_start r)) (r_length r) bs"
  show ?thesis
  proof (cases "\<exists>bs u. x = Ok bs \<and> ?v bs = Ok u")
    case True
    then obtain bs u where b: "x = Ok bs" "?v bs = Ok u" by blast
    show ?thesis by (rule fed[of bs u]) (use J' Some x b in \<open>simp_all add: rehydrate_range_def Let_def\<close>)
  next
    case False
    obtain e where e: "and_then x (\<lambda>bs. map_err Verify (and_then (?v bs) (\<lambda>_. Ok bs))) = Err e"
    proof (cases x)
      case (Inl e0)
      then show ?thesis using that by simp
    next
      case (Inr bs)
      then obtain e1 where "?v bs = Err e1" using False by (cases "?v bs") auto
      then show ?thesis using that Inr by simp
    qed
    show ?thesis by (rule requeued) (use J' Some x e in \<open>simp_all add: rehydrate_range_def Let_def\<close>)
  qed
qed

lemma rehydrate_range_fields [simp]:
  "jb_ranges (rehydrate_range D C r J) = jb_ranges J" "jb_commitment (rehydrate_range D C r J) = jb_commitment J"
  "jb_content (rehydrate_range D C r J) = jb_content J" "idle (rehydrate_range D C r J) = idle J"
  "length (jb_range_state (rehydrate_range D C r J)) = length (jb_range_state J)"
  by (simp_all add: rehydrate_range_def Let_def idle_def split: option.splits prod.splits sum.splits)

text \<open>The bookkeeping of a job nothing has been assigned for.\<close>

definition ready :: "('s, 't, 'h, 'w) job \<Rightarrow> bool" where
  "ready J \<longleftrightarrow> idle J \<and> length (jb_range_state J) = length (jb_ranges J)
     \<and> (\<forall>i < length (jb_ranges J). jb_range_state J ! i \<in> {Done, Pending}
          \<and> (is_done (jb_resume J) i \<longleftrightarrow> jb_range_state J ! i = Done))"

lemma ready_book: "ready J \<Longrightarrow> book_ok D J"
  by (auto simp: ready_def book_ok_def mirror_def idle_def inflight_of_def in_flight_by_def)

lemma rehydrate_range_ready:
  assumes "ready J" "r_index r < length (jb_ranges J)" shows "ready (rehydrate_range D C r J)"
  by (rule rehydrate_range_cases[OF refl, where D = D and C = C and r = r and J = J])
    (use assms in \<open>auto simp: ready_def is_done_def nth_list_update\<close>)

lemma fold_rehydrate_ready:
  "ready J \<Longrightarrow> \<forall>r \<in> set rl. r_index r < length (jb_ranges J) \<Longrightarrow> ready (fold (rehydrate_range D C) rl J)"
  by (induction rl arbitrary: J) (simp_all add: rehydrate_range_ready)

lemma fold_rehydrate_fields [simp]:
  "jb_ranges (fold (rehydrate_range D C) rl J) = jb_ranges J"
  "jb_commitment (fold (rehydrate_range D C) rl J) = jb_commitment J"
  "jb_content (fold (rehydrate_range D C) rl J) = jb_content J"
  by (induction rl arbitrary: J) simp_all

definition planned :: "('s, 't, 'h, 'w) deps \<Rightarrow> resource_commitment \<Rightarrow> ('s, 't, 'h, 'w) job \<Rightarrow> ('s, 't, 'h, 'w) job" where
  "planned D C J =
     (let rs = plan_ranges (c_layout C) (window (dp_config D))
      in J\<lparr>jb_ranges := rs,
           jb_range_state := map (\<lambda>r. if is_done (jb_resume J) (r_index r) then Done else Pending) rs,
           jb_hasher := (if verify_whole_resource (dp_config D) then Some (resource_hasher_new (dp_hash D)) else None),
           jb_bytes_done := sum_list (map r_length (filter (\<lambda>r. is_done (jb_resume J) (r_index r)) rs))\<rparr>)"

lemma plan_job_planned:
  "plan_job D C J =
     (let J2 = rehydrate_resumed_ranges D C (planned D C J)
      in emit (Planned (length (jb_ranges J2)) (c_total_length C)) J2)"
  by (simp add: plan_job_def planned_def Let_def)

lemma tiles_index:
  assumes "tiles L 0 0 rs" "r \<in> set rs"
  shows "r_index r < length rs" "rs ! r_index r = r"
  using assms tiles_nth(1)[OF assms(1)] by (auto simp: in_set_conv_nth)

lemma planned_ready:
  assumes "layout_ok (c_layout C)" "idle J" shows "ready (planned D C J)"
  using assms tiles_nth(1)[OF plan_ranges_tiles[OF assms(1)]]
  by (auto simp: ready_def planned_def Let_def idle_def)

lemma plan_job_ready:
  assumes "layout_ok (c_layout C)" "idle J" shows "ready (plan_job D C J)"
proof -
  have "r_index r < length (jb_ranges (planned D C J))"
    if "r \<in> set (jb_ranges (planned D C J))" for r
    using tiles_index[OF plan_ranges_tiles[OF assms(1)]] that by (simp add: planned_def Let_def)
  then have "ready (rehydrate_resumed_ranges D C (planned D C J))"
    unfolding rehydrate_resumed_ranges_def by (intro fold_rehydrate_ready planned_ready assms) auto
  then show ?thesis by (simp add: plan_job_planned Let_def emit_def ready_def idle_def)
qed

section \<open>The contract of the parts\<close>

locale downloader =
  observable_sink SK valid staged artifact + sound_verifier V anchored + streaming_hash HO
  for SK :: "'s sink_ops" and valid :: "'s \<Rightarrow> bool" and staged :: "'s \<Rightarrow> bytes"
    and artifact :: "'s \<Rightarrow> bytes option" and V :: verifier_ops
    and anchored :: "resource_commitment \<Rightarrow> bytes \<Rightarrow> bool" and HO :: "'h hash_ops"
begin

definition plugged :: "('s, 't, 'h, 'w) deps \<Rightarrow> bool" where
  "plugged D \<longleftrightarrow> dp_sink D = SK \<and> dp_verifier D = V \<and> dp_hash D = HO \<and> responses_ok (dp_env D)"

text \<open>The sink is in order and the artifact is still what it was.\<close>

definition sink_ok :: "bytes option \<Rightarrow> ('s, 't, 'h, 'w) job \<Rightarrow> bool" where
  "sink_ok a J \<longleftrightarrow> valid (jb_sink J) \<and> artifact (jb_sink J) = a"

lemma sink_ok_same: "same_data J J' \<Longrightarrow> sink_ok a J' = sink_ok a J"
  by (simp add: sink_ok_def same_data_def)

lemma clear_checkpoint_fields [simp]:
  "jb_sink (clear_checkpoint D J) = jb_sink J" "jb_hasher (clear_checkpoint D J) = jb_hasher J"
  "jb_commitment (clear_checkpoint D J) = jb_commitment J" "jb_content (clear_checkpoint D J) = jb_content J"
  by (simp_all add: clear_checkpoint_def split: prod.splits)

lemma truncate_staging_ok: "plugged D \<Longrightarrow> sink_ok a J \<Longrightarrow> sink_ok a (truncate_staging D J)"
  using truncate_frame[of "jb_sink J" 0]
  by (auto simp: truncate_staging_def sink_ok_def plugged_def split: prod.splits)

lemma discard_assembly_ok: "plugged D \<Longrightarrow> sink_ok a J \<Longrightarrow> sink_ok a (discard_unverifiable_assembly D J)"
  unfolding discard_unverifiable_assembly_def
  by (rule truncate_staging_ok) (simp_all add: sink_ok_def)

text \<open>The bytes a completion delivers, when it is accepted, have the planned length.\<close>

lemma delivered:
  assumes D: "plugged D" and v: "vec_ok bs"
    and r: "v_range (dp_verifier D) C i n bs = Ok u"
  shows "length bs = unat n"
  using range_exact[of C i n bs] D v r by (cases u) (simp add: plugged_def)

lemma fetched_vec:
  assumes "plugged D" "next_turn D J = (FetchDone k el (Ok f), J')"
  shows "vec_ok (fetched_bytes f)"
  using assms unfolding plugged_def responses_ok_def next_turn_def
  by (auto split: prod.splits) (metis fst_conv)

lemma accept_range_ok:
  assumes D: "plugged D" and s: "sink_ok a J" and v: "vec_ok bs"
    and h: "accept_range D i peer el r bs J = (x, J')"
  shows "sink_ok a J'"
proof -
  obtain w s1 where w: "sk_write_at (dp_sink D) (r_offset r) bs (jb_sink J) = (w, s1)" by fastforce
  then have s1: "valid s1 \<and> artifact s1 = a"
    using write_frame[of "jb_sink J" "r_offset r" bs w s1] D s v by (simp add: plugged_def sink_ok_def)
  have "jb_sink J' = s1"
    using h w by (auto simp: accept_range_def Let_def report_outcome_def checkpoint_def emit_def
        split: sum.splits prod.splits)
  then show ?thesis using s1 by (simp add: sink_ok_def)
qed

lemma handle_result_ok:
  assumes D: "plugged D" and s: "sink_ok a J" and v: "\<And>f. res = Ok f \<Longrightarrow> vec_ok (fetched_bytes f)"
    and h: "handle_result D i peer el res J = (x, J')"
  shows "sink_ok a J'"
proof -
  let ?v = "and_then res (verify_fetched D (the (jb_commitment J)) (jb_ranges J ! i))"
  have s': "sink_ok a (release_source peer J)" using s by (simp add: sink_ok_def)
  show ?thesis
  proof (cases ?v)
    case (Inl e)
    then have "reject_range D i peer el e (release_source peer J) = (x, J')"
      using h by (simp add: handle_result_def)
    then have "jb_sink J' = jb_sink (release_source peer J)"
      by (auto simp: reject_range_def Let_def report_outcome_def emit_def split: if_splits)
    then show ?thesis using s' by (simp add: sink_ok_def)
  next
    case (Inr bs)
    then obtain f where "res = Ok f" "bs = fetched_bytes f"
      by (auto simp: and_then_Ok_iff dest: verify_fetched_bytes)
    then have "vec_ok bs" using v by blast
    moreover have "accept_range D i peer el (jb_ranges J ! i) bs (release_source peer J) = (x, J')"
      using h Inr by (simp add: handle_result_def)
    ultimately show ?thesis using accept_range_ok[OF D s'] by blast
  qed
qed

lemma take_turn_ok:
  assumes D: "plugged D" and n: "next_turn D J = (tn, J1)" and s: "sink_ok a J"
    and t: "take_turn D wk tn J1 = (x, J')"
  shows "sink_ok a J'"
proof -
  have s1: "sink_ok a J1" using next_turn_same[OF n] s sink_ok_same by blast
  from t show ?thesis
  proof (cases rule: take_turn_cases)
    case (fetch k el raw)
    have "vec_ok (fetched_bytes f)" if "fetch_output (dp_config D) (jb_inflight J1 ! k) el raw = Ok f" for f
      using fetch_output_bytes[OF that] fetched_vec[OF D] n fetch(1) by blast
    moreover have "sink_ok a (take_fetch k J1)" using s1 by (simp add: sink_ok_def)
    ultimately show ?thesis using handle_result_ok[OF D _ _ fetch(3)] by blast
  next
    case other
    then show ?thesis using s1 sink_ok_same by blast
  qed
qed

lemma filled_same_data: "same_data J (filled D J)"
  using filled_book_data by blast

lemma loop_top_data: "loop_top D J = (d, J') \<Longrightarrow> same_data J J'"
  using loop_top_same filled_same_data same_data_trans by blast

lemma sched_step_ok:
  assumes "plugged D" shows "sched_step D J J' \<Longrightarrow> sink_ok a J \<Longrightarrow> sink_ok a J'"
proof (induction rule: sched_step.cases)
  case (retry J J1)
  then show ?case using loop_top_data sink_ok_same by blast
next
  case (turn J wk J1 tn J2 u J3)
  then have "sink_ok a J1" using loop_top_data sink_ok_same by blast
  then show ?case using take_turn_ok[OF assms] turn by blast
qed

lemma sched_reach_ok:
  assumes "plugged D" shows "sched_reach D J J' \<Longrightarrow> sink_ok a J \<Longrightarrow> sink_ok a J'"
  by (induction rule: sched_reach.induct) (auto intro: sched_step_ok[OF assms])

lemma sched_stops_ok:
  assumes D: "plugged D" and st: "sched_stops D J r J'" and s: "sink_ok a J"
  shows "sink_ok a J'"
  using st
proof (induction rule: sched_stops.cases)
  case (returns J r J1)
  then show ?case using loop_top_data sink_ok_same s by blast
next
  case (fails J wk J1 tn J2 e J3)
  then have "sink_ok a J1" using loop_top_data sink_ok_same s by blast
  then show ?case using take_turn_ok[OF D] fails by blast
qed

lemma schedule_loop_ok:
  "plugged D \<Longrightarrow> schedule_loop n D J = Some (r, J') \<Longrightarrow> sink_ok a J \<Longrightarrow> sink_ok a J'"
  using schedule_loop_reaches sched_reach_ok sched_stops_ok by blast

text \<open>
  The hasher has hashed and buffered nothing but copies of staged bytes in ranges that are
  done.
\<close>

definition data_ok :: "resource_commitment \<Rightarrow> ('s, 't, 'h, 'w) job \<Rightarrow> bool" where
  "data_ok C J \<longleftrightarrow>
     jb_commitment J = Some C \<and> layout_ok (c_layout C) \<and> tiles (c_layout C) 0 0 (jb_ranges J)
     \<and> (\<exists>h. jb_hasher J = Some h
          \<and> hash_ok HO (staged (jb_sink J)) (regions (jb_ranges J) (done_set (jb_range_state J))) h)"

lemma data_ok_cong:
  "same_data J J' \<Longrightarrow> jb_ranges J' = jb_ranges J \<Longrightarrow> done_set (jb_range_state J') = done_set (jb_range_state J)
   \<Longrightarrow> data_ok C J' = data_ok C J"
  by (simp add: data_ok_def same_data_def)

lemma data_ok_same: "same_data J J' \<Longrightarrow> same_book J J' \<Longrightarrow> data_ok C J' = data_ok C J"
  by (rule data_ok_cong) (simp_all add: same_book_def)

lemma data_ok_filled: "data_ok C (filled D J) = data_ok C J"
  using filled_book_data data_ok_cong by blast

lemma loop_top_data_ok: "loop_top D J = (d, J') \<Longrightarrow> data_ok C J' = data_ok C J"
  using loop_top_same data_ok_same data_ok_filled by blast

lemma write_agrees:
  assumes "valid s" and "sk_write_at SK off bs s = (Ok u, s')" and "vec_ok bs"
    and "{unat off ..< unat off + length bs} \<inter> P = {}"
  shows "agrees_on P (staged s) (staged s')"
proof (cases "bs = []")
  case True
  then show ?thesis using write_nothing[OF assms(1), of off u s'] assms(2) prefix_agrees by blast
next
  case False
  then show ?thesis using write_places[OF assms(1,2) False assms(3)] place_agrees[OF assms(4)] by simp
qed

lemma piece_of_write:
  assumes "valid s" and "sk_write_at SK off bs s = (Ok u, s')" and "vec_ok bs"
    and "unat off + length bs < 2 ^ 64" and "{unat off ..< unat off + length bs} \<subseteq> P"
  shows "piece_ok (staged s') P (off, bs)"
proof (cases "bs = []")
  case True
  then show ?thesis using assms by (simp add: piece_ok_def slice_def)
next
  case False
  then show ?thesis using write_places[OF assms(1,2) False assms(3)] assms(4,5)
    by (simp add: piece_ok_def slice_place_same)
qed

lemma accept_range_data:
  assumes D: "plugged D" and d: "data_ok C J" and s: "sink_ok a J"
    and i: "i < length (jb_ranges J)" "i < length (jb_range_state J)" "jb_range_state J ! i \<noteq> Done"
      "length (jb_range_state J) = length (jb_ranges J)"
    and n: "length bs = unat (r_length (jb_ranges J ! i))" and v: "vec_ok bs"
    and h: "accept_range D i peer el (jb_ranges J ! i) bs J = (Ok u, J')"
  shows "data_ok C J'"
proof -
  let ?r = "jb_ranges J ! i" and ?M = "done_set (jb_range_state J)" and ?rs = "jb_ranges J"
  note e = accept_range_effect[OF h]
  obtain hs where hs: "jb_hasher J = Some hs" "hash_ok HO (staged (jb_sink J)) (regions ?rs ?M) hs"
    using d by (auto simp: data_ok_def)
  have L: "layout_ok (c_layout C)" "tiles (c_layout C) 0 0 ?rs" using d by (auto simp: data_ok_def)
  have val: "valid (jb_sink J)" using s by (simp add: sink_ok_def)
  have w: "sk_write_at SK (r_offset ?r) bs (jb_sink J) = (Ok (), jb_sink J')"
    using e(9) D by (simp add: plugged_def)
  have reg: "region ?rs i = {unat (r_offset ?r) ..< unat (r_offset ?r) + length bs}"
    by (simp add: region_def n)
  have M': "done_set (jb_range_state J') = insert i ?M"
    using i e(1) by (auto simp: done_set_def nth_list_update)
  have "region ?rs i \<inter> regions ?rs ?M = {}"
    by (rule regions_disjoint[OF L(2) i(1)]) (use i in \<open>auto simp: done_set_def\<close>)
  then have "agrees_on (regions ?rs ?M) (staged (jb_sink J)) (staged (jb_sink J'))"
    using write_agrees[OF val w v] reg by blast
  then have "hash_ok HO (staged (jb_sink J')) (regions ?rs ?M) hs" using hs(2) hash_ok_agrees by blast
  then have h1: "hash_ok HO (staged (jb_sink J')) (regions ?rs (insert i ?M)) hs"
    by (rule hash_ok_mono) (simp)
  have "piece_ok (staged (jb_sink J')) (regions ?rs (insert i ?M)) (r_offset ?r, bs)"
    by (rule piece_of_write[OF val w v]) (use tiles_end64[OF L i(1)] n reg in auto)
  from hash_ok_feed[OF h1 this] show ?thesis
    using d e hs M' D by (auto simp: data_ok_def plugged_def)
qed

lemma handle_result_data:
  assumes D: "plugged D" and d: "data_ok C J" and s: "sink_ok a J" and b: "book_ok D J"
    and k: "k < length (jb_inflight J)" and fj: "fj = jb_inflight J ! k"
    and v: "\<And>f. res = Ok f \<Longrightarrow> vec_ok (fetched_bytes f)"
    and h: "handle_result D (fj_range fj) (fj_peer fj) el res (take_fetch k J) = (Ok u, J')"
  shows "data_ok C J'"
proof -
  let ?J = "release_source (fj_peer fj) (take_fetch k J)" and ?i = "fj_range fj"
  have same: "data_ok C ?J" "sink_ok a ?J" using d s by (simp_all add: data_ok_def sink_ok_def)
  have "(?i, fj_peer fj) \<in> (\<lambda>fj. (fj_range fj, fj_peer fj)) ` set (jb_inflight J)" using k fj by auto
  then have i: "?i < length (jb_range_state J)" "jb_range_state J ! ?i = InFlight (fj_peer fj)"
    "length (jb_range_state J) = length (jb_ranges J)"
    using b unfolding book_ok_def mirror_def by blast+
  from h show ?thesis
  proof (cases rule: handle_result_cases)
    case (accepted bs)
    then obtain f where f: "res = Ok f" "bs = fetched_bytes f"
        "\<exists>u. v_range (dp_verifier D) C (of_nat (chunk_start (jb_ranges J ! ?i))) (r_length (jb_ranges J ! ?i)) bs = Ok u"
      using d by (auto simp: and_then_Ok_iff data_ok_def dest: verify_fetched_bytes)
    have "vec_ok bs" using v f by simp
    moreover have "length bs = unat (r_length (jb_ranges J ! ?i))" using delivered[OF D calculation] f(3) by blast
    ultimately show ?thesis using accept_range_data[OF D same, of ?i bs] accepted(2) i by simp
  next
    case (rejected e)
    note r = reject_range_effect[OF rejected(2)]
    have "done_set (jb_range_state J') = done_set (jb_range_state J)"
      using r(2) i by (auto simp: done_set_def nth_list_update)
    then show ?thesis using d r by (simp add: data_ok_def)
  qed
qed

lemma take_turn_data:
  assumes D: "plugged D" and n: "next_turn D J = (tn, J1)" and d: "data_ok C J" and s: "sink_ok a J" and b: "book_ok D J"
    and t: "take_turn D wk tn J1 = (Ok u, J')"
  shows "data_ok C J'"
proof -
  note sm = next_turn_same[OF n]
  have d1: "data_ok C J1" "sink_ok a J1" "book_ok D J1"
    using sm d s b data_ok_same sink_ok_same book_ok_same by blast+
  from t show ?thesis
  proof (cases rule: take_turn_cases)
    case (fetch k el raw)
    have "vec_ok (fetched_bytes f)" if "fetch_output (dp_config D) (jb_inflight J1 ! k) el raw = Ok f" for f
      using fetch_output_bytes[OF that] fetched_vec[OF D] n fetch(1) by blast
    then show ?thesis using handle_result_data[OF D d1 fetch(2) refl _ fetch(3)] by blast
  next
    case other
    then show ?thesis using d1 data_ok_same by blast
  qed
qed

lemma sched_step_data:
  assumes "plugged D"
  shows "sched_step D J J' \<Longrightarrow> data_ok C J \<Longrightarrow> sink_ok a J \<Longrightarrow> book_ok D J \<Longrightarrow> data_ok C J'"
proof (induction rule: sched_step.cases)
  case (retry J J1)
  then show ?case using loop_top_data_ok by blast
next
  case (turn J wk J1 tn J2 u J3)
  then have "data_ok C J1" "sink_ok a J1" "book_ok D J1"
    using loop_top_data_ok loop_top_data sink_ok_same loop_top_book by blast+
  then show ?case using take_turn_data[OF assms] turn by blast
qed

lemma sched_reach_data:
  assumes "plugged D"
  shows "sched_reach D J J' \<Longrightarrow> data_ok C J \<Longrightarrow> sink_ok a J \<Longrightarrow> book_ok D J
    \<Longrightarrow> data_ok C J' \<and> sink_ok a J' \<and> book_ok D J'"
  by (induction rule: sched_reach.induct)
    (auto intro: sched_step_data[OF assms] sched_step_ok[OF assms] sched_step_book)

lemma schedule_loop_data:
  assumes D: "plugged D" and l: "schedule_loop n D J = Some (Ok u, J')"
    and J: "data_ok C J" "sink_ok a J" "book_ok D J"
  shows "data_ok C J'"
proof -
  obtain J1 where r: "sched_reach D J J1" and st: "sched_stops D J1 (Ok u) J'"
    using schedule_loop_reaches[OF l] by blast
  have "data_ok C J1" using sched_reach_data[OF D r J] by blast
  moreover have "loop_top D J1 = (Return (Ok u), J')" using st by (auto elim: sched_stops.cases)
  ultimately show ?thesis using loop_top_data_ok by blast
qed

section \<open>Preparation\<close>

lemma discard_other_plan_ok:
  assumes "plugged D" "sink_ok a J"
  shows "sink_ok a (discard_bytes_staged_for_another_plan D J)
    \<and> jb_commitment (discard_bytes_staged_for_another_plan D J) = jb_commitment J
    \<and> jb_content (discard_bytes_staged_for_another_plan D J) = jb_content J
    \<and> (idle J \<longrightarrow> idle (discard_bytes_staged_for_another_plan D J))"
proof -
  let ?J = "clear_checkpoint D (J\<lparr>jb_resume := (jb_resume J)\<lparr>st_done_ranges := {}\<rparr>\<rparr>)"
  have "sink_ok a (truncate_staging D ?J)"
    by (rule truncate_staging_ok[OF assms(1)]) (use assms(2) in \<open>simp add: sink_ok_def\<close>)
  moreover have "jb_commitment (truncate_staging D ?J) = jb_commitment J"
    "jb_content (truncate_staging D ?J) = jb_content J" "idle J \<longrightarrow> idle (truncate_staging D ?J)"
    by (auto simp: truncate_staging_def clear_checkpoint_def idle_def split: prod.splits)
  ultimately show ?thesis using assms(2)
    by (auto simp: discard_bytes_staged_for_another_plan_def split: option.splits)
qed

lemma sink_ok_keeps: "keeps J J' \<Longrightarrow> sink_ok a J' = sink_ok a J"
  by (simp add: keeps_def sink_ok_def)

lemma prepare_job_ok:
  assumes D: "plugged D" and s: "sink_ok a J" and p: "prepare_job D J = (r, J')"
  shows "sink_ok a J' \<and> (idle J \<longrightarrow> idle J') \<and> (\<forall>C. r = Ok C \<longrightarrow> jb_commitment J' = Some C
    \<and> (jb_commitment J = Some C \<or> commitment_ok C \<and> c_root C = content_root_hex (jb_content J)))"
proof (cases "availability_item (jb_content J)")
  case (Inl e)
  then show ?thesis using p s by (auto simp: prepare_job_def)
next
  case (Inr item)
  then have root: "content_root_hex (jb_content J) \<noteq> None"
    by (cases "jb_content J") (auto simp: availability_item_def content_root_hex_def)
  obtain x J1 where l: "locate_and_confirm D J = (x, J1)" by fastforce
  then have k1: "keeps J J1" "jb_commitment J1 = jb_commitment J"
    using locate_and_confirm_same same_keeps by blast+
  show ?thesis
  proof (cases x)
    case (Inl e)
    then show ?thesis using p Inr l k1 s sink_ok_keeps by (auto simp: prepare_job_def keeps_def)
  next
    case x: (Inr ps)
    let ?J2 = "J1\<lparr>jb_providers := ps\<rparr>"
    have k2: "keeps J ?J2" "jb_commitment ?J2 = jb_commitment J"
      using k1 by (simp_all add: keeps_def idle_def)
    show ?thesis
    proof (cases "ps = []")
      case True
      then show ?thesis using p Inr l x k1 s
        by (auto simp: prepare_job_def Let_def emit_def sink_ok_def keeps_def idle_def)
    next
      case False
      obtain y J3 where e: "(if jb_commitment ?J2 = None then establish_commitment D ?J2 else (Ok (), ?J2)) = (y, J3)"
        by fastforce
      have k3: "keeps J J3" and C3: "y = Ok u \<Longrightarrow> \<exists>C. jb_commitment J3 = Some C \<and> (jb_commitment J = Some C
          \<or> commitment_ok C \<and> c_root C = content_root_hex (jb_content J))" for u
      proof -
        show "keeps J J3" using e k2(1) keeps_trans[OF establish_commitment_ok(1)] by (auto split: if_splits)
        assume y: "y = Ok u"
        show "\<exists>C. jb_commitment J3 = Some C \<and> (jb_commitment J = Some C
          \<or> commitment_ok C \<and> c_root C = content_root_hex (jb_content J))"
        proof (cases "jb_commitment ?J2")
          case None
          then obtain C q f where "jb_commitment J3 = Some C" "adopt_layout D (jb_content J) q f = Ok C"
            using e y establish_commitment_ok(2)[of D ?J2 y J3] k2 by (auto simp: keeps_def)
          then show ?thesis using adopt_layout_OkD root by fastforce
        next
          case (Some C)
          then show ?thesis using e k2 by auto
        qed
      qed
      have s3: "sink_ok a J3" using k3 s sink_ok_keeps by blast
      note d = discard_other_plan_ok[OF D s3]
      obtain z J4 where ps: "persist_commitment D (discard_bytes_staged_for_another_plan D J3) = (z, J4)" by fastforce
      note k4 = persist_commitment_same[OF ps]
      have J': "(r, J') = (case y of Err e \<Rightarrow> (Err e, J3) | Ok _ \<Rightarrow>
          (case z of Err e \<Rightarrow> (Err e, J4) | Ok _ \<Rightarrow> (Ok (the (jb_commitment J4)), J4)))"
        using p Inr l x False e ps by (cases y; cases z) (simp_all add: prepare_job_def Let_def)
      have s4: "sink_ok a J4" using d k4 sink_ok_keeps by blast
      have i4: "idle J \<longrightarrow> idle J3 \<and> idle J4" using k3 d k4 by (auto simp: keeps_def)
      have c4: "jb_commitment J4 = jb_commitment J3" using d k4 by simp
      show ?thesis
      proof (cases y)
        case (Inl e)
        then show ?thesis using J' s3 i4 by simp
      next
        case (Inr u)
        from C3[OF this] obtain C where "jb_commitment J3 = Some C" "jb_commitment J = Some C
          \<or> commitment_ok C \<and> c_root C = content_root_hex (jb_content J)" by blast
        then show ?thesis using J' Inr s4 i4 c4 by (cases z) auto
      qed
    qed
  qed
qed

section \<open>Planning and resuming\<close>

lemma rehydrate_range_ok:
  assumes D: "plugged D" and s: "sink_ok a J" shows "sink_ok a (rehydrate_range D C r J)"
  by (rule rehydrate_range_cases[OF refl, where D = D and C = C and r = r and J = J])
    (use D s read_frame in \<open>fastforce simp: sink_ok_def plugged_def\<close>)+

lemma fold_rehydrate_ok: "plugged D \<Longrightarrow> sink_ok a J \<Longrightarrow> sink_ok a (fold (rehydrate_range D C) rl J)"
  by (induction rl arbitrary: J) (simp_all add: rehydrate_range_ok)

lemma plan_job_ok:
  assumes "plugged D" "sink_ok a J" shows "sink_ok a (plan_job D C J)"
proof -
  have "sink_ok a (planned D C J)" using assms(2) by (simp add: sink_ok_def planned_def Let_def)
  then have "sink_ok a (rehydrate_resumed_ranges D C (planned D C J))"
    unfolding rehydrate_resumed_ranges_def by (rule fold_rehydrate_ok[OF assms(1)])
  then show ?thesis by (simp add: plan_job_planned Let_def sink_ok_def emit_def)
qed

text \<open>\<open>F\<close> are the ranges whose staged bytes have been read back and fed.\<close>

definition resuming :: "range list \<Rightarrow> nat set \<Rightarrow> ('s, 't, 'h, 'w) job \<Rightarrow> bool" where
  "resuming rs F J \<longleftrightarrow> jb_ranges J = rs \<and> length (jb_range_state J) = length rs
     \<and> F \<subseteq> done_set (jb_range_state J)
     \<and> (\<exists>h. jb_hasher J = Some h \<and> hash_ok HO (staged (jb_sink J)) (regions rs F) h)"

lemma rehydrate_range_resuming:
  assumes D: "plugged D" and s: "sink_ok a J" and L: "layout_ok L" "tiles L 0 0 rs"
    and F: "resuming rs F J" and r: "r \<in> set rs" "r_index r \<in> done_set (jb_range_state J)" "r_index r \<notin> F"
  shows "\<exists>F'. resuming rs F' (rehydrate_range D C r J) \<and> F' \<subseteq> insert (r_index r) F
    \<and> (\<forall>i. i \<noteq> r_index r \<longrightarrow> i \<in> done_set (jb_range_state J) \<longrightarrow> i \<in> done_set (jb_range_state (rehydrate_range D C r J)))"
proof -
  let ?J = "rehydrate_range D C r J" and ?i = "r_index r"
  note ix = tiles_index[OF L(2) r(1)]
  obtain h where h: "jb_hasher J = Some h" "hash_ok HO (staged (jb_sink J)) (regions rs F) h"
    using F by (auto simp: resuming_def)
  have val: "valid (jb_sink J)" using s by (simp add: sink_ok_def)
  have rf: "staged s' = staged (jb_sink J)" if "sk_read_at (dp_sink D) (r_offset r) (r_length r) (jb_sink J) = (x, s')" for x s'
    using read_frame[OF val] that D by (metis plugged_def)
  show ?thesis
  proof (rule rehydrate_range_cases[OF refl, where D = D and C = C and r = r and J = J])
    fix bs u
    assume rd: "sk_read_at (dp_sink D) (r_offset r) (r_length r) (jb_sink J) = (Ok bs, jb_sink ?J)"
      and f: "jb_hasher ?J = map_option (feed (dp_hash D) (r_offset r) bs) (jb_hasher J)"
      and st: "jb_range_state ?J = jb_range_state J"
    let ?stg = "staged (jb_sink J)"
    have b: "bs = slice ?stg (unat (r_offset r)) (unat (r_length r))" "length bs = unat (r_length r)"
      using read_exact[OF val] rd D by (metis plugged_def)+
    have reg: "region rs ?i = {unat (r_offset r) ..< unat (r_offset r) + unat (r_length r)}"
      using ix by (simp add: region_def)
    have "unat (r_offset r) + length bs \<le> length ?stg \<or> bs = []"
      using b length_slice[of ?stg "unat (r_offset r)" "unat (r_length r)"]
      by (cases "unat (r_length r) = 0") (auto simp: min_def slice_def[where n = 0] split: if_splits)
    then have "piece_ok ?stg (regions rs (insert ?i F)) (r_offset r, bs)"
      using b reg tiles_end64[OF L ix(1)] ix(2) by (auto simp: piece_ok_def)
    moreover have "hash_ok HO ?stg (regions rs (insert ?i F)) h" by (rule hash_ok_mono[OF h(2)]) simp
    ultimately have "hash_ok HO ?stg (regions rs (insert ?i F)) (feed HO (r_offset r) bs h)"
      by (rule hash_ok_feed[rotated])
    then have "resuming rs (insert ?i F) ?J"
      using F r(2) h(1) f st rf[OF rd] D by (auto simp: resuming_def plugged_def)
    then show ?thesis using st by auto
  next
    assume hs: "jb_hasher ?J = jb_hasher J" and st: "jb_range_state ?J = (jb_range_state J)[?i := Pending]"
      and sk: "jb_sink ?J = jb_sink J \<or> (\<exists>x. sk_read_at (dp_sink D) (r_offset r) (r_length r) (jb_sink J) = (x, jb_sink ?J))"
    have "staged (jb_sink ?J) = staged (jb_sink J)" using sk rf by auto
    moreover have "F \<subseteq> done_set (jb_range_state ?J)"
    proof
      fix j assume "j \<in> F"
      then have "j \<in> done_set (jb_range_state J)" "j \<noteq> ?i" using F r(3) by (auto simp: resuming_def)
      then show "j \<in> done_set (jb_range_state ?J)" by (simp add: st done_set_def)
    qed
    ultimately have "resuming rs F ?J" using F h hs by (simp add: resuming_def)
    then show ?thesis using st by (auto simp: done_set_def)
  qed
qed

lemma fold_rehydrate_resuming:
  assumes D: "plugged D" and L: "layout_ok L" "tiles L 0 0 rs"
  shows "sink_ok a J \<Longrightarrow> resuming rs F J \<Longrightarrow> set rl \<subseteq> set rs \<Longrightarrow> distinct (map r_index rl)
    \<Longrightarrow> r_index ` set rl \<subseteq> done_set (jb_range_state J) - F
    \<Longrightarrow> \<exists>F'. resuming rs F' (fold (rehydrate_range D C) rl J)"
proof (induction rl arbitrary: J F)
  case Nil
  then show ?case by auto
next
  case (Cons r rl)
  have "r \<in> set rs" "r_index r \<in> done_set (jb_range_state J)" "r_index r \<notin> F" using Cons.prems by auto
  from rehydrate_range_resuming[OF D Cons.prems(1) L Cons.prems(2) this] obtain F' where
    F': "resuming rs F' (rehydrate_range D C r J)" "F' \<subseteq> insert (r_index r) F"
      "\<forall>i. i \<noteq> r_index r \<longrightarrow> i \<in> done_set (jb_range_state J) \<longrightarrow> i \<in> done_set (jb_range_state (rehydrate_range D C r J))"
    by blast
  have "r_index r \<notin> r_index ` set rl" using Cons.prems(4) by auto
  then have "r_index ` set rl \<subseteq> done_set (jb_range_state (rehydrate_range D C r J)) - F'"
    using Cons.prems(5) F'(2,3) by (fastforce simp: subset_iff image_iff)
  then show ?case
    using Cons.IH[OF rehydrate_range_ok[OF D Cons.prems(1)] F'(1)] Cons.prems by auto
qed

lemma plan_job_data:
  assumes D: "plugged D" and s: "sink_ok a J" and C: "jb_commitment J = Some C" "layout_ok (c_layout C)"
    and whole: "verify_whole_resource (dp_config D)"
  shows "data_ok C (plan_job D C J)"
proof -
  let ?P = "planned D C J" and ?rs = "plan_ranges (c_layout C) (window (dp_config D))"
  let ?rl = "filter (\<lambda>r. jb_range_state ?P ! r_index r = Done) ?rs"
  have L: "layout_ok (c_layout C)" "tiles (c_layout C) 0 0 ?rs" using C(2) by (simp_all add: plan_ranges_tiles)
  have rs: "jb_ranges ?P = ?rs" "length (jb_range_state ?P) = length ?rs" by (simp_all add: planned_def Let_def)
  have sP: "sink_ok a ?P" using s by (simp add: sink_ok_def planned_def Let_def)
  have r0: "resuming ?rs {} ?P"
    using D whole by (auto simp: resuming_def planned_def Let_def plugged_def intro: hash_ok_new)
  have "map r_index ?rs = [0 ..< length ?rs]"
    by (rule nth_equalityI) (use tiles_nth(1)[OF L(2)] in auto)
  then have "distinct (map r_index ?rs)" by simp
  then have d: "distinct (map r_index ?rl)" by (rule distinct_map_filter)
  have "r_index ` set ?rl \<subseteq> done_set (jb_range_state ?P) - {}"
    using tiles_index(1)[OF L(2)] rs by (auto simp: done_set_def)
  from fold_rehydrate_resuming[OF D L sP r0 _ d this] obtain F' where
    F': "resuming ?rs F' (rehydrate_resumed_ranges D C ?P)"
    unfolding rehydrate_resumed_ranges_def rs by auto
  let ?R = "rehydrate_resumed_ranges D C ?P"
  obtain h where h: "jb_hasher ?R = Some h" "hash_ok HO (staged (jb_sink ?R)) (regions ?rs F') h"
    "F' \<subseteq> done_set (jb_range_state ?R)" "jb_ranges ?R = ?rs"
    using F' by (auto simp: resuming_def)
  have "hash_ok HO (staged (jb_sink ?R)) (regions ?rs (done_set (jb_range_state ?R))) h"
    by (rule hash_ok_mono[OF h(2) regions_mono[OF h(3)]])
  moreover have "jb_commitment ?R = Some C"
    using C(1) by (simp add: rehydrate_resumed_ranges_def planned_def Let_def)
  ultimately show ?thesis using L h(1,4) by (simp add: plan_job_planned Let_def data_ok_def emit_def)
qed

section \<open>The backstop and the promotion\<close>

lemma backstop_ok:
  assumes "plugged D" "sink_ok a J" "backstop D C J = (r, J')" shows "sink_ok a J'"
proof -
  have "sink_ok a (discard_unverifiable_assembly D (J\<lparr>jb_hasher := None\<rparr>))"
    by (rule discard_assembly_ok[OF assms(1)]) (use assms(2) in \<open>simp add: sink_ok_def\<close>)
  then show ?thesis using assms(2,3)
    by (auto simp: backstop_def Let_def sink_ok_def emit_def split: option.splits sum.splits)
qed

lemma backstop_anchors:
  assumes D: "plugged D" and d: "data_ok C J" and b: "backstop D C J = (Ok u, J')"
  shows "jb_sink J' = jb_sink J \<and> unat (c_total_length C) \<le> length (staged (jb_sink J))
    \<and> anchored C (h_digest HO (take (unat (c_total_length C)) (staged (jb_sink J))))"
proof -
  obtain h where h: "jb_hasher J = Some h"
      "hash_ok HO (staged (jb_sink J)) (regions (jb_ranges J) (done_set (jb_range_state J))) h"
    using d by (auto simp: data_ok_def)
  obtain v where v: "v_resource_leaf V C (hasher_finalize HO h) (hashed_len h) = Ok v" and s: "jb_sink J' = jb_sink J"
    using b h(1) D by (auto simp: backstop_def Let_def plugged_def split: sum.splits)
  then have l: "hashed_len h = c_total_length C" "anchored C (hasher_finalize HO h)"
    using leaf_anchored[of C "hasher_finalize HO h" "hashed_len h"] by (cases v; simp)+
  obtain bss where bss: "hasher h = absorb HO bss" "concat bss = take (unat (next_offset h)) (staged (jb_sink J))"
      "unat (next_offset h) \<le> length (staged (jb_sink J))"
    using h(2) by (auto simp: hash_ok_def)
  have "hasher_finalize HO h = h_digest HO (concat bss)"
    using bss(1) finalize_absorb by (simp add: hasher_finalize_def)
  then show ?thesis using s l bss by (simp add: hashed_len_def)
qed

lemma promote_job_ok:
  assumes D: "plugged D" and s: "sink_ok a J" and p: "promote_job D C J = (r, J')"
  shows "r = Err e \<Longrightarrow> sink_ok a J'"
    and "r = Ok n \<Longrightarrow> n = c_total_length C \<and> unat n \<le> length (staged (jb_sink J))
      \<and> artifact (jb_sink J') = Some (take (unat n) (staged (jb_sink J)))"
proof -
  obtain x s1 where x: "promote_verified SK (c_total_length C) (jb_sink J) = (x, s1)" by fastforce
  have val: "valid (jb_sink J)" "artifact (jb_sink J) = a" using s by (simp_all add: sink_ok_def)
  have Dp: "dp_sink D = SK" using D by (simp add: plugged_def)
  show "r = Err e \<Longrightarrow> sink_ok a J'"
  proof -
    assume r: "r = Err e"
    then obtain e' where e': "x = Err e'" using p x Dp by (cases x) (auto simp: promote_job_def)
    then have "sink_ok a (J\<lparr>jb_sink := s1\<rparr>)" using promote_err[OF val(1)] x val(2) by (simp add: sink_ok_def)
    from discard_assembly_ok[OF D this] show ?thesis
      using p x e' Dp by (auto simp: promote_job_def fail_with_def emit_def sink_ok_def)
  qed
  show "r = Ok n \<Longrightarrow> n = c_total_length C \<and> unat n \<le> length (staged (jb_sink J))
      \<and> artifact (jb_sink J') = Some (take (unat n) (staged (jb_sink J)))"
    using p x Dp promote_ok[OF val(1)]
    by (cases x) (auto simp: promote_job_def fail_with_def emit_def)
qed

section \<open>A whole run\<close>

lemma run_inner_fails:
  assumes D: "plugged D" and s: "sink_ok a J" and r: "run_inner fuel D J = Some (Err e, J')"
  shows "sink_ok a J'"
proof -
  obtain x J1 where p: "prepare_job D J = (x, J1)" by fastforce
  have s1: "sink_ok a J1" using prepare_job_ok[OF D s p] by blast
  show ?thesis
  proof (cases x)
    case (Inl e)
    then show ?thesis using r p s1 by (simp add: run_inner_def)
  next
    case (Inr C)
    from plan_job_ok[OF D s1] have s2: "sink_ok a (plan_job D C J1)" .
    obtain y J2 where l: "schedule_loop fuel D (plan_job D C J1) = Some (y, J2)"
      using r p Inr by (auto simp: run_inner_def split: option.splits)
    have s3: "sink_ok a J2" by (rule schedule_loop_ok[OF D l s2])
    obtain z J3 where b: "backstop D C J2 = (z, J3)" by fastforce
    have s4: "sink_ok a J3" by (rule backstop_ok[OF D s3 b])
    have "(case y of Err e \<Rightarrow> (Err e, J2) | Ok _ \<Rightarrow>
        (case z of Err e \<Rightarrow> (Err e, J3) | Ok _ \<Rightarrow> promote_job D C J3)) = (Err e, J')"
      using r p Inr l b by (cases y; cases z) (simp_all add: run_inner_def)
    then show ?thesis using s3 s4 promote_job_ok(1)[OF D s4] by (cases y; cases z) auto
  qed
qed

text \<open>A committed artifact: the promoted bytes, with the digest the verifier bound to \<open>C\<close>.\<close>

definition committed :: "resource_commitment \<Rightarrow> u64 \<Rightarrow> 's \<Rightarrow> bool" where
  "committed C n s \<longleftrightarrow> n = c_total_length C
     \<and> (\<exists>bs. artifact s = Some bs \<and> length bs = unat n \<and> anchored C (h_digest HO bs))"

lemma run_inner_commits:
  assumes D: "plugged D" and s: "sink_ok a J" and i: "idle J"
    and C0: "\<forall>C. jb_commitment J = Some C \<longrightarrow> commitment_ok C"
    and whole: "verify_whole_resource (dp_config D)"
    and r: "run_inner fuel D J = Some (Ok n, J')"
  shows "\<exists>C. committed C n (jb_sink J')
    \<and> (jb_commitment J = Some C \<or> c_root C = content_root_hex (jb_content J))"
proof -
  obtain x J1 where p: "prepare_job D J = (x, J1)" by fastforce
  note pj = prepare_job_ok[OF D s p]
  obtain C where x: "x = Ok C" using r p by (cases x) (simp_all add: run_inner_def)
  then have C: "jb_commitment J1 = Some C" "layout_ok (c_layout C)"
      "jb_commitment J = Some C \<or> c_root C = content_root_hex (jb_content J)"
    using pj C0 by (auto simp: commitment_ok_def)
  have s1: "sink_ok a J1" "idle J1" using pj i by auto
  let ?P = "plan_job D C J1"
  have P: "data_ok C ?P" "sink_ok a ?P" "book_ok D ?P"
    using plan_job_data[OF D s1(1) C(1,2) whole] plan_job_ok[OF D s1(1)]
      ready_book[OF plan_job_ready[OF C(2) s1(2)]] by blast+
  obtain u J2 where l: "schedule_loop fuel D ?P = Some (Ok u, J2)"
    using r p x by (auto simp: run_inner_def split: option.splits sum.splits)
  note d2 = schedule_loop_data[OF D l P] and s2 = schedule_loop_ok[OF D l P(2)]
  obtain v J3 where b: "backstop D C J2 = (Ok v, J3)" and pr: "promote_job D C J3 = (Ok n, J')"
    using r p x l by (auto simp: run_inner_def split: sum.splits prod.splits)
  note an = backstop_anchors[OF D d2 b]
  note pm = promote_job_ok(2)[OF D backstop_ok[OF D s2 b] pr refl]
  have "committed C n (jb_sink J')" using an pm by (auto simp: committed_def)
  then show ?thesis using C(3) by blast
qed

lemma run_job_cases:
  assumes "run_job fuel D J = Some (r, J')" "idle J"
  obtains (refused) e where "r = Err e" "jb_sink J' = jb_sink J"
    | (ran) J1 J2 where "run_inner fuel D J1 = Some (r, J2)" "jb_sink J' = jb_sink J2" "jb_sink J1 = jb_sink J"
        "jb_content J1 = jb_content J" "idle J1"
        "\<forall>C. jb_commitment J1 = Some C \<longrightarrow> (\<exists>st t. (ss_load (dp_store D) (jb_key J) (jb_store J) = (Ok (Some st), t))
           \<and> resumed_commitment D st = Some C)"
proof -
  obtain x t where l: "ss_load (dp_store D) (jb_key J) (jb_store J) = (x, t)" by fastforce
  show ?thesis
  proof (cases x)
    case (Inl e)
    then show ?thesis using assms l refused by (auto simp: run_job_def fail_with_def emit_def)
  next
    case (Inr found)
    define st where "st = (case found of Some st \<Rightarrow> st | None \<Rightarrow> download_state_new (jb_key J))"
    define J1 where "J1 = J\<lparr>jb_store := t, jb_resume := st, jb_commitment := resumed_commitment D st\<rparr>"
    have f: "jb_sink J1 = jb_sink J" "jb_content J1 = jb_content J" "idle J1"
      using assms(2) by (simp_all add: J1_def idle_def)
    have c: "\<forall>C. jb_commitment J1 = Some C \<longrightarrow> (\<exists>st t. (ss_load (dp_store D) (jb_key J) (jb_store J) = (Ok (Some st), t))
           \<and> resumed_commitment D st = Some C)"
      using l Inr by (cases found) (auto simp: J1_def st_def resumed_commitment_def download_state_new_def)
    have r: "Some (r, J') = (case sk_staging_path (dp_sink D) (jb_sink J1) of
                None \<Rightarrow> run_inner fuel D J1
              | Some p \<Rightarrow>
                  (case claim p (jb_registry J1) of
                     (None, R) \<Rightarrow> Some (Err (SinkError (claim_reason p)), emit (Failed (claim_reason p)) J1)
                   | (Some h, R) \<Rightarrow>
                       map_option (\<lambda>(r, J2). (r, J2\<lparr>jb_registry := drop_claim h (jb_registry J2)\<rparr>))
                         (run_inner fuel D (J1\<lparr>jb_registry := R\<rparr>))))"
      using assms(1)[symmetric] unfolding run_job_def l Inr
      by (simp only: prod.case sum.case Let_def st_def J1_def)
    show ?thesis
    proof (cases "sk_staging_path (dp_sink D) (jb_sink J1)")
      case None
      then show ?thesis using r f c by (intro ran[of J1 J']) simp_all
    next
      case (Some p)
      obtain h R where cl: "claim p (jb_registry J1) = (h, R)" by fastforce
      show ?thesis
      proof (cases h)
        case None
        then show ?thesis using r Some cl f by (intro refused) (simp_all add: emit_def)
      next
        case h: (Some h')
        obtain J2 where "run_inner fuel D (J1\<lparr>jb_registry := R\<rparr>) = Some (r, J2)"
            "J' = J2\<lparr>jb_registry := drop_claim h' (jb_registry J2)\<rparr>"
          using r Some cl h by (cases "run_inner fuel D (J1\<lparr>jb_registry := R\<rparr>)") auto
        then show ?thesis using f c by (intro ran[of "J1\<lparr>jb_registry := R\<rparr>" J2]) (simp_all add: idle_def)
      qed
    qed
  qed
qed

lemma run_job_fails:
  assumes "plugged D" "sink_ok a J" "idle J" "run_job fuel D J = Some (Err e, J')" shows "sink_ok a J'"
  using assms(4,3)
proof (cases rule: run_job_cases)
  case (refused e)
  then show ?thesis using assms(2) by (simp add: sink_ok_def)
next
  case (ran J1 J2)
  have "sink_ok a J1" using assms(2) ran(3) by (simp add: sink_ok_def)
  from run_inner_fails[OF assms(1) this ran(1)] show ?thesis using ran(2) by (simp add: sink_ok_def)
qed

lemma resumed_commitment_ok: "resumed_commitment D st = Some C \<Longrightarrow> commitment_ok C"
  by (auto simp: resumed_commitment_def dest: from_first_frame_OkD(1) split: if_splits sum.splits)

lemma run_job_commits:
  assumes D: "plugged D" and s: "sink_ok a J" "idle J" and whole: "verify_whole_resource (dp_config D)"
    and r: "run_job fuel D J = Some (Ok n, J')"
  shows "\<exists>C. committed C n (jb_sink J') \<and> (c_root C = content_root_hex (jb_content J)
     \<or> (\<exists>st t. ss_load (dp_store D) (jb_key J) (jb_store J) = (Ok (Some st), t) \<and> resumed_commitment D st = Some C))"
  using r s(2)
proof (cases rule: run_job_cases)
  case (refused e)
  then show ?thesis by simp
next
  case (ran J1 J2)
  have s1: "sink_ok a J1" using s(1) ran(3) by (simp add: sink_ok_def)
  have c: "\<forall>C. jb_commitment J1 = Some C \<longrightarrow> commitment_ok C"
    using ran(6) resumed_commitment_ok by blast
  from run_inner_commits[OF D s1 ran(5) c whole ran(1)] show ?thesis using ran by auto
qed

end

end
