(* ===== verification/Schedule_Progress.thy ===== *)
theory Schedule_Progress
  imports Download_Correct
begin

text \<open>
  How far the scheduler gets: the loop on fuel is the step relation, verified ranges stay
  verified, and the number of fetches that complete is bounded, which is the termination
  argument the failure budget of the source is there for.
\<close>

section \<open>The loop and the step relation\<close>

lemma schedule_loop_step:
  "sched_step D J J1 \<Longrightarrow> schedule_loop n D J1 = Some x \<Longrightarrow> schedule_loop (Suc n) D J = Some x"
  by (auto elim!: sched_step.cases)

lemma schedule_loop_stops: "sched_stops D J r J' \<Longrightarrow> schedule_loop (Suc 0) D J = Some (r, J')"
  by (auto elim!: sched_stops.cases)

lemma schedule_loop_back:
  "sched_reach D J J1 \<Longrightarrow> \<exists>n. schedule_loop n D J1 = Some x \<Longrightarrow> \<exists>n. schedule_loop n D J = Some x"
  by (induction rule: sched_reach.induct) (blast intro: schedule_loop_step)+

section \<open>Counting completions\<close>

definition completes :: "turn \<Rightarrow> ('s, 't, 'h, 'w) job \<Rightarrow> nat" where
  "completes tn J = (case tn of FetchDone k el raw \<Rightarrow> if k < length (jb_inflight J) then 1 else 0 | _ \<Rightarrow> 0)"

text \<open>A run of the loop that has handled \<open>k\<close> completed fetches.\<close>

inductive sched_run :: "('s, 't, 'h, 'w) deps \<Rightarrow> ('s, 't, 'h, 'w) job \<Rightarrow> nat \<Rightarrow> ('s, 't, 'h, 'w) job \<Rightarrow> bool"
  for D J where
  none: "sched_run D J 0 J"
| retry: "sched_run D J k J1 \<Longrightarrow> loop_top D J1 = (Again, J2) \<Longrightarrow> sched_run D J k J2"
| turn: "\<lbrakk>sched_run D J k J1; loop_top D J1 = (Await wk, J2); next_turn D J2 = (tn, J3);
    take_turn D wk tn J3 = (Ok u, J4)\<rbrakk> \<Longrightarrow> sched_run D J (k + completes tn J3) J4"

lemma sched_run_reach: "sched_run D J k J' \<Longrightarrow> sched_reach D J J'"
  by (induction rule: sched_run.induct) (blast intro: sched_reach.intros sched_step.intros)+

lemma loop_top_counts:
  assumes "loop_top D J = (d, J')"
  shows "jb_total_failures J' = jb_total_failures J \<and> jb_ranges J' = jb_ranges J
    \<and> done_set (jb_range_state J') = done_set (jb_range_state J)
    \<and> (\<forall>wk. d = Await wk \<longrightarrow> jb_total_failures J \<le> failure_budget D J)"
proof -
  note f = filled_book_data[of D J] and s = loop_top_same[OF assms]
  have b: "failure_budget D (filled D J) = failure_budget D J" using f by (simp add: failure_budget_def)
  have "d = Await wk \<Longrightarrow> jb_total_failures (filled D J) \<le> failure_budget D (filled D J)" for wk
    using assms unfolding loop_top_def filled_def[symmetric] Let_def
    by (auto simp: give_up_def split: if_splits)
  then show ?thesis using f s b by (auto simp: same_data_def same_book_def)
qed

text \<open>A completion marks one more range done, or counts one more failure.\<close>

lemma take_turn_counts:
  assumes ok: "book_ok D J" and t: "take_turn D wk tn J = (Ok u, J')"
  shows "done_set (jb_range_state J) \<subseteq> done_set (jb_range_state J') \<and> jb_ranges J' = jb_ranges J
    \<and> (jb_total_failures J < usize_max (dp_host D) \<longrightarrow>
       card (done_set (jb_range_state J')) + jb_total_failures J'
         = card (done_set (jb_range_state J)) + jb_total_failures J + completes tn J)"
  using t
proof (cases rule: take_turn_cases)
  case (fetch k el raw)
  let ?fj = "jb_inflight J ! k"
  have "(fj_range ?fj, fj_peer ?fj) \<in> (\<lambda>fj. (fj_range fj, fj_peer fj)) ` set (jb_inflight J)" using fetch(2) by auto
  then have i: "fj_range ?fj < length (jb_range_state J)" "jb_range_state J ! fj_range ?fj = InFlight (fj_peer ?fj)"
    using ok unfolding book_ok_def mirror_def by blast+
  have fin: "finite (done_set st)" for st by (simp add: done_set_def)
  from fetch(3) show ?thesis
  proof (cases rule: handle_result_cases)
    case (accepted bs)
    note e = accept_range_effect[OF accepted(2)]
    have "done_set (jb_range_state J') = insert (fj_range ?fj) (done_set (jb_range_state J))"
      using e(1) i by (auto simp: done_set_def nth_list_update)
    moreover have "fj_range ?fj \<notin> done_set (jb_range_state J)" using i by (simp add: done_set_def)
    ultimately show ?thesis using e(2,11) fetch(1,2) fin by (auto simp: completes_def)
  next
    case (rejected er)
    note e = reject_range_effect[OF rejected(2)]
    have "done_set (jb_range_state J') = done_set (jb_range_state J)"
      using e(2) i by (auto simp: done_set_def nth_list_update)
    then show ?thesis using e(3,12) fetch(1,2) by (auto simp: completes_def)
  qed
next
  case other
  have "completes tn J = 0"
  proof (rule ccontr)
    assume "completes tn J \<noteq> 0"
    then obtain k el raw where tn: "tn = FetchDone k el raw" and k: "k < length (jb_inflight J)"
      by (auto simp: completes_def split: turn.splits if_splits)
    then have "handle_result D (fj_range (jb_inflight J ! k)) (fj_peer (jb_inflight J ! k)) el
        (fetch_output (dp_config D) (jb_inflight J ! k) el raw) (take_fetch k J) = (Ok u, J')"
      using t by (simp add: take_turn_def Let_def take_fetch_def without_nth_def)
    then have "jb_inflight J' = without_nth k (jb_inflight J)"
      by (cases rule: handle_result_cases) (simp_all add: accept_range_effect(3) reject_range_effect(4))
    then have "length (jb_inflight J') < length (jb_inflight J)" using k by (simp add: without_nth_def)
    then show False using other(1) by (simp add: same_book_def)
  qed
  then show ?thesis using other by (simp add: same_book_def same_data_def)
qed

lemma sched_run_counts:
  assumes "book_ok D J" "failure_budget D J < usize_max (dp_host D)" "jb_total_failures J \<le> failure_budget D J + 1"
  shows "sched_run D J k J' \<Longrightarrow> book_ok D J' \<and> jb_ranges J' = jb_ranges J
    \<and> done_set (jb_range_state J) \<subseteq> done_set (jb_range_state J')
    \<and> jb_total_failures J' \<le> failure_budget D J + 1
    \<and> k + card (done_set (jb_range_state J)) + jb_total_failures J
        \<le> card (done_set (jb_range_state J')) + jb_total_failures J'"
proof (induction rule: sched_run.induct)
  case none
  then show ?case using assms by simp
next
  case (retry k J1 J2)
  then show ?case using loop_top_counts[OF retry(2)] loop_top_book by auto
next
  case (turn k J1 wk J2 tn J3 u J4)
  note l = loop_top_counts[OF turn(2)] and n = next_turn_same[OF turn(3)]
  have b3: "book_ok D J3" using turn loop_top_book book_ok_same n by blast
  have same: "jb_total_failures J3 = jb_total_failures J1" "jb_ranges J3 = jb_ranges J1"
    "done_set (jb_range_state J3) = done_set (jb_range_state J1)"
    using l n by (simp_all add: same_book_def same_data_def)
  have "failure_budget D J1 = failure_budget D J" using turn.IH by (simp add: failure_budget_def)
  then have low: "jb_total_failures J3 \<le> failure_budget D J" using l same by auto
  note t = take_turn_counts[OF b3 turn(4)]
  have b4: "book_ok D J4" by (rule take_turn_book[OF b3 turn(4)])
  have eq: "card (done_set (jb_range_state J4)) + jb_total_failures J4
      = card (done_set (jb_range_state J1)) + jb_total_failures J1 + completes tn J3"
    using t low assms(2) same by simp
  have mono: "card (done_set (jb_range_state J1)) \<le> card (done_set (jb_range_state J4))"
    using t same by (auto simp: done_set_def intro!: card_mono)
  have "completes tn J3 \<le> 1" by (auto simp: completes_def split: turn.splits)
  then have "jb_total_failures J4 \<le> failure_budget D J + 1" using eq mono low same by simp
  then show ?case using turn.IH t b4 eq same by auto
qed

lemma sched_reach_run: "sched_reach D J J' \<Longrightarrow> \<exists>k. sched_run D J k J'"
  by (induction rule: sched_reach.induct) (blast intro: sched_run.intros elim: sched_step.cases)+

lemma rehydrate_failures [simp]: "jb_total_failures (rehydrate_range D C r J) = jb_total_failures J"
  by (simp add: rehydrate_range_def Let_def split: option.splits prod.splits sum.splits)

lemma plan_job_failures [simp]: "jb_total_failures (plan_job D C J) = jb_total_failures J"
proof -
  have "jb_total_failures (fold (rehydrate_range D C) rl K) = jb_total_failures K" for rl K
    by (induction rl arbitrary: K) simp_all
  then show ?thesis by (simp add: plan_job_planned Let_def emit_def rehydrate_resumed_ranges_def planned_def)
qed

lemma done_set_card: "card (done_set st) \<le> length st"
proof -
  have "done_set st \<subseteq> {..< length st}" by (auto simp: done_set_def)
  then show ?thesis using card_mono[of "{..< length st}"] by simp
qed

end
