(* ===== verification/Download.thy ===== *)
theory Download
  imports Schedule_Progress
begin

text \<open>
  The contract of \<^theory_text>\<open>Download_Correct\<close> on the repository's own sinks and verifier, and the
  properties of a download: end-to-end correctness on disk and in memory, the concurrency
  caps, resumption, and how the staging claim, the checkpoint store and the garbage collector
  fit together.
\<close>

section \<open>The parts the repository ships\<close>

interpretation file_job: downloader "file_backed_sink H" "valid_at p" file_staged "published_at p"
    "with_proof_verifier H (buffering_hash d) PV" "merkle_anchored PV" "buffering_hash d" for H p PV d
  by unfold_locales

interpretation memory_job: downloader "in_memory_sink H" "mem_valid H" buf mem_artifact
    "with_proof_verifier H (buffering_hash d) PV" "merkle_anchored PV" "buffering_hash d" for H PV d
  by unfold_locales

lemma file_downloader:
  "streaming_hash HO \<Longrightarrow> downloader (file_backed_sink H) (valid_at p) file_staged (published_at p)
     (with_proof_verifier H HO PV) (merkle_anchored PV) HO"
  by (intro downloader.intro file_at.observable_sink_axioms merkle.sound_verifier_axioms)

lemma memory_downloader:
  "streaming_hash HO \<Longrightarrow> downloader (in_memory_sink H) (mem_valid H) buf mem_artifact
     (with_proof_verifier H HO PV) (merkle_anchored PV) HO"
  by (intro downloader.intro mem.observable_sink_axioms merkle.sound_verifier_axioms)

lemma job_new_fields [simp]:
  "jb_sink (job_new D c opts s t R w) = s" "jb_content (job_new D c opts s t R w) = c"
  "jb_store (job_new D c opts s t R w) = t" "idle (job_new D c opts s t R w)"
  by (simp_all add: job_new_def idle_def)

text \<open>The commitment a checkpoint under the job's key makes.\<close>

definition checkpointed :: "('s, 't, 'h, 'w) deps \<Rightarrow> ('s, 't, 'h, 'w) job \<Rightarrow> resource_commitment \<Rightarrow> bool" where
  "checkpointed D J C \<longleftrightarrow>
     (case ss_load (dp_store D) (jb_key J) (jb_store J) of
        (Ok (Some st), t) \<Rightarrow> resumed_commitment D st = Some C
      | _ \<Rightarrow> False)"

section \<open>An example download\<close>

text \<open>One holder serves three bytes in two chunks; the second range completes before the first.\<close>

definition example_meta :: range_meta where
  "example_meta = declaring_anchor (hex_of [2]) None (declaring_layout 3 [2, 1] 2 range_meta_default)"

definition example_env :: "nat env" where
  "example_env =
     \<lparr>en_find_providers = (\<lambda>c w. (Ok [example_provider], w)),
      en_availability = (\<lambda>p items w. (Ok [True], w)),
      en_fetch_range = (\<lambda>p req w. ((5, Ok \<lparr>request_offset = 0, fetched_bytes = [7], fetched_meta = example_meta\<rparr>), w)),
      en_now = (\<lambda>w. w),
      en_turn = (\<lambda>w. (if w = 0 then FetchDone 1 5 (Ok \<lparr>request_offset = 0, fetched_bytes = [9], fetched_meta = example_meta\<rparr>)
                      else FetchDone 0 5 (Ok \<lparr>request_offset = 0, fetched_bytes = [7, 8], fetched_meta = example_meta\<rparr>), w + 1)),
      en_selector = \<lparr>sel_select = (\<lambda>req w. (select_plan_ordered (map cr_peer_id (sr_candidates req)), w)),
                     sel_record = (\<lambda>out w. w)\<rparr>,
      en_ips = example_ips,
      en_show_content = (\<lambda>c. []),
      en_content_key = (\<lambda>c. [107])\<rparr>"

definition example_proof :: proof_verifier where
  "example_proof leaf prf rt = (leaf = [7, 8, 9] \<and> rt = Some (hex_of [2]))"

definition example_config :: download_config where
  "example_config = download_config_default\<lparr>window := 2\<rparr>"

definition example_deps :: "(file_sink, mem_store, bytes, nat) deps" where
  "example_deps = downloader_new (file_backed_sink example_host) in_memory_state_store
     (with_proof_verifier example_host (buffering_hash (\<lambda>bs. bs)) example_proof) (buffering_hash (\<lambda>bs. bs))
     example_env example_config example_host"


definition example_job :: "(file_sink, mem_store, bytes, nat) job" where
  "example_job = job_new example_deps (RootContent [1] [2]) \<lparr>start_paused = False, resume_key = None\<rparr>
     (file_sink_new (Path [1] [2]) example_disk) \<lparr>ms_inner = [], ms_reputation = [], ms_now = 0\<rparr>
     active_downloads_new 0"

lemmas example_inputs = example_job_def job_new_def example_deps_def downloader_new_def example_env_def example_config_def
  download_config_default_def example_provider_def example_meta_def declaring_layout_def declaring_anchor_def
  range_meta_default_def example_host_def example_proof_def example_disk_def

lemmas preparing = prepare_job_def availability_item_def locate_and_confirm_def establish_commitment_def
  range_request_for_def probe_metadata_def timed_result_def default_range_timeout_def adopt_layout_def Let_def
  content_root_hex_def check_declared_root_def from_first_frame_bounded_def chunk_layout_try_new_def
  checked_add_def total_length_def to_nat default_max_resource_size_def len64_def
  discard_bytes_staged_for_another_plan_def persist_commitment_def checkpoint_def in_memory_state_store_def
  mem_save_def download_state_new_def

lemmas planning = plan_job_def rehydrate_resumed_ranges_def plan_ranges_def plan_from.simps pack_chunks.simps
  chunk_count_def len_or_0_def chunk_len_def chunk_offset_def get_opt_def saturating_add_def max_def is_done_def
  emit_def resource_hasher_new_def

lemmas scheduling = loop_top_def fill_def fill_loop.simps ask_selector_def is_available_def source_tracker_new_def
  next_pending_def pick_from_plan_def under_cap_def inflight_of_def start_fetch_def fetch_future_def
  select_plan_ordered_def candidate_ref_new_def pending_count_def all_done_def failure_budget_def next_turn_def
  take_turn_def handle_result_def release_source_def fetch_output_def verify_fetched_def check_consistent_def
  accept_range_def mark_done_def record_success_def health_of_def source_health_default_def report_outcome_def
  snapshot_def

lemmas completing = with_proof_verifier_def merkle_verify_range_def chunks_for_range_def
  merkle_verify_resource_leaf_def feed_def drain.simps buffering_hash_def file_backed_sink_def file_sink_new_def
  file_defs staging_path_for_def tmp_suffix_def lit_def backstop_def hasher_finalize_def hashed_len_def
  promote_job_def promote_verified_def clear_checkpoint_def mem_clear_def

lemmas running = run_job_def run_inner_def resumed_commitment_def mem_load_def claim_def drop_claim_def
  active_downloads_new_def

lemma example_run: "map_option fst (run_job (Suc (Suc (Suc 0))) example_deps example_job) = Some (Ok 3)"
  by (simp add: example_inputs preparing planning scheduling completing running)

lemma example_responses: "responses_ok example_env"
  by (auto simp: responses_ok_def example_env_def split: if_splits)

section \<open>Properties\<close>

text \<open>
  C1: a download to a file, over any providers, any answers and any schedule, under any
  file-system faults: when the run succeeds, the file under the final name holds exactly as
  many bytes as were committed, and the injected proof check accepted their digest under the
  committed root, which is the root of the content asked for unless the commitment came from a
  checkpoint.
\<close>

theorem file_download_correct:
  assumes "streaming_hash HO" and "responses_ok E" and "verify_whole_resource cf"
    and "D = downloader_new (file_backed_sink H) T (with_proof_verifier H HO PV) HO E cf H"
    and "fs_ok F" and "J = job_new D c opts (file_sink_new p F) t R w"
    and "run_job fuel D J = Some (Ok n, J')"
  shows "\<exists>C bs. content (disk (jb_sink J')) p = Some bs \<and> n = c_total_length C \<and> length bs = unat n
     \<and> PV (h_digest HO bs) (c_inclusion_proof C) (c_root C)
     \<and> (c_root C = content_root_hex c \<or> checkpointed D J C)"
proof -
  note L = file_downloader[OF assms(1), where H = H and p = p and PV = PV]
  have D: "downloader.plugged (file_backed_sink H) (with_proof_verifier H HO PV) HO D"
    using assms(2) by (simp add: downloader.plugged_def[OF L] assms(4) downloader_new_def)
  have "valid_at p (jb_sink J)"
    using assms(5) file_sink_new_valid by (simp add: assms(6) valid_at_def file_sink_new_def)
  then have s: "downloader.sink_ok (valid_at p) (published_at p) (content F p) J"
    by (simp add: downloader.sink_ok_def[OF L] assms(6) published_at_def file_sink_new_def)
  have w: "verify_whole_resource (dp_config D)" using assms(3,4) by (simp add: downloader_new_def)
  have "idle J" by (simp add: assms(6))
  from downloader.run_job_commits[OF L D s this w assms(7)]
  show ?thesis
    by (auto simp: downloader.committed_def[OF L] merkle_anchored_def published_at_def checkpointed_def assms(6))
qed

theorem file_download_correct_witness:
  "\<exists>J'. run_job 3 example_deps example_job = Some (Ok 3, J')
     \<and> content (disk (jb_sink J')) (Path [1] [2]) = Some [7, 8, 9]"
proof -
  obtain J' where r: "run_job 3 example_deps example_job = Some (Ok 3, J')"
    using example_run by (auto simp: numeral_3_eq_3)
  have ok: "fs_ok example_disk" by (simp add: fs_ok_def example_disk_def lookup_def)
  have w: "verify_whole_resource example_config" by (simp add: example_config_def download_config_default_def)
  from file_download_correct[OF buffering.streaming_hash_axioms example_responses w example_deps_def ok example_job_def r]
  show ?thesis using r by (auto simp: buffering_hash_def example_proof_def)
qed

text \<open>
  C3: a download to a file that fails, for whatever reason and after whatever
  file-system faults, leaves the file under the final name as it was before the run.
\<close>

theorem file_download_fails_closed:
  assumes "streaming_hash HO" and "responses_ok E"
    and "D = downloader_new (file_backed_sink H) T (with_proof_verifier H HO PV) HO E cf H"
    and "fs_ok F" and "J = job_new D c opts (file_sink_new p F) t R w"
    and "run_job fuel D J = Some (Err e, J')"
  shows "content (disk (jb_sink J')) p = content F p"
proof -
  note L = file_downloader[OF assms(1), where H = H and p = p and PV = PV]
  have D: "downloader.plugged (file_backed_sink H) (with_proof_verifier H HO PV) HO D"
    using assms(2) by (simp add: downloader.plugged_def[OF L] assms(3) downloader_new_def)
  have "valid_at p (jb_sink J)"
    using assms(4) file_sink_new_valid by (simp add: assms(5) valid_at_def file_sink_new_def)
  then have s: "downloader.sink_ok (valid_at p) (published_at p) (content F p) J"
    by (simp add: downloader.sink_ok_def[OF L] assms(5) published_at_def file_sink_new_def)
  have "idle J" by (simp add: assms(5))
  from downloader.run_job_fails[OF L D s this assms(6)]
  show ?thesis by (simp add: downloader.sink_ok_def[OF L] published_at_def)
qed

text \<open>The same download under a proof check that refuses: all bytes are staged, none published.\<close>

definition refusing_deps :: "(file_sink, mem_store, bytes, nat) deps" where
  "refusing_deps = downloader_new (file_backed_sink example_host) in_memory_state_store
     (with_proof_verifier example_host (buffering_hash (\<lambda>bs. bs)) (\<lambda>leaf prf rt. False)) (buffering_hash (\<lambda>bs. bs))
     example_env example_config example_host"

definition published_disk :: fs where
  "published_disk = \<lparr>names = [(Path [1] [2], 0)], inodes = (\<lambda>i. \<lparr>data = [5], mtime = 0\<rparr>), fresh = 1, wall = 0,
     clock = 0, fault = (\<lambda>n k. None)\<rparr>"

definition refused_job :: "(file_sink, mem_store, bytes, nat) job" where
  "refused_job = job_new refusing_deps (RootContent [1] [2]) \<lparr>start_paused = False, resume_key = None\<rparr>
     (file_sink_new (Path [1] [2]) published_disk) \<lparr>ms_inner = [], ms_reputation = [], ms_now = 0\<rparr>
     active_downloads_new 0"

lemma refused_run: "\<exists>e. map_option fst (run_job (Suc (Suc (Suc 0))) refusing_deps refused_job) = Some (Err e)"
  by (simp add: refused_job_def refusing_deps_def published_disk_def example_inputs preparing planning scheduling
      completing running discard_unverifiable_assembly_def truncate_staging_def)

theorem file_download_fails_closed_witness:
  "\<exists>e J'. run_job 3 refusing_deps refused_job = Some (Err e, J') \<and> content (disk (jb_sink J')) (Path [1] [2]) = Some [5]"
proof -
  obtain e J' where r: "run_job 3 refusing_deps refused_job = Some (Err e, J')"
    using refused_run by (auto simp: numeral_3_eq_3)
  have ok: "fs_ok published_disk" by (auto simp: fs_ok_def published_disk_def lookup_def split: if_splits)
  from file_download_fails_closed[OF buffering.streaming_hash_axioms example_responses refusing_deps_def ok
      refused_job_def r] r
  show ?thesis by (auto simp: published_disk_def content_def lookup_def)
qed

definition example_commitment :: resource_commitment where
  "example_commitment =
     \<lparr>c_layout = \<lparr>chunk_lens = [2, 1], offsets = [0, 2, 3]\<rparr>, c_total_length = 3,
      c_root = Some (hex_of [2]), c_inclusion_proof = None\<rparr>"

abbreviation example_planned :: "(file_sink, mem_store, bytes, nat) job" where
  "example_planned \<equiv> plan_job example_deps example_commitment
     (example_job\<lparr>jb_providers := [example_provider], jb_commitment := Some example_commitment\<rparr>)"

lemma example_schedule:
  "map_option fst (schedule_loop (Suc (Suc (Suc 0))) example_deps example_planned) = Some (Ok ())"
  by (simp add: example_inputs preparing planning scheduling completing running example_commitment_def)

lemma example_reach:
  "\<exists>J1 J2. sched_reach example_deps example_planned J1 \<and> sched_stops example_deps J1 (Ok ()) J2"
proof -
  obtain J2 where "schedule_loop (Suc (Suc (Suc 0))) example_deps example_planned = Some (Ok (), J2)"
    using example_schedule by auto
  from schedule_loop_reaches[OF this] show ?thesis by blast
qed

lemma example_layout_ok: "layout_ok (c_layout example_commitment)"
proof -
  have "chunk_layout_try_new example_host [2, 1] = Ok (c_layout example_commitment)"
    by (simp add: chunk_layout_try_new_def example_host_def checked_add_def example_commitment_def)
  then show ?thesis by (rule try_new_OkD(2))
qed

lemma example_idle: "idle (example_job\<lparr>jb_providers := ps, jb_commitment := c\<rparr>)"
  by (simp add: example_job_def job_new_def idle_def)


text \<open>
  C11: in every state the scheduler can reach from a planned job, at most
  \<open>max_concurrency\<close> fetches are in flight and at most \<open>max_inflight_per_source\<close> of one source,
  no range is fetched twice at a time, a range is marked in flight exactly while a fetch of it
  is, and the checkpoint lists exactly the ranges that are done.
\<close>

theorem scheduler_respects_caps:
  assumes "layout_ok (c_layout C)" and "idle J" and "sched_reach D (plan_job D C J) J'"
  shows "length (jb_inflight J') \<le> max_concurrency (dp_config D)
    \<and> (\<forall>peer. length (filter (\<lambda>fj. fj_peer fj = peer) (jb_inflight J')) \<le> max_inflight_per_source (dp_config D))
    \<and> distinct (map fj_range (jb_inflight J'))
    \<and> (\<forall>i peer. (i < length (jb_range_state J') \<and> jb_range_state J' ! i = InFlight peer)
         \<longleftrightarrow> (i, peer) \<in> (\<lambda>fj. (fj_range fj, fj_peer fj)) ` set (jb_inflight J'))
    \<and> (\<forall>i < length (jb_ranges J'). i \<in> st_done_ranges (jb_resume J') \<longleftrightarrow> jb_range_state J' ! i = Done)"
proof -
  have ok: "book_ok D J'"
    by (rule sched_reach_book[OF assms(3) ready_book[OF plan_job_ready[OF assms(1,2)]]])
  have "length (filter (\<lambda>fj. fj_peer fj = peer) (jb_inflight J')) \<le> max_inflight_per_source (dp_config D)" for peer
    using ok unfolding book_ok_def in_flight_by_def by metis
  then show ?thesis using ok unfolding book_ok_def mirror_def is_done_def by blast
qed

theorem scheduler_respects_caps_witness:
  "\<exists>J'. sched_reach example_deps example_planned J' \<and> length (jb_inflight J') \<le> 8"
  using example_reach scheduler_respects_caps[OF example_layout_ok example_idle, of example_deps]
  by (fastforce simp: example_deps_def downloader_new_def example_config_def download_config_default_def)

text \<open>
  C12: from a planned job, at most as many fetches complete as there are ranges, plus the
  failure budget, plus one; and a range once done stays done. So a provider set that only
  fails ends the scheduler, however the branches of its wait are interleaved.
\<close>

theorem completions_bounded:
  assumes "layout_ok (c_layout C)" and "idle J" and "jb_total_failures J = 0"
    and "P = plan_job D C J" and "failure_budget D P < usize_max (dp_host D)" and "sched_run D P k J'"
  shows "k \<le> length (jb_ranges P) + failure_budget D P + 1
    \<and> (\<forall>i. i < length (jb_range_state P) \<longrightarrow> jb_range_state P ! i = Done \<longrightarrow> jb_range_state J' ! i = Done)"
proof -
  have ok: "book_ok D P" by (simp add: assms(4) ready_book[OF plan_job_ready[OF assms(1,2)]])
  have z: "jb_total_failures P = 0" by (simp add: assms(3,4))
  note c = sched_run_counts[OF ok assms(5) _ assms(6)]
  have "card (done_set (jb_range_state J')) \<le> length (jb_ranges P)"
    using c z done_set_card[of "jb_range_state J'"] by (auto simp: book_ok_def)
  then show ?thesis using c z by (auto simp: done_set_def)
qed

theorem completions_bounded_witness:
  "\<exists>k J'. sched_run example_deps example_planned k J' \<and> k \<le> length (jb_ranges example_planned)
     + failure_budget example_deps example_planned + 1 \<and> failure_budget example_deps example_planned = 12"
proof -
  have b: "failure_budget example_deps example_planned = 12"
    by (simp add: failure_budget_def example_inputs planning preparing scheduling example_commitment_def)
  have f: "jb_total_failures (example_job\<lparr>jb_providers := ps, jb_commitment := c\<rparr>) = 0" for ps c
    by (simp add: example_job_def job_new_def)
  have u: "failure_budget example_deps example_planned < usize_max (dp_host example_deps)"
    by (simp add: b) (simp add: example_deps_def downloader_new_def example_host_def)
  obtain J' k where r: "sched_run example_deps example_planned k J'" using example_reach sched_reach_run by blast
  from completions_bounded[OF example_layout_ok example_idle f refl u r] show ?thesis using r b by blast
qed

end
