(* ===== verification/Lifecycle.thy ===== *)
theory Lifecycle
  imports Download
begin

text \<open>
  The life of a staging path around a run: the claim it holds, what another download and the
  garbage collector may do meanwhile, and what a checkpoint means for later runs.
\<close>

section \<open>A run leaves the other claims alone\<close>

abbreviation same_claims :: "('s, 't, 'h, 'w) job \<Rightarrow> ('s, 't, 'h, 'w) job \<Rightarrow> bool" where
  "same_claims J J' \<equiv> jb_registry J' = jb_registry J"

lemma same_data_claims: "same_data J J' \<Longrightarrow> same_claims J J'"
  by (simp add: same_data_def)

lemma accept_range_claims: "accept_range D i p el r bs J = (x, J') \<Longrightarrow> same_claims J J'"
  by (auto simp: accept_range_def Let_def report_outcome_def checkpoint_def emit_def
      split: sum.splits prod.splits)

lemma reject_range_claims: "reject_range D i p el e J = (x, J') \<Longrightarrow> same_claims J J'"
  by (auto simp: reject_range_def Let_def report_outcome_def emit_def split: if_splits)

lemma release_source_claims: "same_claims J (release_source p J)"
  by (simp add: release_source_def split: option.splits)

lemma handle_result_claims: "handle_result D i p el res J = (x, J') \<Longrightarrow> same_claims J J'"
  unfolding handle_result_def Let_def
  by (auto simp: release_source_claims split: sum.splits dest!: accept_range_claims reject_range_claims)

lemma take_turn_claims:
  assumes "take_turn D wk tn J = (x, J')" shows "same_claims J J'"
  using assms
proof (cases rule: take_turn_cases)
  case (fetch k el raw)
  then show ?thesis using handle_result_claims[OF fetch(3)] by (simp add: take_fetch_def)
next
  case other
  then show ?thesis by (simp add: same_data_claims)
qed

lemma loop_top_claims: "loop_top D J = (d, J') \<Longrightarrow> same_claims J J'"
  using loop_top_same filled_book_data same_data_trans same_data_claims by blast

lemma next_turn_claims: "next_turn D J = (tn, J') \<Longrightarrow> same_claims J J'"
  by (rule same_data_claims[OF conjunct2[OF next_turn_same]])

lemma sched_step_claims: "sched_step D J J' \<Longrightarrow> same_claims J J'"
  by (auto elim!: sched_step.cases dest!: loop_top_claims next_turn_claims take_turn_claims)

lemma sched_reach_claims: "sched_reach D J J' \<Longrightarrow> same_claims J J'"
  by (induction rule: sched_reach.induct) (auto dest: sched_step_claims)

lemma sched_stops_claims: "sched_stops D J r J' \<Longrightarrow> same_claims J J'"
  by (auto elim!: sched_stops.cases dest!: loop_top_claims next_turn_claims take_turn_claims)

lemma schedule_loop_claims: "schedule_loop n D J = Some (r, J') \<Longrightarrow> same_claims J J'"
  by (auto dest!: schedule_loop_reaches sched_reach_claims sched_stops_claims)

lemma discard_claims [simp]:
  "same_claims J (truncate_staging D J)" "same_claims J (clear_checkpoint D J)"
  "same_claims J (discard_unverifiable_assembly D J)" "same_claims J (discard_bytes_staged_for_another_plan D J)"
  by (auto simp: truncate_staging_def clear_checkpoint_def discard_unverifiable_assembly_def
      discard_bytes_staged_for_another_plan_def split: prod.splits option.splits)

lemma rehydrate_claims: "same_claims J (rehydrate_range D C r J)"
  by (simp add: rehydrate_range_def Let_def split: option.splits prod.splits sum.splits)

lemma plan_job_claims: "same_claims J (plan_job D C J)"
proof -
  have "same_claims K (fold (rehydrate_range D C) rl K)" for rl K
    by (induction rl arbitrary: K) (auto simp: rehydrate_claims)
  then show ?thesis by (simp add: plan_job_planned planned_def rehydrate_resumed_ranges_def Let_def emit_def)
qed

lemma prepare_job_claims:
  assumes "prepare_job D J = (r, J')" shows "same_claims J J'"
proof -
  have l: "locate_and_confirm D K = (x, K') \<Longrightarrow> jb_registry K' = jb_registry K" for x K K'
    using locate_and_confirm_same by (auto simp: same_data_def)
  have e: "establish_commitment D K = (x, K') \<Longrightarrow> jb_registry K' = jb_registry K" for x K K'
    by (auto simp: establish_commitment_def emit_def Let_def split: prod.splits sum.splits option.splits)
  have p: "persist_commitment D K = (x, K') \<Longrightarrow> jb_registry K' = jb_registry K" for x K K'
    by (auto simp: persist_commitment_def checkpoint_def split: prod.splits option.splits)
  have d: "jb_registry (discard_bytes_staged_for_another_plan D K) = jb_registry K" for K
    by (rule discard_claims(4))
  show ?thesis using assms unfolding prepare_job_def Let_def
    by (auto simp: emit_def d split: sum.splits prod.splits if_splits dest!: l e p)
qed

lemma backstop_claims: "backstop D C J = (r, J') \<Longrightarrow> same_claims J J'"
  by (auto simp: backstop_def Let_def emit_def split: option.splits sum.splits)

lemma promote_job_claims:
  assumes "promote_job D C J = (r, J')" shows "same_claims J J'"
proof -
  obtain x s where "promote_verified (dp_sink D) (c_total_length C) (jb_sink J) = (x, s)" by fastforce
  then show ?thesis using assms
    by (cases x) (auto simp: promote_job_def fail_with_def emit_def)
qed

lemma run_inner_claims:
  assumes "run_inner fuel D J = Some (r, J')" shows "same_claims J J'"
proof -
  obtain x J1 where p: "prepare_job D J = (x, J1)" by fastforce
  have c1: "same_claims J J1" by (rule prepare_job_claims[OF p])
  show ?thesis
  proof (cases x)
    case (Inl e)
    then show ?thesis using assms p c1 by (simp add: run_inner_def)
  next
    case (Inr C)
    then obtain y J2 where l: "schedule_loop fuel D (plan_job D C J1) = Some (y, J2)"
      using assms p by (auto simp: run_inner_def split: option.splits)
    have c2: "same_claims J J2" using schedule_loop_claims[OF l] plan_job_claims[where D = D and C = C and J = J1] c1 by simp
    obtain z J3 where b: "backstop D C J2 = (z, J3)" by fastforce
    have c3: "same_claims J J3" using backstop_claims[OF b] c2 by simp
    show ?thesis using assms p Inr l b c2 c3
      by (cases y; cases z) (auto simp: run_inner_def dest!: promote_job_claims)
  qed
qed

section \<open>Properties\<close>

lemma run_job_load_fails:
  "ss_load (dp_store D) (jb_key J) (jb_store J) = (Err e, t)
   \<Longrightarrow> run_job fuel D J = Some (Err e, emit (Failed (download_error_display e)) (J\<lparr>jb_store := t\<rparr>))"
  by (simp add: run_job_def fail_with_def)

text \<open>
  C23: a run holds its staging path only while it runs: whatever the outcome, afterwards the
  same paths are claimed as before it. And a run whose staging path another download holds
  ends in an error without touching the sink.
\<close>

theorem run_releases_claim:
  assumes "run_job fuel D J = Some (r, J')"
  shows "protected (jb_registry J') = protected (jb_registry J)
    \<and> (\<forall>p. sk_staging_path (dp_sink D) (jb_sink J) = Some p \<and> is_protected p (jb_registry J)
         \<longrightarrow> \<not> is_ok r \<and> jb_sink J' = jb_sink J)"
proof -
  obtain x t where l: "ss_load (dp_store D) (jb_key J) (jb_store J) = (x, t)" by fastforce
  show ?thesis
  proof (cases x)
    case (Inl e)
    then show ?thesis using assms run_job_load_fails[of D J e t fuel] l by (auto simp: emit_def)
  next
    case (Inr found)
    define st where "st = (case found of Some st \<Rightarrow> st | None \<Rightarrow> download_state_new (jb_key J))"
    define J1 where "J1 = J\<lparr>jb_store := t, jb_resume := st, jb_commitment := resumed_commitment D st\<rparr>"
    have f: "jb_sink J1 = jb_sink J" "jb_registry J1 = jb_registry J" by (simp_all add: J1_def)
    have r: "Some (r, J') = (case sk_staging_path (dp_sink D) (jb_sink J1) of
                None \<Rightarrow> run_inner fuel D J1
              | Some p \<Rightarrow>
                  (case claim p (jb_registry J1) of
                     (None, R) \<Rightarrow> Some (Err (SinkError (claim_reason p)), emit (Failed (claim_reason p)) J1)
                   | (Some h, R) \<Rightarrow>
                       map_option (\<lambda>(r, J2). (r, J2\<lparr>jb_registry := drop_claim h (jb_registry J2)\<rparr>))
                         (run_inner fuel D (J1\<lparr>jb_registry := R\<rparr>))))"
      using assms(1)[symmetric] unfolding run_job_def l Inr
      by (simp only: prod.case sum.case Let_def st_def J1_def)
    show ?thesis
    proof (cases "sk_staging_path (dp_sink D) (jb_sink J1)")
      case None
      then have "run_inner fuel D J1 = Some (r, J')" using r by simp
      from run_inner_claims[OF this] show ?thesis using f None by simp
    next
      case (Some p)
      show ?thesis
      proof (cases "p \<in> protected (jb_registry J1)")
        case True
        then show ?thesis using r Some f by (auto simp: claim_def emit_def)
      next
        case False
        define R where "R = (jb_registry J1)\<lparr>protected := insert p (protected (jb_registry J1))\<rparr>"
        have "Some (r, J') = map_option (\<lambda>(r, J2). (r, J2\<lparr>jb_registry := drop_claim p (jb_registry J2)\<rparr>))
                         (run_inner fuel D (J1\<lparr>jb_registry := R\<rparr>))"
          using r Some False by (simp add: claim_def R_def)
        then obtain J2 where "run_inner fuel D (J1\<lparr>jb_registry := R\<rparr>) = Some (r, J2)"
            "J' = J2\<lparr>jb_registry := drop_claim p (jb_registry J2)\<rparr>"
          by (cases "run_inner fuel D (J1\<lparr>jb_registry := R\<rparr>)") auto
        then show ?thesis using run_inner_claims f Some False
          by (fastforce simp: drop_claim_def R_def is_protected_def)
      qed
    qed
  qed
qed

theorem run_releases_claim_witness:
  "\<exists>J'. run_job 3 example_deps example_job = Some (Ok 3, J') \<and> protected (jb_registry J') = {}"
proof -
  obtain J' where r: "run_job 3 example_deps example_job = Some (Ok 3, J')"
    using example_run by (auto simp: numeral_3_eq_3)
  from run_releases_claim[OF this] show ?thesis
    using r by (simp add: example_job_def job_new_def active_downloads_new_def)
qed

text \<open>
  C24: a sweep of the staging directory, at any time and under any file-system faults, leaves
  every checkpoint of a file store as it was, in that directory or any other: what a paused or
  crashed download resumes from is never collected.
\<close>

theorem sweep_keeps_checkpoints:
  assumes "fs_ok F" and "sweep_at g now F = (r, F')"
  shows "file_view HO JS dir F' k = file_view HO JS dir F k"
proof -
  have "\<not> ends_with (file_name (path_for HO dir k)) tmp_suffix" "\<not> ends_with (file_name (path_for HO dir k)) state_suffix"
    by (simp_all add: path_for_def file_for_def ends_with_def tmp_suffix_def state_suffix_def lit_def)
  then have "content F' (path_for HO dir k) = content F (path_for HO dir k)"
    using sweep_keeps[OF assms] by blast
  then show ?thesis by (simp add: file_view_def)
qed

definition example_checkpoint_disk :: fs where
  "example_checkpoint_disk =
     \<lparr>names = [(path_for example_hash [1] [97], 0), (Path [1] (lit ''b.download.tmp''), 1)],
      inodes = (\<lambda>i. \<lparr>data = [if i = 0 then 1 else 7], mtime = 0\<rparr>), fresh = 2, wall = 100, clock = 0,
      fault = (\<lambda>n k. None)\<rparr>"

theorem sweep_keeps_checkpoints_witness:
  "file_view example_hash example_json [1] (snd (sweep_at example_gc 100 example_checkpoint_disk)) [97]
     = Some example_state"
proof -
  have n: "path_for example_hash [1] [97] \<noteq> Path [1] (lit ''b.download.tmp'')"
    by (auto simp: path_for_def file_for_def lit_def)
  have ok: "fs_ok example_checkpoint_disk"
    using n by (auto simp: fs_ok_def example_checkpoint_disk_def lookup_def split: if_splits)
  have v: "file_view example_hash example_json [1] example_checkpoint_disk [97] = Some example_state"
    by (simp add: file_view_def example_checkpoint_disk_def content_def lookup_def example_json_def)
  have s: "sweep_at example_gc 100 example_checkpoint_disk =
      (fst (sweep_at example_gc 100 example_checkpoint_disk), snd (sweep_at example_gc 100 example_checkpoint_disk))"
    by simp
  show ?thesis by (rule trans[OF sweep_keeps_checkpoints[OF ok s] v])
qed

text \<open>
  C27: a checkpoint file that does not decode, as a save that fails midway may leave, ends
  every later run of its key in an error before anything is fetched, and stays where it is: no
  run removes it, so the content cannot be downloaded again until someone else does.
\<close>

theorem undecodable_checkpoint_blocks:
  assumes "dp_store D = file_state_store HO JS dir"
    and "content (jb_store J) (path_for HO dir (jb_key J)) = Some bs" and "js_state_of JS bs = Err msg"
    and "run_job fuel D J = Some (r, J')"
  shows "\<not> is_ok r \<and> jb_sink J' = jb_sink J \<and> jb_world J' = jb_world J
    \<and> content (jb_store J') (path_for HO dir (jb_key J)) = Some bs"
proof -
  obtain x t where l: "file_load HO JS dir (jb_key J) (jb_store J) = (x, t)" by fastforce
  have "file_view HO JS dir (jb_store J) (jb_key J) = None" using assms(2,3) by (simp add: file_view_def)
  obtain a G where rd: "fs_read_file (path_for HO dir (jb_key J)) (jb_store J) = (a, G)" by fastforce
  have ne: "a \<noteq> Err NotFoundError" "\<And>ys. a = Ok ys \<Longrightarrow> ys = bs"
    using rd assms(2) by (auto simp: fs_read_file_def fs_open_def simple_call_def content_def lookup_def tick_def
        split: option.splits prod.splits sum.splits if_splits)
  then obtain e where e: "x = Err e"
    using l rd assms(3) by (auto simp: file_load_def split: sum.splits io_error.splits)
  have "t = tick (jb_store J)" using file_load_spec[OF l] by simp
  moreover have "run_job fuel D J = Some (Err e, emit (Failed (download_error_display e)) (J\<lparr>jb_store := t\<rparr>))"
    by (rule run_job_load_fails) (simp add: assms(1) file_state_store_def l e)
  ultimately show ?thesis using assms(2,4) by (auto simp: emit_def)
qed

definition torn_disk :: fs where
  "torn_disk =
     \<lparr>names = [(path_for example_hash [1] [107], 0)], inodes = (\<lambda>i. \<lparr>data = [123], mtime = 0\<rparr>), fresh = 1,
      wall = 100, clock = 0, fault = (\<lambda>n k. None)\<rparr>"

definition torn_deps :: "(file_sink, fs, bytes, nat) deps" where
  "torn_deps = downloader_new (file_backed_sink example_host) (file_state_store example_hash example_json [1])
     (with_proof_verifier example_host (buffering_hash (\<lambda>bs. bs)) example_proof) (buffering_hash (\<lambda>bs. bs))
     example_env example_config example_host"

definition torn_job :: "(file_sink, fs, bytes, nat) job" where
  "torn_job = job_new torn_deps (RootContent [1] [2]) \<lparr>start_paused = False, resume_key = None\<rparr>
     (file_sink_new (Path [1] [2]) example_disk) torn_disk active_downloads_new 0"

theorem undecodable_checkpoint_blocks_witness:
  "\<exists>e J'. run_job 3 torn_deps torn_job = Some (Err e, J')
     \<and> content (jb_store J') (path_for example_hash [1] [107]) = Some [123]"
proof -
  have d: "dp_store torn_deps = file_state_store example_hash example_json [1]"
    by (simp add: torn_deps_def downloader_new_def)
  have k: "jb_key torn_job = [107]" "jb_store torn_job = torn_disk"
    by (simp_all add: torn_job_def job_new_def torn_deps_def downloader_new_def example_env_def download_key_def)
  have c: "content (jb_store torn_job) (path_for example_hash [1] (jb_key torn_job)) = Some [123]"
    by (simp add: k torn_disk_def content_def lookup_def)
  have j: "js_state_of example_json [123] = Err []" by (simp add: example_json_def)
  have l: "fst (ss_load (dp_store torn_deps) (jb_key torn_job) (jb_store torn_job)) = Err (State [])"
    by (simp add: d k file_state_store_def file_load_def fs_read_file_def simple_call_def torn_disk_def tick_def
        lookup_def example_json_def)
  obtain e t where "ss_load (dp_store torn_deps) (jb_key torn_job) (jb_store torn_job) = (Err e, t)"
    using l by (metis prod.collapse)
  from run_job_load_fails[OF this, of 3] obtain J' where r: "run_job 3 torn_deps torn_job = Some (Err e, J')" by blast
  from undecodable_checkpoint_blocks[OF d c j r] r show ?thesis by (auto simp: k)
qed

end
