(* ===== verification/Module_Plan.thy ===== *)
theory Module_Plan
  imports Orchestrator
begin

text \<open>
  The descriptor side of a whole-module pull (\<^verbatim>\<open>src/src/module.rs\<close>): the transfer
  descriptor and the chunk plan derived from it, the classification of failures, the holders a
  pull will not ask, the reasons it collects, and the ids and keys it is named by.

  A slice of a Rust string at a byte position inside a character panics; \<open>hex32\<close> slices the
  text it is given, so its outcome has a case for that.
\<close>

section \<open>Durations in messages\<close>

text \<open>\<open>Duration\<close>'s debug format: a whole part and its fraction without trailing zeros, in the largest unit.\<close>

fun pad_digits :: "nat \<Rightarrow> nat \<Rightarrow> rstring" where
  "pad_digits 0 n = []"
| "pad_digits (Suc k) n = pad_digits k (n div 10) @ [48 + n mod 10]"

fun trim_zeros :: "rstring \<Rightarrow> rstring" where
  "trim_zeros s = rev (dropWhile (\<lambda>c. c = 48) (rev s))"

definition show_fraction :: "nat \<Rightarrow> nat \<Rightarrow> rstring" where
  "show_fraction width frac = (if frac = 0 then [] else [46] @ trim_zeros (pad_digits width frac))"

definition show_duration :: "nat \<Rightarrow> rstring" where
  "show_duration n =
     (if 10 ^ 9 \<le> n then dec (n div 10 ^ 9) @ show_fraction 9 (n mod 10 ^ 9) @ lit ''s''
      else if 10 ^ 6 \<le> n then dec (n div 10 ^ 6) @ show_fraction 6 (n mod 10 ^ 6) @ lit ''ms''
      else if 10 ^ 3 \<le> n then dec (n div 10 ^ 3) @ show_fraction 3 (n mod 10 ^ 3) @ [181] @ lit ''s''
      else dec n @ lit ''ns'')"

section \<open>Ids and keys\<close>

datatype 'a hex_outcome = Decoded 'a | Malformed | Panicked

text \<open>\<open>u8::from_str_radix(_, 16)\<close> on two characters: digits of either case, and a leading plus.\<close>

definition hex_value :: "uchar \<Rightarrow> nat option" where
  "hex_value c =
     (if 48 \<le> c \<and> c \<le> 57 then Some (c - 48)
      else if 97 \<le> c \<and> c \<le> 102 then Some (c - 87)
      else if 65 \<le> c \<and> c \<le> 70 then Some (c - 55)
      else None)"

definition from_str_radix16 :: "uchar \<Rightarrow> uchar \<Rightarrow> u8 option" where
  "from_str_radix16 a b =
     (if a = 43 then map_option of_nat (hex_value b)
      else case (hex_value a, hex_value b) of
             (Some x, Some y) \<Rightarrow> Some (of_nat (16 * x + y))
           | _ \<Rightarrow> None)"

text \<open>The loop over two-byte slices; a slice that would cut a character panics.\<close>

fun hex_pairs :: "rstring \<Rightarrow> bytes hex_outcome" where
  "hex_pairs [] = Decoded []"
| "hex_pairs (a # s) =
     (if utf8_width a = 2 then Malformed
      else if utf8_width a \<noteq> 1 then Panicked
      else case s of
             [] \<Rightarrow> Panicked
           | b # rest \<Rightarrow>
               if utf8_width b \<noteq> 1 then Panicked
               else case from_str_radix16 a b of
                      None \<Rightarrow> Malformed
                    | Some x \<Rightarrow>
                        (case hex_pairs rest of Decoded xs \<Rightarrow> Decoded (x # xs) | other \<Rightarrow> other))"

definition hex32 :: "rstring \<Rightarrow> bytes hex_outcome" where
  "hex32 s = (if utf8_len s \<noteq> 64 then Malformed else hex_pairs s)"

definition module_content_id :: "rstring \<Rightarrow> rstring \<Rightarrow> content_id hex_outcome" where
  "module_content_id store_id root =
     (case hex32 store_id of
        Decoded s \<Rightarrow> (case hex32 root of Decoded r \<Rightarrow> Decoded (RootContent s r) | Malformed \<Rightarrow> Malformed | Panicked \<Rightarrow> Panicked)
      | Malformed \<Rightarrow> Malformed
      | Panicked \<Rightarrow> Panicked)"

definition module_download_key :: "rstring \<Rightarrow> rstring \<Rightarrow> rstring" where
  "module_download_key store_id root = lit ''module:'' @ store_id @ lit '':'' @ root"

definition sha256_hex :: "'h hash_ops \<Rightarrow> bytes \<Rightarrow> rstring" where
  "sha256_hex HO bs = hex_of (h_digest HO bs)"

section \<open>The descriptor and its plan\<close>

record module_info =
  mi_total_size :: u64
  mi_module_hash :: rstring
  mi_chunk_hashes :: "rstring list"
  mi_chunk_lens :: "u64 list"

datatype pull_failure =
    BadDescriptor download_error
  | UnsatisfiableDescriptor download_error
  | Terminal download_error

fun failure_error :: "pull_failure \<Rightarrow> download_error" where
  "failure_error (BadDescriptor e) = e"
| "failure_error (UnsatisfiableDescriptor e) = e"
| "failure_error (Terminal e) = e"

fun is_proven_false :: "pull_failure \<Rightarrow> bool" where
  "is_proven_false (BadDescriptor e) = True"
| "is_proven_false (UnsatisfiableDescriptor e) = False"
| "is_proven_false (Terminal e) = False"

definition default_max_module_size :: u64 where "default_max_module_size = 512 * 1024 * 1024"
definition max_module_chunk_count :: nat where "max_module_chunk_count = 1024 * 1024"
definition max_descriptor_attempts :: nat where "max_descriptor_attempts = 3"

record chunk_plan =
  cp_total_size :: u64
  cp_chunk_lens :: "u64 list"
  cp_offsets :: "u64 list"

text \<open>The checked sum, and the checked running offsets.\<close>

fun try_sum :: "u64 \<Rightarrow> u64 list \<Rightarrow> u64 option" where
  "try_sum acc [] = Some acc"
| "try_sum acc (n # ns) = (case checked_add acc n of None \<Rightarrow> None | Some a \<Rightarrow> try_sum a ns)"

fun push_offsets :: "u64 \<Rightarrow> u64 list \<Rightarrow> u64 list option" where
  "push_offsets acc [] = Some []"
| "push_offsets acc (n # ns) =
     (case checked_add acc n of None \<Rightarrow> None | Some a \<Rightarrow> map_option (Cons acc) (push_offsets a ns))"

definition false_descriptor :: "rstring \<Rightarrow> pull_failure" where
  "false_descriptor reason = BadDescriptor (Verify (Metadata reason))"

definition from_info :: "host \<Rightarrow> module_info \<Rightarrow> u64 \<Rightarrow> pull_failure + chunk_plan" where
  "from_info H info max_module_size =
     (let lens = mi_chunk_lens info in
      if max_module_size < mi_total_size info
      then Err (false_descriptor (lit ''declared module total_size '' @ dec64 (mi_total_size info)
                                  @ lit '' exceeds the maximum '' @ dec64 max_module_size))
      else if lens = []
      then Err (false_descriptor (lit ''ModuleInfo carries no chunk_lens (cannot map ranges to chunk hashes)''))
      else if max_module_chunk_count < length lens
      then Err (false_descriptor (lit ''declared chunk_lens count '' @ dec (length lens)
                                  @ lit '' exceeds the maximum '' @ dec max_module_chunk_count))
      else if length lens \<noteq> length (mi_chunk_hashes info)
      then Err (false_descriptor (lit ''chunk_lens ('' @ dec (length lens) @ lit '') != chunk_hashes (''
                                  @ dec (length (mi_chunk_hashes info)) @ lit '')''))
      else
        (case try_sum 0 lens of
           None \<Rightarrow> Err (false_descriptor (lit ''chunk_lens sum overflows u64 (hostile descriptor)''))
         | Some total_len \<Rightarrow>
             if total_len \<noteq> mi_total_size info
             then Err (false_descriptor (lit ''chunk_lens sum '' @ dec64 total_len @ lit '' != total_size ''
                                         @ dec64 (mi_total_size info)))
             else
               (case reserve_refusal H (8 * length lens) of
                  Some e \<Rightarrow>
                    Err (UnsatisfiableDescriptor (SinkError (lit ''this host cannot allocate the ''
                      @ dec (length lens) @ lit ''-entry chunk plan this descriptor declares: '' @ e)))
                | None \<Rightarrow>
                    (case push_offsets 0 lens of
                       None \<Rightarrow> Err (false_descriptor (lit ''chunk offsets overflow u64 (hostile descriptor)''))
                     | Some os \<Rightarrow> Ok \<lparr>cp_total_size = mi_total_size info, cp_chunk_lens = lens, cp_offsets = os\<rparr>))))"

definition plan_chunk_count :: "chunk_plan \<Rightarrow> nat" where
  "plan_chunk_count P = length (cp_chunk_lens P)"

definition chunk_span :: "chunk_plan \<Rightarrow> nat \<Rightarrow> u64 \<times> u64" where
  "chunk_span P i = (cp_offsets P ! i, cp_chunk_lens P ! i)"

section \<open>Holders\<close>

definition merge_new_providers :: "provider_record list \<Rightarrow> provider_record list \<Rightarrow> provider_record list" where
  "merge_new_providers known fresh_ones =
     fold (\<lambda>p ks. if provider_peer_id p \<in> provider_peer_id ` set ks then ks else ks @ [p]) fresh_ones known"

record descriptor_exclusions =
  demoted_here :: "rstring list"
  remembered :: "rstring list"
  trusts_memory :: bool

definition exclusions_new :: "rstring list \<Rightarrow> descriptor_exclusions" where
  "exclusions_new past = \<lparr>demoted_here = [], remembered = past, trusts_memory = (past \<noteq> [])\<rparr>"

definition excluded :: "descriptor_exclusions \<Rightarrow> rstring list" where
  "excluded X = demoted_here X @ (if trusts_memory X then remembered X else [])"

definition usable_holders :: "provider_record list \<Rightarrow> descriptor_exclusions \<Rightarrow> nat" where
  "usable_holders ps X = length (filter (\<lambda>p. provider_peer_id p \<notin> set (excluded X)) ps)"

definition demote :: "rstring \<Rightarrow> descriptor_exclusions \<Rightarrow> descriptor_exclusions" where
  "demote peer X = X\<lparr>demoted_here := demoted_here X @ [peer]\<rparr>"

definition stop_trusting_memory :: "descriptor_exclusions \<Rightarrow> bool \<times> descriptor_exclusions" where
  "stop_trusting_memory X = (trusts_memory X \<and> remembered X \<noteq> [], X\<lparr>trusts_memory := False\<rparr>)"

section \<open>Reasons\<close>

text \<open>One entry per rejection: the holder's id or a sentinel, and the escaped, bounded reason.\<close>

definition record_reason :: "rstring \<Rightarrow> rstring \<Rightarrow> rstring list \<Rightarrow> rstring list" where
  "record_reason peer reason rs =
     rs @ [hex64_or_sentinel peer (lit ''peer-id'') @ lit '': ''
           @ sanitize_untrusted_text reason max_error_reason_chars]"

definition show_reasons :: "rstring list \<Rightarrow> rstring" where
  "show_reasons rs =
     (if rs = [] then lit ''no holder reasons recorded''
      else lit ''reasons: ['' @ join_with (lit ''; '') rs @ lit '']'')"

definition describe_chunk_exhaustion :: "download_error \<Rightarrow> bool \<Rightarrow> download_error" where
  "describe_chunk_exhaustion e any_chunk_verified =
     (let diagnosis =
        (if any_chunk_verified
         then lit ''some chunk(s) had already verified under this descriptor, so the missing bytes are more likely genuinely unavailable than fabricated''
         else lit ''no chunk ever verified under this descriptor, so it is more likely fabricated than the bytes unavailable'')
      in case e of
           NotFound what \<Rightarrow> NotFound (what @ lit '' '' @ [0x2014] @ lit '' '' @ diagnosis)
         | other \<Rightarrow> other)"

section \<open>What the plan guarantees\<close>

lemma try_sum_eq: "try_sum acc ns = (if unat acc + sum_list (map unat ns) < 2 ^ 64
    then Some (acc + sum_list ns) else None)"
proof (induction ns arbitrary: acc)
  case Nil
  then show ?case using unat_bound[of acc] by simp
next
  case (Cons n ns)
  show ?case
  proof (cases "checked_add acc n")
    case None
    then have "\<not> unat acc + unat n < 2 ^ 64" using checked_add_None_iff[of acc n] by simp
    then show ?thesis using None by simp
  next
    case (Some a)
    note d = checked_add_SomeD[OF Some]
    have "a = acc + n" using Some by (simp add: checked_add_def split: if_splits)
    then show ?thesis using Cons.IH[of a] Some d(1) by (simp add: add.assoc)
  qed
qed

lemma push_offsets_eq:
  "push_offsets acc ns = Some os \<longleftrightarrow>
     unat acc + sum_list (map unat ns) < 2 ^ 64 \<and> length os = length ns
     \<and> (\<forall>i < length ns. unat (os ! i) = unat acc + start_of ns i)"
proof (induction ns arbitrary: acc os)
  case Nil
  then show ?case using unat_bound[of acc] by auto
next
  case (Cons n ns)
  show ?case
  proof (cases "checked_add acc n")
    case None
    then have "\<not> unat acc + unat n < 2 ^ 64" using checked_add_None_iff[of acc n] by simp
    then show ?thesis using None by auto
  next
    case (Some a)
    note d = checked_add_SomeD[OF Some]
    show ?thesis
    proof
      assume "push_offsets acc (n # ns) = Some os"
      then obtain os' where os': "push_offsets a ns = Some os'" "os = acc # os'" using Some by auto
      then show "unat acc + sum_list (map unat (n # ns)) < 2 ^ 64 \<and> length os = length (n # ns)
          \<and> (\<forall>i < length (n # ns). unat (os ! i) = unat acc + start_of (n # ns) i)"
        using Cons.IH[of a os'] d by (auto simp: nth_Cons start_of_def split: nat.splits)
    next
      assume r: "unat acc + sum_list (map unat (n # ns)) < 2 ^ 64 \<and> length os = length (n # ns)
          \<and> (\<forall>i < length (n # ns). unat (os ! i) = unat acc + start_of (n # ns) i)"
      then obtain o' os' where os: "os = o' # os'" by (cases os) auto
      have "unat o' = unat acc" using r os by (auto simp: start_of_def)
      then have "o' = acc" by (simp add: word_unat_eq_iff)
      moreover have "unat (os' ! i) = unat a + start_of ns i" if "i < length ns" for i
        using r os that d by (auto simp: start_of_def dest!: spec[of _ "Suc i"])
      then have "push_offsets a ns = Some os'" using Cons.IH[of a os'] r os d by auto
      ultimately show "push_offsets acc (n # ns) = Some os" using Some os by simp
    qed
  qed
qed

lemma unat_sum_list: "sum_list (map unat ns) < 2 ^ 64 \<Longrightarrow> unat (sum_list ns) = sum_list (map unat ns)" for ns :: "u64 list"
  by (induction ns) (auto simp: unat_word_ariths)

definition plan_ok :: "chunk_plan \<Rightarrow> bool" where
  "plan_ok P \<longleftrightarrow> length (cp_offsets P) = length (cp_chunk_lens P)
     \<and> sum_list (map unat (cp_chunk_lens P)) = unat (cp_total_size P)
     \<and> (\<forall>i < length (cp_chunk_lens P). unat (cp_offsets P ! i) = start_of (cp_chunk_lens P) i)"

lemma from_info_OkD:
  assumes "from_info H info mx = Ok P"
  shows "plan_ok P" "cp_total_size P = mi_total_size info" "cp_chunk_lens P = mi_chunk_lens info"
    "length (mi_chunk_hashes info) = plan_chunk_count P" "mi_total_size info \<le> mx"
    "plan_chunk_count P \<le> max_module_chunk_count" "0 < plan_chunk_count P"
proof -
  from assms obtain os where os: "push_offsets 0 (mi_chunk_lens info) = Some os"
    and t: "try_sum 0 (mi_chunk_lens info) = Some (mi_total_size info)"
    and P: "P = \<lparr>cp_total_size = mi_total_size info, cp_chunk_lens = mi_chunk_lens info, cp_offsets = os\<rparr>"
    and c: "mi_total_size info \<le> mx" "length (mi_chunk_lens info) = length (mi_chunk_hashes info)"
      "length (mi_chunk_lens info) \<le> max_module_chunk_count" "mi_chunk_lens info \<noteq> []"
    by (auto simp: from_info_def Let_def split: if_splits option.splits)
  have s: "sum_list (map unat (mi_chunk_lens info)) < 2 ^ 64" "sum_list (mi_chunk_lens info) = mi_total_size info"
    using t by (auto simp: try_sum_eq split: if_splits)
  have "unat (mi_total_size info) = sum_list (map unat (mi_chunk_lens info))"
    using unat_sum_list[OF s(1)] s(2) by simp
  then show "plan_ok P" using os by (simp add: plan_ok_def P push_offsets_eq)
  show "cp_total_size P = mi_total_size info" "cp_chunk_lens P = mi_chunk_lens info"
    "length (mi_chunk_hashes info) = plan_chunk_count P" "mi_total_size info \<le> mx"
    "plan_chunk_count P \<le> max_module_chunk_count"
    using P c by (simp_all add: plan_chunk_count_def)
  show "0 < plan_chunk_count P" using P c(4) by (simp add: plan_chunk_count_def)
qed

lemma plan_span:
  assumes "plan_ok P" "i < plan_chunk_count P"
  shows "unat (fst (chunk_span P i)) = start_of (cp_chunk_lens P) i"
    "unat (fst (chunk_span P i)) + unat (snd (chunk_span P i)) = start_of (cp_chunk_lens P) (Suc i)"
    "start_of (cp_chunk_lens P) (Suc i) \<le> unat (cp_total_size P)"
  using assms start_of_le_total[of "cp_chunk_lens P" "Suc i"]
  by (auto simp: plan_ok_def plan_chunk_count_def chunk_span_def start_of_Suc)

lemma from_info_accepts:
  "is_ok (from_info H info mx) \<longleftrightarrow>
     mi_total_size info \<le> mx \<and> mi_chunk_lens info \<noteq> [] \<and> length (mi_chunk_lens info) \<le> 1048576
     \<and> length (mi_chunk_hashes info) = length (mi_chunk_lens info)
     \<and> sum_list (map unat (mi_chunk_lens info)) = unat (mi_total_size info)
     \<and> reserve_refusal H (8 * length (mi_chunk_lens info)) = None"
proof
  assume "is_ok (from_info H info mx)"
  then obtain P where P: "from_info H info mx = Ok P" by (auto simp: is_ok_def split: sum.splits)
  have "reserve_refusal H (8 * length (mi_chunk_lens info)) = None"
    using P by (auto simp: from_info_def Let_def split: if_splits option.splits)
  then show "mi_total_size info \<le> mx \<and> mi_chunk_lens info \<noteq> [] \<and> length (mi_chunk_lens info) \<le> 1048576
     \<and> length (mi_chunk_hashes info) = length (mi_chunk_lens info)
     \<and> sum_list (map unat (mi_chunk_lens info)) = unat (mi_total_size info)
     \<and> reserve_refusal H (8 * length (mi_chunk_lens info)) = None"
    using from_info_OkD[OF P] by (auto simp: plan_ok_def plan_chunk_count_def max_module_chunk_count_def)
next
  let ?ns = "mi_chunk_lens info"
  assume a: "mi_total_size info \<le> mx \<and> ?ns \<noteq> [] \<and> length ?ns \<le> 1048576
     \<and> length (mi_chunk_hashes info) = length ?ns \<and> sum_list (map unat ?ns) = unat (mi_total_size info)
     \<and> reserve_refusal H (8 * length ?ns) = None"
  have lt: "sum_list (map unat ?ns) < 2 ^ 64" using a unat_bound[of "mi_total_size info"] by simp
  then have "sum_list ?ns = mi_total_size info" using a unat_sum_list[OF lt] by (simp add: word_unat_eq_iff)
  then have t: "try_sum 0 ?ns = Some (mi_total_size info)" using lt by (simp add: try_sum_eq)
  have "start_of ?ns i < 2 ^ 64" for i using start_of_le_total[of ?ns i] lt by simp
  then have "push_offsets 0 ?ns = Some (map (\<lambda>i. of_nat (start_of ?ns i)) [0 ..< length ?ns])"
    using lt by (simp add: push_offsets_eq unat_of_nat)
  then show "is_ok (from_info H info mx)"
    using a t by (simp add: from_info_def Let_def max_module_chunk_count_def not_less)
qed

text \<open>
  C37: a holder's descriptor becomes a chunk plan exactly when its declared size is within
  the configured bound, it has between one and 1048576 chunk lengths, one hash per length, the
  lengths sum to the declared size without wrapping, and the host grants the plan's memory;
  every other descriptor is refused, and blamed on its source except for the last reason.
\<close>

theorem from_info_accepts_iff:
  "is_ok (from_info H info mx) \<longleftrightarrow>
     mi_total_size info \<le> mx \<and> mi_chunk_lens info \<noteq> [] \<and> length (mi_chunk_lens info) \<le> 1048576
     \<and> length (mi_chunk_hashes info) = length (mi_chunk_lens info)
     \<and> sum_list (map unat (mi_chunk_lens info)) = unat (mi_total_size info)
     \<and> reserve_refusal H (8 * length (mi_chunk_lens info)) = None"
  by (rule from_info_accepts)

lemma utf8_len_ascii: "\<forall>c \<in> set s. c < 128 \<Longrightarrow> utf8_len s = length s"
  by (induction s) (auto simp: utf8_len_def utf8_width_def)

lemma hex_value_digit: "d < 16 \<Longrightarrow> hex_value (hex_digit d) = Some d"
  by (auto simp: hex_value_def hex_digit_def)

lemma hex_pairs_hex_of: "hex_pairs (hex_of bs) = Decoded bs"
proof (induction bs)
  case Nil
  then show ?case by (simp add: hex_of_def)
next
  case (Cons b bs)
  have d: "unat b div 16 < 16" "unat b mod 16 < 16"
    using unat_bound[of b] by (simp_all add: less_mult_imp_div_less)
  have w: "utf8_width (hex_digit x) = 1" "hex_digit x \<noteq> 43" if "x < 16" for x
    using that by (auto simp: utf8_width_def hex_digit_def)
  have "of_nat (16 * (unat b div 16) + unat b mod 16) = (of_nat (unat b) :: u8)" by (simp only: mult_div_mod_eq)
  then have "of_nat (16 * (unat b div 16) + unat b mod 16) = b" by (simp del: of_nat_add of_nat_mult)
  then have "from_str_radix16 (hex_digit (unat b div 16)) (hex_digit (unat b mod 16)) = Some b"
    using d w by (simp add: from_str_radix16_def hex_value_digit)
  moreover have "hex_of (b # bs) = hex_digit (unat b div 16) # hex_digit (unat b mod 16) # hex_of bs"
    by (simp add: hex_of_def)
  ultimately show ?case using Cons w d by simp
qed

lemma hex32_hex_of: "length bs = 32 \<Longrightarrow> hex32 (hex_of bs) = Decoded bs"
proof -
  assume "length bs = 32"
  then have "utf8_len (hex_of bs) = 64"
    using utf8_len_ascii[of "hex_of bs"] hex_of_chars[of _ bs] by fastforce
  then show ?thesis by (simp add: hex32_def hex_pairs_hex_of)
qed

text \<open>
  The decoder of 64-digit ids inverts the encoder on every 32-byte id, so the two ids of
  a module survive the trip into the content id it is looked up by.
\<close>

theorem hex32_inverts_hex_of:
  assumes "length bs = 32" and "length cs = 32"
  shows "hex32 (hex_of bs) = Decoded bs \<and> module_content_id (hex_of bs) (hex_of cs) = Decoded (RootContent bs cs)"
  using assms by (simp add: hex32_hex_of module_content_id_def)

theorem hex32_inverts_hex_of_witness:
  "module_content_id (hex_of (replicate 32 165)) (hex_of (replicate 32 7))
   = Decoded (RootContent (replicate 32 165) (replicate 32 7))"
  using hex32_inverts_hex_of[of "replicate 32 165" "replicate 32 7"] by simp

text \<open>
  The decoder is not total on text of 64 bytes: a two-byte character at an odd
  position makes it panic instead of refusing the id, and a plus sign is accepted as a digit.
\<close>

theorem hex32_panics_inside_character:
  "hex32 ([97, 233] @ replicate 61 97) = Panicked
   \<and> hex32 (concat (replicate 32 [43, 97])) = Decoded (replicate 32 10)"
proof -
  have "utf8_len (concat (replicate n [43, 97])) = 2 * n" for n
    by (induction n) (auto simp: utf8_len_def utf8_width_def)
  moreover have "hex_pairs (concat (replicate n [43, 97])) = Decoded (replicate n 10)" for n
    by (induction n) (auto simp: utf8_width_def from_str_radix16_def hex_value_def)
  ultimately have "hex32 (concat (replicate 32 [43, 97])) = Decoded (replicate 32 10)"
    by (simp only: hex32_def) simp
  moreover have "utf8_len ([97, 233] @ replicate 61 97) = 64"
    by (simp add: utf8_len_def utf8_width_def sum_list_replicate)
  ultimately show ?thesis by (simp add: hex32_def utf8_width_def)
qed

end
