(* ===== verification/Module_Pull.thy ===== *)
theory Module_Pull
  imports Module_Plan
begin

text \<open>
  The whole-module pull (\<^verbatim>\<open>ModuleDownloader\<close> in \<^verbatim>\<open>src/src/module.rs\<close>): asking the holders for
  a descriptor, fetching and attributing one chunk after the other, the two final gates and the
  promotion, and the loop over descriptors.

  The holders, the directory and the chain are an environment record. The injected anchor
  verifier reads the staged module through \<open>StagedModuleReader\<close>; it is given as the tree of its
  questions, each branch the rest of the verifier after one answer.
\<close>

section \<open>The parts\<close>

datatype module_anchor = Anchored | NotAnchored | Unavailable rstring

datatype anchor_query =
    Verdict module_anchor
  | AskLen "u64 \<Rightarrow> anchor_query"
  | ReadWindow u64 u64 "download_error + bytes \<Rightarrow> anchor_query"

record 'w module_env =
  me_find_providers :: "content_id \<Rightarrow> 'w \<Rightarrow> (download_error + provider_record list) \<times> 'w"
  me_module_info :: "rstring \<Rightarrow> rstring \<Rightarrow> rstring \<Rightarrow> 'w \<Rightarrow> (nat \<times> (download_error + module_info)) \<times> 'w"
  me_module_range :: "rstring \<Rightarrow> rstring \<Rightarrow> rstring \<Rightarrow> u64 \<Rightarrow> u64 \<Rightarrow> 'w \<Rightarrow> (nat \<times> (download_error + bytes)) \<times> 'w"
  me_anchor :: "rstring \<Rightarrow> rstring \<Rightarrow> 'w \<Rightarrow> anchor_query \<times> 'w"

record ('s, 't, 'h, 'w) module_deps =
  md_sink :: "'s sink_ops"
  md_store :: "'t state_ops"
  md_hash :: "'h hash_ops"
  md_env :: "'w module_env"
  md_range_timeout :: nat
  md_max_module_size :: u64
  md_host :: host

text \<open>The default configuration: 30 seconds per ask, 512 MiB per module.\<close>

definition module_config_default :: "nat \<times> u64" where
  "module_config_default = (30 * 10 ^ 9, default_max_module_size)"

record ('s, 't, 'w) module_pull =
  mp_sink :: 's
  mp_store :: 't
  mp_world :: 'w
  mp_providers :: "provider_record list"

text \<open>A call under the per-ask timeout: \<open>None\<close> when it did not answer in time.\<close>

definition within :: "nat \<Rightarrow> nat \<times> (download_error + 'a) \<Rightarrow> (download_error + 'a) option" where
  "within limit answer = (if limit < fst answer then None else Some (snd answer))"

section \<open>The descriptor\<close>

fun ask_holders ::
    "('s, 't, 'h, 'w) module_deps \<Rightarrow> rstring list \<Rightarrow> rstring \<Rightarrow> rstring \<Rightarrow> provider_record list
     \<Rightarrow> nat \<Rightarrow> rstring list \<Rightarrow> 'w \<Rightarrow> (download_error + (rstring \<times> module_info)) \<times> 'w" where
  "ask_holders D skip store_id root [] tried rs w =
     (Err (NotFound (lit ''getModuleInfo failed on all '' @ dec tried @ lit '' usable holder(s) (''
            @ dec (length skip) @ lit '' demoted) for module '' @ module_download_key store_id root
            @ lit '' '' @ [0x2014] @ lit '' '' @ show_reasons rs)), w)"
| "ask_holders D skip store_id root (p # ps) tried rs w =
     (let peer = provider_peer_id p in
      if peer \<in> set skip then ask_holders D skip store_id root ps tried rs w
      else
        (case me_module_info (md_env D) peer store_id root w of
           (answer, w') \<Rightarrow>
             (case within (md_range_timeout D) answer of
                Some (Ok info) \<Rightarrow> (Ok (peer, info), w')
              | Some (Err e) \<Rightarrow>
                  if is_recoverable e
                  then ask_holders D skip store_id root ps (tried + 1)
                         (record_reason peer (download_error_display e) rs) w'
                  else (Err e, w')
              | None \<Rightarrow>
                  ask_holders D skip store_id root ps (tried + 1)
                    (record_reason peer (lit ''getModuleInfo timed out after ''
                       @ show_duration (md_range_timeout D)) rs) w')))"

definition fetch_module_info ::
    "('s, 't, 'h, 'w) module_deps \<Rightarrow> provider_record list \<Rightarrow> rstring list \<Rightarrow> rstring \<Rightarrow> rstring \<Rightarrow> 'w
     \<Rightarrow> (download_error + (rstring \<times> module_info)) \<times> 'w" where
  "fetch_module_info D ps skip store_id root w = ask_holders D skip store_id root ps 0 [] w"

section \<open>One chunk\<close>

text \<open>What one holder answered for a chunk: clipped, of the wanted length, with the wanted hash.\<close>

definition attribute_chunk :: "'h hash_ops \<Rightarrow> u64 \<Rightarrow> rstring \<Rightarrow> bytes \<Rightarrow> rstring + bytes" where
  "attribute_chunk HO len expected bs =
     (let clipped = (if len < len64 bs then take (unat len) bs else bs)
      in if len64 clipped \<noteq> len
         then Err (lit ''short range: wanted '' @ dec64 len @ lit '' bytes, got '' @ dec (length clipped))
         else if sha256_hex HO clipped \<noteq> expected then Err (lit ''chunk hash mismatch'')
         else Ok clipped)"

definition fetch_chunk_from ::
    "('s, 't, 'h, 'w) module_deps \<Rightarrow> rstring \<Rightarrow> rstring \<Rightarrow> rstring \<Rightarrow> u64 \<Rightarrow> u64 \<Rightarrow> rstring \<Rightarrow> 'w
     \<Rightarrow> (rstring + bytes) \<times> 'w" where
  "fetch_chunk_from D peer store_id root off len expected w =
     (case me_module_range (md_env D) peer store_id root off len w of
        (answer, w') \<Rightarrow>
          (case within (md_range_timeout D) answer of
             None \<Rightarrow> Err (lit ''timed out after '' @ show_duration (md_range_timeout D))
           | Some (Err e) \<Rightarrow> Err (lit ''transport: '' @ download_error_display e)
           | Some (Ok bs) \<Rightarrow> attribute_chunk (md_hash D) len expected bs, w'))"

fun try_holders ::
    "('s, 't, 'h, 'w) module_deps \<Rightarrow> rstring \<Rightarrow> rstring \<Rightarrow> u64 \<Rightarrow> u64 \<Rightarrow> rstring \<Rightarrow> rstring list
     \<Rightarrow> rstring list \<Rightarrow> 'w \<Rightarrow> (rstring list + bytes) \<times> 'w" where
  "try_holders D store_id root off len expected [] rs w = (Err rs, w)"
| "try_holders D store_id root off len expected (peer # peers) rs w =
     (case fetch_chunk_from D peer store_id root off len expected w of
        (Ok bs, w') \<Rightarrow> (Ok bs, w')
      | (Err reason, w') \<Rightarrow>
          try_holders D store_id root off len expected peers (record_reason peer reason rs) w')"

text \<open>The holders of a chunk, round-robin from the one its index selects.\<close>

definition holder_order :: "nat \<Rightarrow> provider_record list \<Rightarrow> rstring list" where
  "holder_order index ps =
     map (\<lambda>step. provider_peer_id (ps ! ((index + step) mod length ps))) [0 ..< length ps]"

definition chunk_exhausted :: "nat \<Rightarrow> u64 \<Rightarrow> u64 \<Rightarrow> rstring \<Rightarrow> rstring \<Rightarrow> nat \<Rightarrow> rstring list \<Rightarrow> download_error" where
  "chunk_exhausted index off len store_id root holders rs =
     NotFound (lit ''fetchModuleRange failed for chunk '' @ dec index @ lit '' (['' @ dec64 off @ lit '', ''
       @ dec64 (off + len) @ lit '') of module '' @ module_download_key store_id root @ lit '') on all ''
       @ dec holders @ lit '' known holder(s) '' @ [0x2014] @ lit '' '' @ show_reasons rs)"

definition fetch_verified_chunk ::
    "('s, 't, 'h, 'w) module_deps \<Rightarrow> module_info \<Rightarrow> chunk_plan \<Rightarrow> nat \<Rightarrow> rstring \<Rightarrow> rstring
     \<Rightarrow> ('s, 't, 'w) module_pull \<Rightarrow> (download_error + bytes) \<times> ('s, 't, 'w) module_pull" where
  "fetch_verified_chunk D info P index store_id root M =
     (case chunk_span P index of
        (off, len) \<Rightarrow>
          (let expected = mi_chunk_hashes info ! index
           in case try_holders D store_id root off len expected (holder_order index (mp_providers M)) [] (mp_world M) of
                (Ok bs, w) \<Rightarrow> (Ok bs, M\<lparr>mp_world := w\<rparr>)
              | (Err rs, w) \<Rightarrow>
                  (case module_content_id store_id root of
                     Decoded cid \<Rightarrow>
                       (case me_find_providers (md_env D) cid w of
                          (Err e, w') \<Rightarrow> (Err e, M\<lparr>mp_world := w'\<rparr>)
                        | (Ok more_holders, w') \<Rightarrow>
                            (let ps = merge_new_providers (mp_providers M) more_holders
                             in case try_holders D store_id root off len expected (holder_order index ps) rs w' of
                                  (Ok bs, w'') \<Rightarrow> (Ok bs, M\<lparr>mp_world := w'', mp_providers := ps\<rparr>)
                                | (Err rs', w'') \<Rightarrow>
                                    (Err (chunk_exhausted index off len store_id root (length ps) rs'),
                                     M\<lparr>mp_world := w'', mp_providers := ps\<rparr>)))
                   | _ \<Rightarrow> (Err NotDownloadable, M\<lparr>mp_world := w\<rparr>))))"

definition load_or_fresh_state ::
    "('s, 't, 'h, 'w) module_deps \<Rightarrow> rstring \<Rightarrow> chunk_plan \<Rightarrow> ('s, 't, 'w) module_pull
     \<Rightarrow> (download_error + (download_state \<times> bool)) \<times> ('s, 't, 'w) module_pull" where
  "load_or_fresh_state D key P M =
     (let fresh_state = (download_state_new key)\<lparr>st_total_length := cp_total_size P, st_chunk_lens := cp_chunk_lens P\<rparr>
      in case ss_load (md_store D) key (mp_store M) of
           (Err e, t) \<Rightarrow> (Err e, M\<lparr>mp_store := t\<rparr>)
         | (Ok (Some prev), t) \<Rightarrow>
             if st_chunk_lens prev = cp_chunk_lens P then (Ok (prev, True), M\<lparr>mp_store := t\<rparr>)
             else (Ok (fresh_state, False), M\<lparr>mp_store := t\<rparr>)
         | (Ok None, t) \<Rightarrow> (Ok (fresh_state, False), M\<lparr>mp_store := t\<rparr>))"

definition read_back_verified_chunk ::
    "('s, 't, 'h, 'w) module_deps \<Rightarrow> module_info \<Rightarrow> nat \<Rightarrow> u64 \<Rightarrow> u64 \<Rightarrow> 's \<Rightarrow> bytes option \<times> 's" where
  "read_back_verified_chunk D info index off len s =
     (case sk_read_at (md_sink D) off len s of
        (Err e, s') \<Rightarrow> (None, s')
      | (Ok bs, s') \<Rightarrow>
          (if len64 bs \<noteq> len \<or> sha256_hex (md_hash D) bs \<noteq> mi_chunk_hashes info ! index then None else Some bs, s'))"

section \<open>The reader of the staged module\<close>

definition verified_chunk ::
    "('s, 't, 'h, 'w) module_deps \<Rightarrow> chunk_plan \<Rightarrow> rstring list \<Rightarrow> nat \<Rightarrow> 's \<Rightarrow> (download_error + bytes) \<times> 's" where
  "verified_chunk D P hashes index s =
     (case chunk_span P index of
        (off, len) \<Rightarrow>
          (case sk_read_at (md_sink D) off len s of
             (Err e, s') \<Rightarrow> (Err e, s')
           | (Ok bs, s') \<Rightarrow>
               (if len64 bs \<noteq> len
                then Err (SinkError (lit ''staged chunk '' @ dec index @ lit '' reads '' @ dec (length bs)
                                     @ lit '' bytes, expected '' @ dec64 len))
                else if sha256_hex (md_hash D) bs \<noteq> hashes ! index
                then Err (SinkError (lit ''staged chunk '' @ dec index @ lit '' no longer matches its verified hash''))
                else Ok bs, s')))"

text \<open>The loop of \<open>read_at\<close>: append the part of each chunk that lies in the window.\<close>

function reader_loop ::
    "('s, 't, 'h, 'w) module_deps \<Rightarrow> chunk_plan \<Rightarrow> rstring list \<Rightarrow> u64 \<Rightarrow> u64 \<Rightarrow> nat \<Rightarrow> bytes \<Rightarrow> 's
     \<Rightarrow> (download_error + bytes) \<times> 's" where
  "reader_loop D P hashes off len index acc s =
     (if unat len \<le> length acc then (Ok acc, s)
      else if plan_chunk_count P \<le> index
      then (Err (SinkError (lit ''the staged chunk plan does not cover ['' @ dec64 off @ lit '', ''
                            @ dec64 (off + len) @ lit '')'')), s)
      else
        (case chunk_span P index of
           (c_off, c_len) \<Rightarrow>
             if c_len = 0 then reader_loop D P hashes off len (Suc index) acc s
             else
               (case verified_chunk D P hashes index s of
                  (Err e, s') \<Rightarrow> (Err e, s')
                | (Ok chunk, s') \<Rightarrow>
                    (let want_from = off + len64 acc;
                         start = (case try_usize (md_host D) (want_from - c_off) of Some n \<Rightarrow> n | None \<Rightarrow> usize_max (md_host D));
                         want = (case try_usize (md_host D) (len - len64 acc) of Some n \<Rightarrow> n | None \<Rightarrow> usize_max (md_host D));
                         n = min (length chunk - start) want
                     in reader_loop D P hashes off len (Suc index) (acc @ slice chunk start n) s'))))"
  by pat_completeness auto

termination
  by (relation "measure (\<lambda>(D, P, hashes, off, len, index, acc, s). plan_chunk_count P - index)") auto

declare reader_loop.simps [simp del]

definition reader_start :: "chunk_plan \<Rightarrow> u64 \<Rightarrow> nat" where
  "reader_start P off = length (takeWhile (\<lambda>start. start \<le> off) (cp_offsets P)) - 1"

definition staged_read_at ::
    "('s, 't, 'h, 'w) module_deps \<Rightarrow> chunk_plan \<Rightarrow> rstring list \<Rightarrow> u64 \<Rightarrow> u64 \<Rightarrow> 's \<Rightarrow> (download_error + bytes) \<times> 's" where
  "staged_read_at D P hashes off len s =
     (if len = 0 then (Ok [], s)
      else if \<not> (unat off + unat len < 2 ^ 64 \<and> unat off + unat len \<le> unat (cp_total_size P))
      then (Err (SinkError (lit ''read ['' @ dec64 off @ lit '', '' @ dec64 off @ lit ''+'' @ dec64 len
              @ lit '') falls outside the '' @ dec64 (cp_total_size P) @ lit ''-byte module'')), s)
      else if try_usize (md_host D) len = None
      then (Err (SinkError (lit ''read of '' @ dec64 len @ lit '' bytes exceeds this platform'' @ [39] @ lit ''s address space'')), s)
      else reader_loop D P hashes off len (reader_start P off) [] s)"

definition staged_len :: "chunk_plan \<Rightarrow> u64" where
  "staged_len P = cp_total_size P"

text \<open>The verifier's questions, answered from the staging area.\<close>

primrec run_anchor ::
    "('s, 't, 'h, 'w) module_deps \<Rightarrow> chunk_plan \<Rightarrow> rstring list \<Rightarrow> anchor_query \<Rightarrow> 's \<Rightarrow> module_anchor \<times> 's" where
  "run_anchor D P hashes (Verdict a) = (\<lambda>s. (a, s))"
| "run_anchor D P hashes (AskLen k) = run_anchor D P hashes (k (staged_len P))"
| "run_anchor D P hashes (ReadWindow off len k) =
     (\<lambda>s. case staged_read_at D P hashes off len s of (answer, s') \<Rightarrow> run_anchor D P hashes (k answer) s')"

section \<open>One pull\<close>

fun is_not_found :: "download_error \<Rightarrow> bool" where
  "is_not_found (NotFound _) = True"
| "is_not_found _ = False"

definition chunk_failure :: "download_error \<Rightarrow> bool \<Rightarrow> pull_failure" where
  "chunk_failure e any_chunk_verified =
     (if is_recoverable e \<or> is_not_found e
      then UnsatisfiableDescriptor (describe_chunk_exhaustion e any_chunk_verified)
      else Terminal e)"

text \<open>
  The chunks in ascending order: take over a checkpointed chunk that still verifies, or fetch,
  write and checkpoint it; then absorb it into the running digest.
\<close>

fun pull_chunks ::
    "('s, 't, 'h, 'w) module_deps \<Rightarrow> module_info \<Rightarrow> chunk_plan \<Rightarrow> rstring \<Rightarrow> rstring \<Rightarrow> nat set \<Rightarrow> nat list
     \<Rightarrow> download_state \<Rightarrow> 'h \<Rightarrow> bool \<Rightarrow> ('s, 't, 'w) module_pull
     \<Rightarrow> (pull_failure + 'h) \<times> ('s, 't, 'w) module_pull" where
  "pull_chunks D info P store_id root checkpointed [] st h any_verified M = (Ok h, M)"
| "pull_chunks D info P store_id root checkpointed (i # is) st h any_verified M =
     (case chunk_span P i of
        (off, len) \<Rightarrow>
          (case (if i \<in> checkpointed then read_back_verified_chunk D info i off len (mp_sink M) else (None, mp_sink M)) of
             (Some bs, s) \<Rightarrow>
               pull_chunks D info P store_id root checkpointed is (mark_done i st) (h_update (md_hash D) h bs) True
                 (M\<lparr>mp_sink := s\<rparr>)
           | (None, s) \<Rightarrow>
               (case fetch_verified_chunk D info P i store_id root (M\<lparr>mp_sink := s\<rparr>) of
                  (Err e, M1) \<Rightarrow> (Err (chunk_failure e any_verified), M1)
                | (Ok bs, M1) \<Rightarrow>
                    (case sk_write_at (md_sink D) off bs (mp_sink M1) of
                       (Err e, s') \<Rightarrow> (Err (Terminal e), M1\<lparr>mp_sink := s'\<rparr>)
                     | (Ok _, s') \<Rightarrow>
                         (case ss_save (md_store D) (mark_done i st) (mp_store M1) of
                            (Err e, t) \<Rightarrow> (Err (Terminal e), M1\<lparr>mp_sink := s', mp_store := t\<rparr>)
                          | (Ok _, t) \<Rightarrow>
                              pull_chunks D info P store_id root checkpointed is (mark_done i st)
                                (h_update (md_hash D) h bs) True (M1\<lparr>mp_sink := s', mp_store := t\<rparr>))))))"

definition hash_gate :: "'h hash_ops \<Rightarrow> module_info \<Rightarrow> 'h \<Rightarrow> pull_failure + unit" where
  "hash_gate HO info h =
     (let assembled = hex_of (h_finalize HO h)
      in if assembled \<noteq> mi_module_hash info
         then Err (false_descriptor (lit ''assembled module_hash '' @ assembled @ lit '' != declared ''
                                     @ hex64_or_sentinel (mi_module_hash info) (lit ''module-hash'')))
         else Ok ())"

definition anchor_gate ::
    "('s, 't, 'h, 'w) module_deps \<Rightarrow> module_info \<Rightarrow> chunk_plan \<Rightarrow> rstring \<Rightarrow> rstring \<Rightarrow> ('s, 't, 'w) module_pull
     \<Rightarrow> (pull_failure + unit) \<times> ('s, 't, 'w) module_pull" where
  "anchor_gate D info P store_id root M =
     (if \<not> sk_supports_read_back (md_sink D)
      then (Err (Terminal (SinkError (lit ''this sink cannot read back its staged bytes, so the chain-anchor gate has nothing to read and the module could never be promoted; implement Sink::read_at + Sink::supports_read_back''))), M)
      else
        (case me_anchor (md_env D) store_id root (mp_world M) of
           (q, w) \<Rightarrow>
             (case run_anchor D P (mi_chunk_hashes info) q (mp_sink M) of
                (verdict, s) \<Rightarrow>
                  (case verdict of
                     Anchored \<Rightarrow> Ok ()
                   | NotAnchored \<Rightarrow>
                       Err (false_descriptor (lit ''assembled module is not chain-anchored under ('' @ store_id
                                              @ lit '', '' @ root @ lit '')''))
                   | Unavailable reason \<Rightarrow>
                       Err (Terminal (State (lit ''cannot verify the chain anchor for ('' @ store_id @ lit '', '' @ root
                         @ lit ''): '' @ sanitize_untrusted_text reason max_error_reason_chars))),
                   M\<lparr>mp_world := w, mp_sink := s\<rparr>))))"

definition promote_module ::
    "('s, 't, 'h, 'w) module_deps \<Rightarrow> chunk_plan \<Rightarrow> rstring \<Rightarrow> ('s, 't, 'w) module_pull
     \<Rightarrow> (pull_failure + u64) \<times> ('s, 't, 'w) module_pull" where
  "promote_module D P key M =
     (case promote_verified (md_sink D) (cp_total_size P) (mp_sink M) of
        (Err e, s) \<Rightarrow>
          (case ss_clear (md_store D) key (mp_store M) of
             (_, t) \<Rightarrow> (case sk_truncate (md_sink D) 0 s of
                         (_, s') \<Rightarrow> (Err (Terminal e), M\<lparr>mp_sink := s', mp_store := t\<rparr>)))
      | (Ok _, s) \<Rightarrow>
          (case ss_clear (md_store D) key (mp_store M) of
             (Err e, t) \<Rightarrow> (Err (Terminal e), M\<lparr>mp_sink := s, mp_store := t\<rparr>)
           | (Ok _, t) \<Rightarrow> (Ok (cp_total_size P), M\<lparr>mp_sink := s, mp_store := t\<rparr>)))"

text \<open>From the loaded checkpoint to the digest of all the chunks.\<close>

definition stage_module ::
    "('s, 't, 'h, 'w) module_deps \<Rightarrow> module_info \<Rightarrow> chunk_plan \<Rightarrow> rstring \<Rightarrow> rstring \<Rightarrow> ('s, 't, 'w) module_pull
     \<Rightarrow> (pull_failure + 'h) \<times> ('s, 't, 'w) module_pull" where
  "stage_module D info P store_id root M =
     (case load_or_fresh_state D (module_download_key store_id root) P M of
        (Err e, M1) \<Rightarrow> (Err (Terminal e), M1)
      | (Ok (st, resumes_staging), M1) \<Rightarrow>
          (case (if resumes_staging then (Ok (), mp_sink M1) else sk_truncate (md_sink D) 0 (mp_sink M1)) of
             (Err e, s) \<Rightarrow> (Err (Terminal e), M1\<lparr>mp_sink := s\<rparr>)
           | (Ok _, s) \<Rightarrow>
               pull_chunks D info P store_id root (st_done_ranges st) [0 ..< plan_chunk_count P]
                 (st\<lparr>st_done_ranges := {}\<rparr>) (h_init (md_hash D)) False (M1\<lparr>mp_sink := s\<rparr>)))"

definition pull_with_descriptor ::
    "('s, 't, 'h, 'w) module_deps \<Rightarrow> module_info \<Rightarrow> rstring \<Rightarrow> rstring \<Rightarrow> ('s, 't, 'w) module_pull
     \<Rightarrow> (pull_failure + u64) \<times> ('s, 't, 'w) module_pull" where
  "pull_with_descriptor D info store_id root M =
     (case from_info (md_host D) info (md_max_module_size D) of
        Err f \<Rightarrow> (Err f, M)
      | Ok P \<Rightarrow>
          (case stage_module D info P store_id root M of
             (Err f, M1) \<Rightarrow> (Err f, M1)
           | (Ok h, M1) \<Rightarrow>
               (case hash_gate (md_hash D) info h of
                  Err f \<Rightarrow> (Err f, M1)
                | Ok _ \<Rightarrow>
                    (case anchor_gate D info P store_id root M1 of
                       (Err f, M2) \<Rightarrow> (Err f, M2)
                     | (Ok _, M2) \<Rightarrow> promote_module D P (module_download_key store_id root) M2))))"

section \<open>The loop over descriptors\<close>

definition remembered_verdicts ::
    "('s, 't, 'h, 'w) module_deps \<Rightarrow> rstring \<Rightarrow> ('s, 't, 'w) module_pull \<Rightarrow> rstring list \<times> ('s, 't, 'w) module_pull" where
  "remembered_verdicts D key M =
     (case ss_bad_peers (md_store D) key (mp_store M) of
        (Ok peers, t) \<Rightarrow> (peers, M\<lparr>mp_store := t\<rparr>)
      | (Err e, t) \<Rightarrow> ([], M\<lparr>mp_store := t\<rparr>))"

definition remember_if_proven ::
    "('s, 't, 'h, 'w) module_deps \<Rightarrow> rstring \<Rightarrow> rstring \<Rightarrow> pull_failure \<Rightarrow> ('s, 't, 'w) module_pull \<Rightarrow> ('s, 't, 'w) module_pull" where
  "remember_if_proven D key source f M =
     (if is_proven_false f
      then (case ss_record_bad (md_store D) key source (mp_store M) of (_, t) \<Rightarrow> M\<lparr>mp_store := t\<rparr>)
      else M)"

function descriptor_loop ::
    "('s, 't, 'h, 'w) module_deps \<Rightarrow> rstring \<Rightarrow> rstring \<Rightarrow> nat \<Rightarrow> descriptor_exclusions \<Rightarrow> ('s, 't, 'w) module_pull
     \<Rightarrow> (download_error + u64) \<times> ('s, 't, 'w) module_pull" where
  "descriptor_loop D store_id root attempts X M =
     (case (if usable_holders (mp_providers M) X = 0 then stop_trusting_memory X else (False, X)) of
        (forget, X1) \<Rightarrow>
          if forget then descriptor_loop D store_id root attempts X1 M
          else
            (case fetch_module_info D (mp_providers M) (excluded X1) store_id root (mp_world M) of
               (Err e, w) \<Rightarrow>
                 if max_descriptor_attempts \<le> attempts + 1 then (Err e, M\<lparr>mp_world := w\<rparr>)
                 else descriptor_loop D store_id root (attempts + 1) X1 (M\<lparr>mp_world := w\<rparr>)
             | (Ok (source, info), w) \<Rightarrow>
                 (case pull_with_descriptor D info store_id root (M\<lparr>mp_world := w\<rparr>) of
                    (Ok n, M1) \<Rightarrow> (Ok n, M1)
                  | (Err f, M1) \<Rightarrow>
                      (case f of
                         Terminal e \<Rightarrow> (Err e, M1)
                       | _ \<Rightarrow>
                           (let M2 = remember_if_proven D (module_download_key store_id root) source f M1;
                                X2 = demote source X1
                            in if max_descriptor_attempts \<le> attempts + 1
                                  \<or> (usable_holders (mp_providers M2) X2 = 0 \<and> \<not> trusts_memory X2)
                               then (Err (failure_error f), M2)
                               else descriptor_loop D store_id root (attempts + 1) X2 M2)))))"
  by pat_completeness auto

text \<open>Each turn spends an attempt, of which there are three, or drops the memory, once.\<close>

termination
  by (relation "measure (\<lambda>(D, store_id, root, attempts, X, M).
       2 * (max_descriptor_attempts - attempts) + (if trusts_memory X then 1 else 0))")
    (auto simp: stop_trusting_memory_def demote_def split: if_splits)

declare descriptor_loop.simps [simp del]

text \<open>The outcome is \<open>None\<close> when decoding the ids panics.\<close>

definition module_download ::
    "('s, 't, 'h, 'w) module_deps \<Rightarrow> rstring \<Rightarrow> rstring \<Rightarrow> 's \<Rightarrow> 't \<Rightarrow> 'w
     \<Rightarrow> ((download_error + u64) \<times> ('s, 't, 'w) module_pull) option" where
  "module_download D store_id root s t w =
     (let M = \<lparr>mp_sink = s, mp_store = t, mp_world = w, mp_providers = []\<rparr>
      in case module_content_id store_id root of
           Panicked \<Rightarrow> None
         | Malformed \<Rightarrow> Some (Err NotDownloadable, M)
         | Decoded cid \<Rightarrow>
             (case me_find_providers (md_env D) cid w of
                (Err e, w') \<Rightarrow> Some (Err e, M\<lparr>mp_world := w'\<rparr>)
              | (Ok ps, w') \<Rightarrow>
                  (let M1 = M\<lparr>mp_world := w', mp_providers := ps\<rparr>
                   in if ps = [] then Some (Err (NotFound (module_download_key store_id root)), M1)
                      else
                        (case remembered_verdicts D (module_download_key store_id root) M1 of
                           (past, M2) \<Rightarrow>
                             Some (descriptor_loop D store_id root 0 (exclusions_new past) M2)))))"

end
