(* ===== verification/Module_Correct.thy ===== *)
theory Module_Correct
  imports Module_Pull
begin

text \<open>
  The contract of a whole-module pull, for any observable sink and any streaming digest: the
  staged prefix grows by attributed chunks only, the anchor verifier sees nothing but windows of
  the bytes that are then promoted, and the artifact changes to a module both gates accepted or
  not at all.
\<close>

section \<open>What the verifier was shown\<close>

text \<open>
  \<open>judged bs q a\<close>: asked about the module \<open>bs\<close>, the verifier \<open>q\<close> can come to the verdict \<open>a\<close>,
  every answer it gets being an error or the very window of \<open>bs\<close> it asked for.
\<close>

inductive judged :: "bytes \<Rightarrow> anchor_query \<Rightarrow> module_anchor \<Rightarrow> bool" for bs where
  verdict: "judged bs (Verdict a) a"
| asked_len: "unat n = length bs \<Longrightarrow> judged bs (k n) a \<Longrightarrow> judged bs (AskLen k) a"
| window: "\<lbrakk>len = 0 \<or> unat off + unat len \<le> length bs; judged bs (k (Ok (slice bs (unat off) (unat len)))) a\<rbrakk>
    \<Longrightarrow> judged bs (ReadWindow off len k) a"
| failure: "judged bs (k (Err e)) a \<Longrightarrow> judged bs (ReadWindow off len k) a"

inductive_simps judged_Verdict [simp]: "judged bs (Verdict a) b"

text \<open>A module that agrees with a descriptor: its size, its hash and the hash of each of its chunks.\<close>

definition attributed :: "'h hash_ops \<Rightarrow> module_info \<Rightarrow> bytes \<Rightarrow> bool" where
  "attributed HO info bs \<longleftrightarrow> length bs = unat (mi_total_size info) \<and> sha256_hex HO bs = mi_module_hash info
     \<and> (\<forall>i < length (mi_chunk_lens info).
          sha256_hex HO (slice bs (start_of (mi_chunk_lens info) i) (unat (mi_chunk_lens info ! i))) = mi_chunk_hashes info ! i)"

text \<open>
  A genuine module: it agrees with a descriptor some holder answered, is within the configured
  size, and the anchor verifier, shown only windows of these bytes, found it anchored.
\<close>

definition genuine :: "('s, 't, 'h, 'w) module_deps \<Rightarrow> rstring \<Rightarrow> rstring \<Rightarrow> bytes \<Rightarrow> bool" where
  "genuine D sid rt bs \<longleftrightarrow>
     (\<exists>info peer w. snd (fst (me_module_info (md_env D) peer sid rt w)) = Ok info
        \<and> attributed (md_hash D) info bs \<and> length bs \<le> unat (md_max_module_size D))
     \<and> (\<exists>w. judged bs (fst (me_anchor (md_env D) sid rt w)) Anchored)"

definition ranges_ok :: "'w module_env \<Rightarrow> bool" where
  "ranges_ok E \<longleftrightarrow>
     (\<forall>peer sid rt off len w el bs. fst (me_module_range E peer sid rt off len w) = (el, Ok bs) \<longrightarrow> vec_ok bs)"

lemma attribute_chunk_OkD:
  "attribute_chunk HO len expected bs = Ok cs \<Longrightarrow> vec_ok bs
   \<Longrightarrow> length cs = unat len \<and> sha256_hex HO cs = expected \<and> vec_ok cs"
  by (auto simp: attribute_chunk_def Let_def len64_eq_iff split: if_splits)

lemma fetch_chunk_OkD:
  assumes "ranges_ok (md_env D)" "fetch_chunk_from D peer sid rt off len expected w = (Ok cs, w')"
  shows "length cs = unat len \<and> sha256_hex (md_hash D) cs = expected \<and> vec_ok cs"
proof -
  obtain el x w1 where m: "me_module_range (md_env D) peer sid rt off len w = ((el, x), w1)"
    by (metis surj_pair)
  then obtain bs where x: "x = Ok bs" "attribute_chunk (md_hash D) len expected bs = Ok cs"
    using assms(2) by (auto simp: fetch_chunk_from_def within_def split: option.splits sum.splits if_splits)
  have "vec_ok bs" using assms(1) m x(1) unfolding ranges_ok_def by (metis fst_conv)
  then show ?thesis using attribute_chunk_OkD[OF x(2)] by simp
qed

lemma try_holders_OkD:
  "ranges_ok (md_env D) \<Longrightarrow> try_holders D sid rt off len expected peers rs w = (Ok cs, w')
   \<Longrightarrow> length cs = unat len \<and> sha256_hex (md_hash D) cs = expected \<and> vec_ok cs"
proof (induction peers arbitrary: rs w)
  case Nil
  then show ?case by simp
next
  case (Cons peer peers)
  obtain x w1 where f: "fetch_chunk_from D peer sid rt off len expected w = (x, w1)" by fastforce
  show ?case
  proof (cases x)
    case (Inl reason)
    then have "try_holders D sid rt off len expected peers (record_reason peer reason rs) w1 = (Ok cs, w')"
      using Cons.prems(2) f by simp
    from Cons.IH[OF Cons.prems(1) this] show ?thesis .
  next
    case (Inr bs)
    then have "fetch_chunk_from D peer sid rt off len expected w = (Ok cs, w')" using Cons.prems(2) f by simp
    from fetch_chunk_OkD[OF Cons.prems(1) this] show ?thesis .
  qed
qed

lemma fetch_verified_chunk_OkD:
  assumes "ranges_ok (md_env D)" "fetch_verified_chunk D info P i sid rt M = (Ok cs, M')"
  shows "length cs = unat (snd (chunk_span P i)) \<and> sha256_hex (md_hash D) cs = mi_chunk_hashes info ! i \<and> vec_ok cs"
  using assms(2)
  by (auto simp: fetch_verified_chunk_def Let_def split: prod.splits sum.splits hex_outcome.splits
      dest!: try_holders_OkD[OF assms(1)])

lemma fetch_verified_chunk_frame:
  "fetch_verified_chunk D info P i sid rt M = (r, M') \<Longrightarrow> mp_sink M' = mp_sink M \<and> mp_store M' = mp_store M"
  by (auto simp: fetch_verified_chunk_def Let_def split: prod.splits sum.splits hex_outcome.splits)

lemma load_or_fresh_frame: "load_or_fresh_state D key P M = (r, M') \<Longrightarrow> mp_sink M' = mp_sink M"
  by (auto simp: load_or_fresh_state_def Let_def split: prod.splits sum.splits option.splits if_splits)

lemma slice_slice: "b + n \<le> m \<Longrightarrow> slice (slice xs a m) b n = slice xs (a + b) n"
  by (simp add: slice_def take_drop min_def add.commute)

lemma reader_advance:
  fixes S c p st A L :: nat
  shows "S \<le> p \<Longrightarrow> st = p - S \<or> (c \<le> st \<and> c \<le> p - S) \<Longrightarrow> A + min (c - st) (L - A) < L
   \<Longrightarrow> S + c \<le> p + min (c - st) (L - A)"
  by (auto simp: min_def split: if_splits)

lemma reader_retreat:
  fixes S c p st w :: nat
  shows "S \<le> p \<Longrightarrow> st = p - S \<or> (c \<le> st \<and> c \<le> p - S) \<Longrightarrow> 0 < min (c - st) w \<Longrightarrow> p + min (c - st) w \<le> S + c"
  by (auto simp: min_def split: if_splits)

lemma slice_grow:
  "acc = slice xs off (length acc) \<Longrightarrow> c = slice xs (off + length acc) n \<Longrightarrow> length c = n
   \<Longrightarrow> acc @ c = slice xs off (length (acc @ c))"
  by (metis length_append slice_append)

lemma reader_window:
  assumes "chunk = slice stg S c" "length chunk = c" "S \<le> p" "start = p - S \<or> c \<le> start" "n \<le> c - start"
  shows "slice chunk start n = slice stg p n" "length (slice chunk start n) = n"
proof -
  show "slice chunk start n = slice stg p n"
  proof (cases "c \<le> start")
    case True
    then show ?thesis using assms(5) by (simp add: slice_def)
  next
    case False
    then have "start + n \<le> c" "S + start = p" using assms(3,4,5) by auto
    then show ?thesis using assms(1) slice_slice by metis
  qed
  show "length (slice chunk start n) = n" using assms(2,5) by simp
qed

text \<open>The cursor of one turn of the reader: both conversions saturate only where it does not matter.\<close>

lemma reader_cursor:
  assumes "length acc < unat len" "unat off + unat len < 2 ^ 64" "unat c_off \<le> unat off + length acc"
    and "try_usize H len \<noteq> None" "c \<le> usize_max H"
  shows "(case try_usize H (len - len64 acc) of Some n \<Rightarrow> n | None \<Rightarrow> usize_max H) = unat len - length acc"
    and "(case try_usize H (off + len64 acc - c_off) of Some n \<Rightarrow> n | None \<Rightarrow> usize_max H) = unat off + length acc - unat c_off
      \<or> (c \<le> (case try_usize H (off + len64 acc - c_off) of Some n \<Rightarrow> n | None \<Rightarrow> usize_max H)
          \<and> c \<le> unat off + length acc - unat c_off)"
proof -
  have vok: "vec_ok acc" using assms(1) unsigned_less[of len, where ?'a = nat] by simp
  have "unat (off + len64 acc) = unat off + length acc"
    using assms(1,2) by (simp add: unat_plus_if_size word_size unat_len64[OF vok])
  moreover from this have "c_off \<le> off + len64 acc" using assms(3) by (simp add: word_le_nat_alt)
  ultimately have "unat (off + len64 acc - c_off) = unat off + length acc - unat c_off" by (simp add: unat_sub)
  then show "(case try_usize H (off + len64 acc - c_off) of Some n \<Rightarrow> n | None \<Rightarrow> usize_max H) = unat off + length acc - unat c_off
      \<or> (c \<le> (case try_usize H (off + len64 acc - c_off) of Some n \<Rightarrow> n | None \<Rightarrow> usize_max H)
          \<and> c \<le> unat off + length acc - unat c_off)"
    using assms(5) by (auto simp: try_usize_def)
  have "len64 acc \<le> len" using assms(1) by (simp add: word_le_nat_alt unat_len64[OF vok])
  then have "unat (len - len64 acc) = unat len - length acc" by (simp add: unat_sub unat_len64[OF vok])
  then show "(case try_usize H (len - len64 acc) of Some n \<Rightarrow> n | None \<Rightarrow> usize_max H) = unat len - length acc"
    using assms(4) by (auto simp: try_usize_def split: if_splits)
qed

text \<open>The chunks a window \<open>[lo, hi)\<close> takes bytes from, and what the reader checks of each.\<close>

definition touches :: "chunk_plan \<Rightarrow> nat \<Rightarrow> nat \<Rightarrow> nat \<Rightarrow> bool" where
  "touches P lo hi j \<longleftrightarrow> j < plan_chunk_count P \<and> start_of (cp_chunk_lens P) j < start_of (cp_chunk_lens P) (Suc j)
     \<and> start_of (cp_chunk_lens P) j < hi \<and> lo < start_of (cp_chunk_lens P) (Suc j)"

definition chunk_matches :: "'h hash_ops \<Rightarrow> chunk_plan \<Rightarrow> rstring list \<Rightarrow> bytes \<Rightarrow> nat \<Rightarrow> bool" where
  "chunk_matches HO P hashes stg j \<longleftrightarrow>
     sha256_hex HO (slice stg (start_of (cp_chunk_lens P) j) (unat (cp_chunk_lens P ! j))) = hashes ! j"

lemma touches_later:
  assumes "touches P lo hi j" "Suc i \<le> j" "0 < n \<Longrightarrow> lo + n \<le> start_of (cp_chunk_lens P) (Suc i)"
  shows "touches P (lo + n) hi j"
  using assms start_of_mono[OF assms(2), of "cp_chunk_lens P"] by (cases "n = 0") (auto simp: touches_def)

section \<open>The puller\<close>

locale module_puller =
  observable_sink SK valid staged artifact + streaming_hash HO
  for SK :: "'s sink_ops" and valid :: "'s \<Rightarrow> bool" and staged :: "'s \<Rightarrow> bytes"
    and artifact :: "'s \<Rightarrow> bytes option" and HO :: "'h hash_ops"
begin

definition wired :: "('s, 't, 'h, 'w) module_deps \<Rightarrow> bool" where
  "wired D \<longleftrightarrow> md_sink D = SK \<and> md_hash D = HO \<and> ranges_ok (md_env D)
     \<and> (\<forall>off n s bs s'. valid s \<longrightarrow> sk_read_at SK off n s = (Ok bs, s') \<longrightarrow> length bs \<le> usize_max (md_host D))"

definition intact :: "bytes option \<Rightarrow> ('s, 't, 'w) module_pull \<Rightarrow> bool" where
  "intact a M \<longleftrightarrow> valid (mp_sink M) \<and> artifact (mp_sink M) = a"

text \<open>The first \<open>i\<close> chunks are staged, attributed, and absorbed into the running digest.\<close>

definition staged_chunks :: "chunk_plan \<Rightarrow> rstring list \<Rightarrow> nat \<Rightarrow> bytes \<Rightarrow> bool" where
  "staged_chunks P hashes i stg \<longleftrightarrow> start_of (cp_chunk_lens P) i \<le> length stg
     \<and> (\<forall>j < i. sha256_hex HO (slice stg (start_of (cp_chunk_lens P) j) (unat (cp_chunk_lens P ! j))) = hashes ! j)"

definition absorbed :: "chunk_plan \<Rightarrow> nat \<Rightarrow> bytes \<Rightarrow> 'h \<Rightarrow> bool" where
  "absorbed P i stg h \<longleftrightarrow> (\<exists>bss. h = absorb HO bss \<and> concat bss = take (start_of (cp_chunk_lens P) i) stg)"

lemma chunks_step:
  assumes P: "plan_ok P" and i: "i < plan_chunk_count P" and c: "staged_chunks P hashes i stg" "absorbed P i stg h"
    and stg': "take (start_of (cp_chunk_lens P) i) stg' = take (start_of (cp_chunk_lens P) i) stg"
    and bs: "slice stg' (start_of (cp_chunk_lens P) i) (unat (cp_chunk_lens P ! i)) = bs"
      "length bs = unat (cp_chunk_lens P ! i)" "sha256_hex HO bs = hashes ! i"
      "start_of (cp_chunk_lens P) i + length bs \<le> length stg'"
  shows "staged_chunks P hashes (Suc i) stg' \<and> absorbed P (Suc i) stg' (h_update HO h bs)"
proof -
  let ?S = "start_of (cp_chunk_lens P)"
  have Suc: "?S (Suc i) = ?S i + length bs"
    using i bs(2) by (simp add: start_of_Suc plan_chunk_count_def)
  have old: "slice stg' (?S j) (unat (cp_chunk_lens P ! j)) = slice stg (?S j) (unat (cp_chunk_lens P ! j))"
    if "j < i" for j
  proof -
    have e: "?S j + unat (cp_chunk_lens P ! j) \<le> ?S i"
      using start_of_mono[of "Suc j" i "cp_chunk_lens P"] that i by (simp add: start_of_Suc plan_chunk_count_def)
    have "slice s (?S j) (unat (cp_chunk_lens P ! j)) = slice (take (?S i) s) (?S j) (unat (cp_chunk_lens P ! j))"
      for s :: bytes using e by (simp add: slice_def take_drop min_def)
    then show ?thesis using stg' by metis
  qed
  have "\<forall>j < Suc i. sha256_hex HO (slice stg' (?S j) (unat (cp_chunk_lens P ! j))) = hashes ! j"
    using c(1) old bs by (auto simp: staged_chunks_def less_Suc_eq)
  then have a: "staged_chunks P hashes (Suc i) stg'" using Suc bs(4) by (simp add: staged_chunks_def)
  obtain bss where b: "h = absorb HO bss" "concat bss = take (?S i) stg" using c(2) by (auto simp: absorbed_def)
  have "concat (bss @ [bs]) = take (?S (Suc i)) stg'"
    using b(2) stg' bs(1) take_slice_append[of "?S i" stg' "length bs"] bs(2) Suc by simp
  then have "absorbed P (Suc i) stg' (h_update HO h bs)"
    using b(1) absorb_snoc unfolding absorbed_def by metis
  then show ?thesis using a by simp
qed

lemma read_back_step:
  assumes D: "wired D" and P: "plan_ok P" and i: "i < plan_chunk_count P" and m: "intact a M"
    and c: "staged_chunks P (mi_chunk_hashes info) i (staged (mp_sink M))" "absorbed P i (staged (mp_sink M)) h"
    and span: "chunk_span P i = (off, len)"
    and r: "read_back_verified_chunk D info i off len (mp_sink M) = (Some bs, s)"
  shows "valid s \<and> artifact s = a \<and> staged_chunks P (mi_chunk_hashes info) (Suc i) (staged s)
    \<and> absorbed P (Suc i) (staged s) (h_update HO h bs)"
proof -
  note sp = plan_span[OF P i, unfolded span, simplified]
  have val: "valid (mp_sink M)" "artifact (mp_sink M) = a" using m by (simp_all add: intact_def)
  have len: "len = cp_chunk_lens P ! i" using span by (simp add: chunk_span_def)
  obtain x where x: "sk_read_at SK off len (mp_sink M) = (Ok x, s)" "bs = x" "sha256_hex HO bs = mi_chunk_hashes info ! i"
    using r D by (auto simp: read_back_verified_chunk_def wired_def split: prod.splits sum.splits if_splits)
  note f = read_frame[OF val(1) x(1)] and e = read_exact[OF val(1) x(1)]
  have "start_of (cp_chunk_lens P) i + length bs \<le> length (staged s)"
  proof (cases "unat len = 0")
    case True
    then show ?thesis using e x(2) c(1) f by (simp add: staged_chunks_def)
  next
    case False
    then show ?thesis using e x(2) sp(1) f length_slice[of "staged (mp_sink M)" "unat off" "unat len"]
      by (auto simp: min_def split: if_splits)
  qed
  then have "staged_chunks P (mi_chunk_hashes info) (Suc i) (staged s) \<and> absorbed P (Suc i) (staged s) (h_update HO h bs)"
    by (intro chunks_step[OF P i c]) (use f e x sp(1) len in auto)
  then show ?thesis using f val by simp
qed

lemma write_step:
  assumes D: "wired D" and P: "plan_ok P" and i: "i < plan_chunk_count P" and m: "valid s" "artifact s = a"
    and c: "staged_chunks P hashes i (staged s)" "absorbed P i (staged s) h" and span: "chunk_span P i = (off, len)"
    and bs: "length bs = unat len" "sha256_hex HO bs = hashes ! i" "vec_ok bs"
    and w: "sk_write_at SK off bs s = (Ok u, s')"
  shows "valid s' \<and> artifact s' = a \<and> staged_chunks P hashes (Suc i) (staged s')
    \<and> absorbed P (Suc i) (staged s') (h_update HO h bs)"
proof -
  note sp = plan_span[OF P i, unfolded span, simplified]
  note f = write_frame[OF m(1) w bs(3)]
  have len: "len = cp_chunk_lens P ! i" using span by (simp add: chunk_span_def)
  let ?S = "start_of (cp_chunk_lens P) i"
  have S: "?S \<le> length (staged s)" using c(1) by (simp add: staged_chunks_def)
  have "take ?S (staged s') = take ?S (staged s) \<and> slice (staged s') ?S (length bs) = bs
      \<and> ?S + length bs \<le> length (staged s')"
  proof (cases "bs = []")
    case True
    have t: "take (length (staged s)) (staged s') = staged s" using write_nothing[OF m(1)] w True by blast
    then have "take ?S (staged s') = take ?S (staged s)" using S by (metis min.absorb1 take_take)
    moreover have "length (staged s) \<le> length (staged s')" using arg_cong[OF t, of length] by simp
    ultimately show ?thesis using True S by (simp add: slice_def)
  next
    case False
    have "staged s' = place ?S bs (staged s)" using write_places[OF m(1) w False bs(3)] sp(1) by simp
    moreover have "take ?S (place ?S bs (staged s)) = take ?S (staged s)"
      using S by (simp add: place_def Let_def)
    ultimately show ?thesis by (simp add: slice_place_same)
  qed
  then have "staged_chunks P hashes (Suc i) (staged s') \<and> absorbed P (Suc i) (staged s') (h_update HO h bs)"
    by (intro chunks_step[OF P i c]) (use bs len in auto)
  then show ?thesis using f m(2) by simp
qed

lemma pull_chunks_spec:
  assumes D: "wired D" and P: "plan_ok P"
  shows "\<lbrakk>i \<le> plan_chunk_count P; intact a M; staged_chunks P (mi_chunk_hashes info) i (staged (mp_sink M));
     absorbed P i (staged (mp_sink M)) h;
     pull_chunks D info P sid rt ck [i ..< plan_chunk_count P] st h any M = (r, M')\<rbrakk>
   \<Longrightarrow> intact a M' \<and> (\<forall>h'. r = Ok h' \<longrightarrow>
       staged_chunks P (mi_chunk_hashes info) (plan_chunk_count P) (staged (mp_sink M'))
       \<and> absorbed P (plan_chunk_count P) (staged (mp_sink M')) h')"
proof (induction "plan_chunk_count P - i" arbitrary: i M st h any)
  case 0
  then show ?case by auto
next
  case (Suc n)
  then have i: "i < plan_chunk_count P" and n: "n = plan_chunk_count P - Suc i" by auto
  have rest: "[i ..< plan_chunk_count P] = i # [Suc i ..< plan_chunk_count P]" using i by (simp add: upt_conv_Cons)
  obtain off len where span: "chunk_span P i = (off, len)" by fastforce
  obtain found s where rb: "(if i \<in> ck then read_back_verified_chunk D info i off len (mp_sink M) else (None, mp_sink M)) = (found, s)"
    by fastforce
  have val: "valid (mp_sink M)" "artifact (mp_sink M) = a" using Suc.prems(2) by (simp_all add: intact_def)
  have fr: "valid s \<and> artifact s = a \<and> staged s = staged (mp_sink M)"
    using rb val read_frame[OF val(1), of off len] D
    by (auto simp: read_back_verified_chunk_def wired_def split: prod.splits sum.splits if_splits)
  note IH = Suc.hyps(1)[OF n]
  have rok: "ranges_ok (md_env D)" "md_hash D = HO" using D by (simp_all add: wired_def)
  show ?case
  proof (cases found)
    case (Some bs)
    then have "read_back_verified_chunk D info i off len (mp_sink M) = (Some bs, s)"
      using rb by (simp split: if_splits)
    note st = read_back_step[OF D P i Suc.prems(2-4) span this]
    have "pull_chunks D info P sid rt ck [Suc i ..< plan_chunk_count P] (mark_done i st) (h_update HO h bs) True
        (M\<lparr>mp_sink := s\<rparr>) = (r, M')"
      using Suc.prems(5) rest span rb Some D by (simp add: wired_def)
    then show ?thesis using IH[of "M\<lparr>mp_sink := s\<rparr>"] st i by (auto simp: intact_def)
  next
    case None
    obtain x M1 where f: "fetch_verified_chunk D info P i sid rt (M\<lparr>mp_sink := s\<rparr>) = (x, M1)" by fastforce
    have m1: "mp_sink M1 = s" using fetch_verified_chunk_frame[OF f] by simp
    show ?thesis
    proof (cases x)
      case (Inl e)
      then show ?thesis using Suc.prems(5) rest span rb None f m1 fr by (auto simp: intact_def)
    next
      case (Inr bs)
      have bs: "length bs = unat len" "sha256_hex HO bs = mi_chunk_hashes info ! i" "vec_ok bs"
        using fetch_verified_chunk_OkD[OF rok(1) f[unfolded Inr], unfolded rok(2) span snd_conv] by blast+
      obtain y s' where w: "sk_write_at SK off bs s = (y, s')" by fastforce
      have w0: "valid s' \<and> artifact s' = a" using write_frame[OF _ w bs(3)] fr by simp
      obtain z t where sv: "ss_save (md_store D) (mark_done i st) (mp_store M1) = (z, t)" by fastforce
      show ?thesis
      proof (cases "is_ok y \<and> is_ok z")
        case False
        then show ?thesis using Suc.prems(5) rest span rb None f Inr m1 w sv w0 D
          by (cases y; cases z) (auto simp: intact_def wired_def)
      next
        case True
        then obtain u v where yz: "y = Ok u" "z = Ok v" by (cases y; cases z) auto
        have "pull_chunks D info P sid rt ck [Suc i ..< plan_chunk_count P] (mark_done i st) (h_update HO h bs) True
            (M1\<lparr>mp_sink := s', mp_store := t\<rparr>) = (r, M')"
          using Suc.prems(5) rest span rb None f Inr m1 w sv yz D by (simp add: wired_def)
        moreover note st = write_step[OF D P i conjunct1[OF fr] _ _ _ span bs w[unfolded yz(1)], of a h]
        ultimately show ?thesis using IH[of "M1\<lparr>mp_sink := s', mp_store := t\<rparr>"] fr Suc.prems(3,4) i
          by (auto simp: intact_def)
      qed
    qed
  qed
qed

section \<open>The reader\<close>

lemma verified_chunk_spec:
  assumes D: "wired D" and v: "valid s" and c: "verified_chunk D P hashes i s = (r, s')"
  shows "valid s' \<and> staged s' = staged s \<and> artifact s' = artifact s
    \<and> (\<forall>bs. r = Ok bs \<longrightarrow> bs = slice (staged s) (unat (fst (chunk_span P i))) (unat (snd (chunk_span P i)))
         \<and> length bs = unat (snd (chunk_span P i)) \<and> length bs \<le> usize_max (md_host D) \<and> sha256_hex HO bs = hashes ! i)"
proof -
  obtain off len where span: "chunk_span P i = (off, len)" by fastforce
  obtain x s1 where rd: "sk_read_at SK off len s = (x, s1)" by fastforce
  note f = read_frame[OF v rd]
  have "s' = s1" "r = Ok bs \<Longrightarrow> x = Ok bs \<and> sha256_hex HO bs = hashes ! i" for bs
    using c rd span D by (auto simp: verified_chunk_def wired_def split: sum.splits if_splits)
  moreover have "length bs \<le> usize_max (md_host D)" if "x = Ok bs" for bs
    using D v rd that unfolding wired_def by blast
  ultimately show ?thesis using f read_exact[OF v] rd span by fastforce
qed

lemma reader_loop_spec:
  assumes "wired D" and "plan_ok P"
  shows "\<lbrakk>valid s; reader_loop D P hashes off len idx acc s = (r, s'); unat off + unat len < 2 ^ 64;
     try_usize (md_host D) len \<noteq> None; acc = slice (staged s) (unat off) (length acc); length acc \<le> unat len;
     idx < plan_chunk_count P \<longrightarrow> length acc < unat len \<longrightarrow> start_of (cp_chunk_lens P) idx \<le> unat off + length acc;
     length acc = unat len \<longrightarrow> unat off + unat len \<le> start_of (cp_chunk_lens P) idx\<rbrakk>
   \<Longrightarrow> valid s' \<and> staged s' = staged s \<and> artifact s' = artifact s
     \<and> (\<forall>bs. r = Ok bs \<longrightarrow> bs = slice (staged s) (unat off) (unat len) \<and> length bs = unat len
          \<and> (\<forall>j \<ge> idx. touches P (unat off + length acc) (unat off + unat len) j \<longrightarrow> chunk_matches HO P hashes (staged s) j))"
  using assms
proof (induction D P hashes off len idx acc s rule: reader_loop.induct)
  case (1 D P hashes off len idx acc s)
  let ?S = "start_of (cp_chunk_lens P)"
  note prems = 1(3-12)
  show ?case
  proof (cases "unat len \<le> length acc \<or> plan_chunk_count P \<le> idx")
    case True
    then have "s' = s \<and> (\<forall>bs. r = Ok bs \<longrightarrow> bs = acc \<and> unat len \<le> length acc)"
      using prems(2) by (subst (asm) reader_loop.simps) (auto split: if_splits)
    moreover have "\<not> touches P lo (unat off + unat len) j" if "length acc = unat len" "idx \<le> j" for lo j
      using prems(8) that start_of_mono[OF that(2), of "cp_chunk_lens P"] by (auto simp: touches_def)
    ultimately show ?thesis using prems(1,5,6) by auto
  next
    case False
    then have lt: "length acc < unat len" and ix: "idx < plan_chunk_count P" by auto
    then have r: "\<not> unat len \<le> length acc" "\<not> plan_chunk_count P \<le> idx" by simp_all
    obtain c_off c_len where span: "chunk_span P idx = (c_off, c_len)" by fastforce
    note sp = plan_span[OF prems(10) ix, unfolded span, simplified]
    have pos: "?S idx \<le> unat off + length acc" using prems(7) lt ix by blast
    show ?thesis
    proof (cases "c_len = 0")
      case True
      have go: "reader_loop D P hashes off len (Suc idx) acc s = (r, s')"
        using prems(2) lt ix span True by (subst (asm) reader_loop.simps) simp
      have same: "?S (Suc idx) = ?S idx" using sp True by simp
      have "Suc idx < plan_chunk_count P \<longrightarrow> length acc < unat len \<longrightarrow> ?S (Suc idx) \<le> unat off + length acc"
        "length acc = unat len \<longrightarrow> unat off + unat len \<le> ?S (Suc idx)" using same pos lt by simp_all
      note IH = "1.IH"(1)[OF r span[symmetric] True prems(1) go prems(3-6) this prems(9,10)]
      have "Suc idx \<le> j" if "idx \<le> j" "touches P lo hi j" for lo hi j
        using that same by (cases "j = idx") (auto simp: touches_def)
      then show ?thesis using IH by blast
    next
      case False
      obtain x s1 where vc: "verified_chunk D P hashes idx s = (x, s1)" by fastforce
      note v = verified_chunk_spec[OF prems(9,1) vc, unfolded span fst_conv snd_conv]
      show ?thesis
      proof (cases x)
        case (Inl e)
        then show ?thesis using prems(2) lt ix span False vc v by (subst (asm) reader_loop.simps) auto
      next
        case (Inr chunk)
        have ch: "chunk = slice (staged s) (?S idx) (unat c_len)" "length chunk = unat c_len" "length chunk \<le> usize_max (md_host D)"
          "sha256_hex HO chunk = hashes ! idx"
          using v Inr sp(1) by auto
        let ?p = "unat off + length acc"
        let ?start = "case try_usize (md_host D) (off + len64 acc - c_off) of Some n \<Rightarrow> n | None \<Rightarrow> usize_max (md_host D)"
        let ?want = "case try_usize (md_host D) (len - len64 acc) of Some n \<Rightarrow> n | None \<Rightarrow> usize_max (md_host D)"
        let ?n = "min (length chunk - ?start) ?want"
        let ?acc = "acc @ slice chunk ?start ?n"
        note cu = reader_cursor[OF lt prems(3) _ prems(4) ch(3), of c_off, unfolded sp(1), OF pos]
        have start: "?start = ?p - ?S idx \<or> (unat c_len \<le> ?start \<and> unat c_len \<le> ?p - ?S idx)" using cu(2) ch(2) by simp
        have w1: "slice chunk ?start ?n = slice (staged s) ?p ?n" "length (slice chunk ?start ?n) = ?n"
          using reader_window[OF ch(1,2) pos, of ?start ?n] start ch(2) by auto
        have le: "length ?acc \<le> unat len" using w1(2) cu(1) lt by simp
        have nx: "Suc idx < plan_chunk_count P \<longrightarrow> length ?acc < unat len \<longrightarrow> ?S (Suc idx) \<le> unat off + length ?acc"
          using reader_advance[OF pos start, of "length acc" "unat len"] w1(2) cu(1) sp ch(2) by (simp add: add.assoc)
        have ahead: "?p + ?n \<le> ?S (Suc idx)" if "0 < ?n"
          using reader_retreat[OF pos start, of ?want] that sp ch(2) by simp
        have full: "length ?acc = unat len \<longrightarrow> unat off + unat len \<le> ?S (Suc idx)"
          using ahead w1(2) lt by (cases "?n = 0") auto
        have go: "reader_loop D P hashes off len (Suc idx) ?acc s1 = (r, s')"
          using prems(2) lt ix span False vc Inr by (subst (asm) reader_loop.simps) (simp add: Let_def)
        have v1: "valid s1" "staged s1 = staged s" "artifact s1 = artifact s" using v by simp_all
        note IH = "1.IH"(2)[OF r span[symmetric] False vc[symmetric] Inr refl refl refl refl v1(1) go prems(3,4)
            slice_grow[OF prems(5) w1, folded v1(2)] le nx full prems(9,10), unfolded v1(2,3)]
        have here: "chunk_matches HO P hashes (staged s) idx" using ch(1,4) span by (simp add: chunk_matches_def chunk_span_def)
        have later: "touches P (unat off + length ?acc) hi j" if "touches P ?p hi j" "Suc idx \<le> j" for hi j
          using touches_later[OF that ahead] w1(2) by (simp add: add.assoc)
        have "chunk_matches HO P hashes (staged s) j" if "r = Ok bs" "idx \<le> j" "touches P ?p (unat off + unat len) j" for bs j
        proof (cases "j = idx")
          case False
          then have "Suc idx \<le> j" using that(2) by simp
          then show ?thesis using IH later[OF that(3)] that(1) by blast
        qed (simp add: here)
        then show ?thesis using IH by blast
      qed
    qed
  qed
qed

lemma reader_start_le:
  assumes P: "plan_ok P" and i: "reader_start P off < plan_chunk_count P"
  shows "start_of (cp_chunk_lens P) (reader_start P off) \<le> unat off"
proof (cases "takeWhile (\<lambda>start. start \<le> off) (cp_offsets P) = []")
  case True
  then show ?thesis by (simp add: reader_start_def)
next
  case False
  let ?t = "takeWhile (\<lambda>start. start \<le> off) (cp_offsets P)"
  have r: "reader_start P off < length ?t" using False by (simp add: reader_start_def)
  then have "?t ! reader_start P off \<le> off" using nth_mem set_takeWhileD by metis
  then have "cp_offsets P ! reader_start P off \<le> off" using r by (simp add: takeWhile_nth)
  then show ?thesis using P i by (simp add: plan_ok_def plan_chunk_count_def word_le_nat_alt)
qed

lemma before_reader_start:
  assumes P: "plan_ok P" and j: "j < reader_start P off"
  shows "\<not> touches P (unat off) hi j"
proof -
  let ?t = "takeWhile (\<lambda>start. start \<le> off) (cp_offsets P)"
  have r: "Suc j < length ?t" using j by (simp add: reader_start_def)
  then have "Suc j < length (cp_offsets P)" using length_takeWhile_le[of "\<lambda>start. start \<le> off" "cp_offsets P"] by linarith
  moreover have "?t ! Suc j \<le> off" using r nth_mem set_takeWhileD by metis
  then have "cp_offsets P ! Suc j \<le> off" using r by (simp add: takeWhile_nth)
  ultimately show ?thesis using P by (auto simp: plan_ok_def touches_def word_le_nat_alt)
qed

text \<open>
  Whatever the reader answers is the very window of the staged module it was asked for, and every
  chunk the window takes bytes from has been hashed again.
\<close>

lemma staged_read_spec:
  assumes "wired D" "plan_ok P" "valid s" "staged_read_at D P hashes off len s = (r, s')"
  shows "valid s' \<and> staged s' = staged s \<and> artifact s' = artifact s
    \<and> (\<forall>bs. r = Ok bs \<longrightarrow> bs = slice (staged s) (unat off) (unat len) \<and> length bs = unat len
         \<and> (len = 0 \<or> unat off + unat len \<le> unat (cp_total_size P)
              \<and> (\<forall>j. touches P (unat off) (unat off + unat len) j \<longrightarrow> chunk_matches HO P hashes (staged s) j)))"
proof (cases "len = 0 \<or> \<not> (unat off + unat len < 2 ^ 64 \<and> unat off + unat len \<le> unat (cp_total_size P))
    \<or> try_usize (md_host D) len = None")
  case True
  then show ?thesis using assms(3,4) by (auto simp: staged_read_at_def slice_def split: if_splits)
next
  case False
  then have "reader_loop D P hashes off len (reader_start P off) [] s = (r, s')"
    using assms(4) by (auto simp: staged_read_at_def)
  note l = reader_loop_spec[OF assms(1-3) this, unfolded list.size add_0_right]
  have "unat len \<noteq> 0" using False by (simp add: unat_eq_0)
  then have "valid s' \<and> staged s' = staged s \<and> artifact s' = artifact s
    \<and> (\<forall>bs. r = Ok bs \<longrightarrow> bs = slice (staged s) (unat off) (unat len) \<and> length bs = unat len
         \<and> (\<forall>j \<ge> reader_start P off. touches P (unat off) (unat off + unat len) j \<longrightarrow> chunk_matches HO P hashes (staged s) j))"
    using l False reader_start_le[OF assms(2)] by (auto simp: slice_def)
  moreover have "reader_start P off \<le> j" if "touches P (unat off) hi j" for hi j
    using before_reader_start[OF assms(2)] that not_le by blast
  ultimately show ?thesis using False by auto
qed

lemma run_anchor_spec:
  assumes "wired D" "plan_ok P"
  shows "\<lbrakk>valid s; unat (cp_total_size P) \<le> length (staged s); run_anchor D P hashes q s = (verdict, s')\<rbrakk>
    \<Longrightarrow> valid s' \<and> staged s' = staged s \<and> artifact s' = artifact s
      \<and> judged (take (unat (cp_total_size P)) (staged s)) q verdict"
proof (induction q arbitrary: s)
  case (Verdict a)
  then show ?case by simp
next
  case (AskLen k)
  have "unat (staged_len P) = length (take (unat (cp_total_size P)) (staged s))"
    using AskLen.prems(2) by (simp add: staged_len_def)
  from judged.asked_len[OF this] show ?case using AskLen.IH[OF rangeI] AskLen.prems by (metis run_anchor.simps(2))
next
  case (ReadWindow off len k)
  let ?total = "unat (cp_total_size P)"
  obtain answer s1 where a: "staged_read_at D P hashes off len s = (answer, s1)" by fastforce
  note r = staged_read_spec[OF assms ReadWindow.prems(1) a]
  have IH: "valid s' \<and> staged s' = staged s \<and> artifact s' = artifact s \<and> judged (take ?total (staged s)) (k answer) verdict"
    using ReadWindow.IH[OF rangeI, of s1 answer] ReadWindow.prems a r by simp
  show ?case
  proof (cases answer)
    case (Inl e)
    then show ?thesis using IH judged.failure by metis
  next
    case (Inr bs)
    then have w: "len = 0 \<or> unat off + unat len \<le> ?total" "bs = slice (staged s) (unat off) (unat len)"
      using r by auto
    then have b: "bs = slice (take ?total (staged s)) (unat off) (unat len)"
      by (auto simp: slice_def take_drop min_def)
    have "len = 0 \<or> unat off + unat len \<le> length (take ?total (staged s))" using w(1) ReadWindow.prems(2) by simp
    from judged.window[OF this] show ?thesis using IH b Inr by metis
  qed
qed

section \<open>The gates and the promotion\<close>

lemma stage_module_spec:
  assumes D: "wired D" and P: "plan_ok P" and m: "intact a M" and r: "stage_module D info P sid rt M = (r, M')"
  shows "intact a M' \<and> (\<forall>h. r = Ok h \<longrightarrow>
      staged_chunks P (mi_chunk_hashes info) (plan_chunk_count P) (staged (mp_sink M'))
      \<and> absorbed P (plan_chunk_count P) (staged (mp_sink M')) h)"
proof -
  obtain x M1 where l: "load_or_fresh_state D (module_download_key sid rt) P M = (x, M1)" by fastforce
  have m1: "intact a M1" using load_or_fresh_frame[OF l] m by (simp add: intact_def)
  show ?thesis
  proof (cases x)
    case (Inl e)
    then show ?thesis using r l m1 by (auto simp: stage_module_def)
  next
    case (Inr y)
    then obtain st resumes where x: "x = Ok (st, resumes)" by (cases y) simp
    obtain z s where z: "(if resumes then (Ok (), mp_sink M1) else sk_truncate (md_sink D) 0 (mp_sink M1)) = (z, s)"
      by fastforce
    have s: "valid s \<and> artifact s = a"
      using z m1 truncate_frame[of "mp_sink M1" 0] D by (auto simp: intact_def wired_def split: if_splits)
    show ?thesis
    proof (cases z)
      case (Inl e)
      then show ?thesis using r l x z s by (auto simp: stage_module_def intact_def)
    next
      case (Inr u)
      have start: "intact a (M1\<lparr>mp_sink := s\<rparr>)" "staged_chunks P hashes 0 stg" "absorbed P 0 stg (h_init HO)" for hashes stg
        using s absorb_Nil by (auto simp: intact_def staged_chunks_def absorbed_def intro: exI[of _ "[]"])
      have "pull_chunks D info P sid rt (st_done_ranges st) [0 ..< plan_chunk_count P]
          (st\<lparr>st_done_ranges := {}\<rparr>) (h_init HO) False (M1\<lparr>mp_sink := s\<rparr>) = (r, M')"
        using r l x z Inr D by (simp add: stage_module_def wired_def)
      from pull_chunks_spec[OF D P _ start(1) start(2) start(3) this] show ?thesis by simp
    qed
  qed
qed

lemma start_of_all: "plan_ok P \<Longrightarrow> start_of (cp_chunk_lens P) (plan_chunk_count P) = unat (cp_total_size P)"
  by (simp add: plan_ok_def start_of_def plan_chunk_count_def)

lemma hash_gate_spec:
  assumes i: "from_info H info mx = Ok P" and c: "staged_chunks P (mi_chunk_hashes info) (plan_chunk_count P) stg"
    and h: "absorbed P (plan_chunk_count P) stg h" and g: "hash_gate HO info h = Ok u"
  shows "unat (cp_total_size P) \<le> length stg" "attributed HO info (take (unat (cp_total_size P)) stg)"
proof -
  note p = from_info_OkD[OF i] and all = start_of_all[OF from_info_OkD(1)[OF i]]
  let ?n = "unat (cp_total_size P)"
  show n: "?n \<le> length stg" using c all by (simp add: staged_chunks_def)
  obtain bss where b: "h = absorb HO bss" "concat bss = take ?n stg" using h all by (auto simp: absorbed_def)
  have "sha256_hex HO (take ?n stg) = mi_module_hash info"
    using g finalize_absorb[of bss] b by (auto simp: hash_gate_def Let_def sha256_hex_def split: if_splits)
  moreover have "slice (take ?n stg) (start_of (cp_chunk_lens P) i) (unat (cp_chunk_lens P ! i))
      = slice stg (start_of (cp_chunk_lens P) i) (unat (cp_chunk_lens P ! i))" if "i < plan_chunk_count P" for i
    using start_of_mono[of "Suc i" "plan_chunk_count P" "cp_chunk_lens P"] that all
    by (simp add: start_of_Suc plan_chunk_count_def slice_def take_drop min_def)
  ultimately show "attributed HO info (take ?n stg)"
    using c n p(2,3) by (simp add: attributed_def staged_chunks_def plan_chunk_count_def)
qed

lemma anchor_gate_spec:
  assumes D: "wired D" and P: "plan_ok P" and m: "intact a M" "unat (cp_total_size P) \<le> length (staged (mp_sink M))"
    and g: "anchor_gate D info P sid rt M = (r, M')"
  shows "intact a M' \<and> (\<forall>u. r = Ok u \<longrightarrow> staged (mp_sink M') = staged (mp_sink M)
    \<and> (\<exists>w. judged (take (unat (cp_total_size P)) (staged (mp_sink M))) (fst (me_anchor (md_env D) sid rt w)) Anchored))"
proof (cases "sk_supports_read_back (md_sink D)")
  case False
  then show ?thesis using g m(1) by (auto simp: anchor_gate_def)
next
  case True
  obtain q w where q: "me_anchor (md_env D) sid rt (mp_world M) = (q, w)" by fastforce
  obtain verdict s where v: "run_anchor D P (mi_chunk_hashes info) q (mp_sink M) = (verdict, s)" by fastforce
  have "valid (mp_sink M)" "artifact (mp_sink M) = a" using m(1) by (simp_all add: intact_def)
  note ra = run_anchor_spec[OF D P this(1) m(2) v]
  show ?thesis
  proof (cases verdict)
    case Anchored
    then have "judged (take (unat (cp_total_size P)) (staged (mp_sink M))) (fst (me_anchor (md_env D) sid rt (mp_world M))) Anchored"
      using ra q by simp
    then show ?thesis using g True q v ra m(1) Anchored
      by (auto simp: anchor_gate_def intact_def intro!: exI[of _ "mp_world M"])
  next
    case NotAnchored
    then show ?thesis using g True q v ra m(1) by (auto simp: anchor_gate_def intact_def)
  next
    case (Unavailable e)
    then show ?thesis using g True q v ra m(1) by (auto simp: anchor_gate_def intact_def)
  qed
qed

text \<open>A promotion either publishes the staged module, or fails and leaves the published file alone.\<close>

lemma promote_module_spec:
  assumes D: "wired D" and m: "intact a M" and p: "promote_module D P key M = (r, M')"
  shows "case r of
      Ok n \<Rightarrow> n = cp_total_size P \<and> artifact (mp_sink M') = Some (take (unat n) (staged (mp_sink M)))
    | Err f \<Rightarrow> intact a M'
        \<or> (\<exists>e t. f = Terminal e \<and> fst (ss_clear (md_store D) key t) = Err e
              \<and> artifact (mp_sink M') = Some (take (unat (cp_total_size P)) (staged (mp_sink M))))"
proof -
  have v: "valid (mp_sink M)" "artifact (mp_sink M) = a" using m by (simp_all add: intact_def)
  obtain x s where x: "promote_verified SK (cp_total_size P) (mp_sink M) = (x, s)" by fastforce
  obtain y t where y: "ss_clear (md_store D) key (mp_store M) = (y, t)" by fastforce
  have SK: "md_sink D = SK" using D by (simp add: wired_def)
  show ?thesis
  proof (cases x)
    case (Inl e)
    note e = promote_err[OF v(1) x[unfolded Inl]]
    obtain z s' where z: "sk_truncate SK 0 s = (z, s')" by fastforce
    have "r = Err (Terminal e) \<and> M' = M\<lparr>mp_sink := s', mp_store := t\<rparr>"
      using p x y z Inl SK by (simp add: promote_module_def)
    then show ?thesis using truncate_frame[OF conjunct1[OF e] z] e v by (simp add: intact_def)
  next
    case (Inr u)
    note ok = promote_ok[OF v(1) x[unfolded Inr]]
    show ?thesis
    proof (cases y)
      case (Inl e)
      then have "r = Err (Terminal e) \<and> M' = M\<lparr>mp_sink := s, mp_store := t\<rparr>"
        using p x y Inr SK by (simp add: promote_module_def)
      then show ?thesis using ok y Inl by (auto intro!: exI[of _ "mp_store M"])
    next
      case (Inr w)
      then show ?thesis using p x y ok \<open>x = Ok u\<close> SK by (auto simp: promote_module_def)
    qed
  qed
qed

section \<open>The pull and the download\<close>

text \<open>
  What an ended pull leaves: success with a genuine module published, failure with the published
  file as it was; only a store that cannot clear the checkpoint fails after publishing.
\<close>

definition settled :: "('s, 't, 'h, 'w) module_deps \<Rightarrow> rstring \<Rightarrow> rstring \<Rightarrow> (bytes \<Rightarrow> bool) \<Rightarrow> bytes option
    \<Rightarrow> (download_error \<Rightarrow> 'e) \<Rightarrow> 'e + u64 \<Rightarrow> ('s, 't, 'w) module_pull \<Rightarrow> bool" where
  "settled D sid rt Q a failed r M \<longleftrightarrow>
     (case r of
        Ok n \<Rightarrow> \<exists>bs. artifact (mp_sink M) = Some bs \<and> length bs = unat n \<and> Q bs
      | Err f \<Rightarrow> intact a M
          \<or> (\<exists>e t bs. f = failed e \<and> fst (ss_clear (md_store D) (module_download_key sid rt) t) = Err e
                \<and> artifact (mp_sink M) = Some bs \<and> Q bs))"

lemma pull_with_descriptor_spec:
  assumes D: "wired D" and m: "intact a M" and r: "pull_with_descriptor D info sid rt M = (r, M')"
  shows "settled D sid rt (\<lambda>bs. attributed HO info bs \<and> length bs \<le> unat (md_max_module_size D)
      \<and> (\<exists>w. judged bs (fst (me_anchor (md_env D) sid rt w)) Anchored)) a Terminal r M'"
proof (cases "from_info (md_host D) info (md_max_module_size D)")
  case (Inl f)
  then show ?thesis using r m by (auto simp: pull_with_descriptor_def settled_def)
next
  case (Inr P)
  note p = from_info_OkD[OF Inr]
  obtain x M1 where s: "stage_module D info P sid rt M = (x, M1)" by fastforce
  note st = stage_module_spec[OF D p(1) m s]
  show ?thesis
  proof (cases "\<exists>h. x = Ok h \<and> is_ok (hash_gate HO info h)")
    case False
    then show ?thesis using r Inr s st D
      by (cases x) (auto simp: pull_with_descriptor_def settled_def wired_def is_ok_def split: sum.splits)
  next
    case True
    then obtain h where "x = Ok h" "is_ok (hash_gate HO info h)" by blast
    then have h: "x = Ok h" "hash_gate HO info h = Ok ()" by (cases "hash_gate HO info h"; simp add: is_ok_def)+
    have "staged_chunks P (mi_chunk_hashes info) (plan_chunk_count P) (staged (mp_sink M1))"
      "absorbed P (plan_chunk_count P) (staged (mp_sink M1)) h" "intact a M1" using st h(1) by auto
    note hg = hash_gate_spec[OF Inr this(1,2) h(2)] and m1 = this(3)
    obtain y M2 where g: "anchor_gate D info P sid rt M1 = (y, M2)" by fastforce
    note ag = anchor_gate_spec[OF D p(1) m1 hg(1) g]
    show ?thesis
    proof (cases y)
      case (Inl f)
      then show ?thesis using r Inr s h g ag D by (auto simp: pull_with_descriptor_def settled_def wired_def)
    next
      case (Inr v)
      then have pr: "promote_module D P (module_download_key sid rt) M2 = (r, M')"
        using r \<open>from_info _ _ _ = Ok P\<close> s h g D by (simp add: pull_with_descriptor_def wired_def)
      have "intact a M2" "staged (mp_sink M2) = staged (mp_sink M1)" using ag Inr by auto
      note pm = promote_module_spec[OF D this(1) pr, unfolded this(2)]
      have "length (take (unat (cp_total_size P)) (staged (mp_sink M1))) = unat (cp_total_size P)" using hg(1) by simp
      moreover have "unat (cp_total_size P) \<le> unat (md_max_module_size D)" using p(2,5) by (simp add: word_le_nat_alt)
      ultimately show ?thesis using pm hg(2) ag Inr unfolding settled_def by (cases r) auto
    qed
  qed
qed

lemma ask_holders_OkD:
  "ask_holders D skip sid rt ps n rs w = (Ok (peer, info), w')
   \<Longrightarrow> \<exists>w. snd (fst (me_module_info (md_env D) peer sid rt w)) = Ok info"
proof (induction ps arbitrary: n rs w)
  case Nil
  then show ?case by simp
next
  case (Cons p ps)
  obtain el x w1 where q: "me_module_info (md_env D) (provider_peer_id p) sid rt w = ((el, x), w1)" by (metis surj_pair)
  show ?case
  proof (cases "provider_peer_id p \<in> set skip \<or> \<not> is_ok x \<or> md_range_timeout D < el")
    case True
    then show ?thesis using Cons q
      by (auto simp: Let_def within_def is_ok_def split: if_splits sum.splits)
  next
    case False
    then show ?thesis using Cons.prems q
      by (auto simp: Let_def within_def is_ok_def split: if_splits sum.splits intro!: exI[of _ w])
  qed
qed

lemma descriptor_loop_spec:
  "\<lbrakk>wired D; intact a M; descriptor_loop D sid rt attempts X M = (r, M')\<rbrakk>
   \<Longrightarrow> settled D sid rt (genuine D sid rt) a id r M'"
proof (induction D sid rt attempts X M rule: descriptor_loop.induct)
  case (1 D sid rt attempts X M)
  obtain forget X1 where f: "(if usable_holders (mp_providers M) X = 0 then stop_trusting_memory X else (False, X)) = (forget, X1)"
    by fastforce
  show ?case
  proof (cases forget)
    case True
    then have "descriptor_loop D sid rt attempts X1 M = (r, M')"
      using "1.prems"(3) f by (subst (asm) descriptor_loop.simps) simp
    then show ?thesis using "1.IH"(1)[OF f[symmetric] True "1.prems"(1,2)] by blast
  next
    case False
    obtain x w where q: "fetch_module_info D (mp_providers M) (excluded X1) sid rt (mp_world M) = (x, w)" by fastforce
    have m: "intact a (M\<lparr>mp_world := w\<rparr>)" using "1.prems"(2) by (simp add: intact_def)
    note unfold = "1.prems"(3)[unfolded descriptor_loop.simps[of D sid rt attempts X M] f prod.case q]
    show ?thesis
    proof (cases x)
      case (Inl e)
      show ?thesis
      proof (cases "max_descriptor_attempts \<le> attempts + 1")
        case True
        then show ?thesis using unfold False Inl m by (auto simp: settled_def)
      next
        case more_attempts: False
        then have "descriptor_loop D sid rt (attempts + 1) X1 (M\<lparr>mp_world := w\<rparr>) = (r, M')"
          using unfold False Inl by simp
        then show ?thesis using "1.IH"(2)[OF f[symmetric] False q[symmetric] Inl more_attempts "1.prems"(1) m] by blast
      qed
    next
      case (Inr y)
      then obtain peer info where x: "x = Ok (peer, info)" by (cases y) simp
      obtain z M1 where p: "pull_with_descriptor D info sid rt (M\<lparr>mp_world := w\<rparr>) = (z, M1)" by fastforce
      note s = pull_with_descriptor_spec[OF "1.prems"(1) m p]
      have HO: "md_hash D = HO" using "1.prems"(1) by (simp add: wired_def)
      have held: "\<exists>w. snd (fst (me_module_info (md_env D) peer sid rt w)) = Ok info"
        using ask_holders_OkD q x unfolding fetch_module_info_def by metis
      show ?thesis
      proof (cases "\<exists>f. z = Err f \<and> (\<forall>e. f \<noteq> Terminal e)")
        case False
        then have "z = (case r of Ok n \<Rightarrow> Ok n | Err e \<Rightarrow> Err (Terminal e)) \<and> M' = M1"
          using unfold \<open>\<not> forget\<close> x p by (cases z) (auto split: pull_failure.splits)
        then show ?thesis using s held HO by (auto simp: settled_def genuine_def split: sum.splits)
      next
        case True
        then obtain g where z: "z = Err g" "\<And>e. g \<noteq> Terminal e" by blast
        have m1: "intact a M1" using s z by (auto simp: settled_def)
        define M2 where "M2 = remember_if_proven D (module_download_key sid rt) peer g M1"
        define X2 where "X2 = demote peer X1"
        have m2: "intact a M2"
          using m1 by (auto simp: M2_def remember_if_proven_def intact_def split: prod.splits)
        show ?thesis
        proof (cases "max_descriptor_attempts \<le> attempts + 1 \<or> (usable_holders (mp_providers M2) X2 = 0 \<and> \<not> trusts_memory X2)")
          case True
          then have "r = Err (failure_error g) \<and> M' = M2"
            using unfold \<open>\<not> forget\<close> x p z by (cases g) (auto simp: M2_def X2_def Let_def)
          then show ?thesis using m2 by (auto simp: settled_def)
        next
          case go: False
          then have again: "descriptor_loop D sid rt (attempts + 1) X2 M2 = (r, M')"
            using unfold \<open>\<not> forget\<close> x p z by (cases g) (auto simp: M2_def X2_def Let_def)
          show ?thesis
            using "1.IH"(3-)[OF f[symmetric] \<open>\<not> forget\<close> q[symmetric] x refl p[symmetric] z(1)] z(2) go again m2 "1.prems"(1)
            by (cases g) (auto simp: M2_def X2_def)
        qed
      qed
    qed
  qed
qed

lemma remembered_verdicts_frame: "remembered_verdicts D key M = (ps, M') \<Longrightarrow> mp_sink M' = mp_sink M"
  by (auto simp: remembered_verdicts_def split: prod.splits sum.splits)

lemma module_download_spec:
  assumes D: "wired D" and s: "valid s" "artifact s = a" and r: "module_download D sid rt s t w = Some (r, M')"
  shows "settled D sid rt (genuine D sid rt) a id r M'"
proof (cases "\<exists>past X M2. descriptor_loop D sid rt 0 (exclusions_new past) M2 = (r, M') \<and> mp_sink M2 = s")
  case True
  then obtain past X M2 where l: "descriptor_loop D sid rt 0 (exclusions_new past) M2 = (r, M')" "mp_sink M2 = s" by blast
  then have "intact a M2" using s by (simp add: intact_def)
  from descriptor_loop_spec[OF D this l(1)] show ?thesis .
next
  case False
  then have "(\<exists>e. r = Err e) \<and> mp_sink M' = s"
    using r by (auto simp: module_download_def Let_def split: hex_outcome.splits prod.splits sum.splits if_splits
      dest!: remembered_verdicts_frame)
  then show ?thesis using s by (auto simp: settled_def intact_def)
qed

end

section \<open>The repository's own sinks\<close>

interpretation file_module: module_puller "file_backed_sink H" "valid_at p" file_staged "published_at p"
    "buffering_hash d" for H p d
  by unfold_locales

interpretation memory_module: module_puller "in_memory_sink H" "mem_valid H" buf mem_artifact
    "buffering_hash d" for H d
  by unfold_locales

lemma file_puller:
  "streaming_hash HO \<Longrightarrow> module_puller (file_backed_sink H) (valid_at p) file_staged (published_at p) HO"
  by (intro module_puller.intro file_at.observable_sink_axioms)

lemma memory_puller:
  "streaming_hash HO \<Longrightarrow> module_puller (in_memory_sink H) (mem_valid H) buf mem_artifact HO"
  by (intro module_puller.intro mem.observable_sink_axioms)

text \<open>A downloader for files and one for memory, over any store, environment and limits.\<close>

definition puts_in_file :: "host \<Rightarrow> (file_sink, 't, 'h, 'w) module_deps \<Rightarrow> bool" where
  "puts_in_file H D \<longleftrightarrow> md_sink D = file_backed_sink H \<and> md_host D = H \<and> streaming_hash (md_hash D) \<and> ranges_ok (md_env D)"

definition puts_in_memory :: "host \<Rightarrow> (mem_sink, 't, 'h, 'w) module_deps \<Rightarrow> bool" where
  "puts_in_memory H D \<longleftrightarrow> md_sink D = in_memory_sink H \<and> md_host D = H \<and> streaming_hash (md_hash D) \<and> ranges_ok (md_env D)"

lemma mem_read_fits: "mem_read_at H off n m = (Ok bs, m') \<Longrightarrow> length bs \<le> usize_max H"
  by (auto simp: mem_read_at_def read_back_bounds_Ok_iff split: sum.splits if_splits)

lemma file_read_fits:
  assumes "valid_at p s" "file_read_at H off n s = (Ok bs, s')"
  shows "length bs \<le> usize_max H"
proof -
  have "sk_read_at (file_backed_sink H) off n s = (Ok bs, s')" using assms(2) by (simp add: file_backed_sink_def)
  from file_at.read_exact[OF assms(1) this] have "length bs = unat n" by (rule conjunct2)
  moreover have "unat n \<le> usize_max H"
    using assms(2) by (auto simp: file_read_at_def try_zeroed_read_buffer_def try_usize_def
      split: sum.splits prod.splits option.splits if_splits)
  ultimately show ?thesis by simp
qed

lemma file_wired:
  assumes "puts_in_file H D"
  shows "module_puller.wired (file_backed_sink H) (valid_at p) (md_hash D) D"
proof -
  have "streaming_hash (md_hash D)" using assms by (simp add: puts_in_file_def)
  note L = file_puller[OF this, where H = H and p = p]
  show ?thesis using assms file_read_fits[where p = p and H = H] unfolding module_puller.wired_def[OF L]
    by (auto simp: puts_in_file_def file_backed_sink_def)
qed

lemma memory_wired:
  assumes "puts_in_memory H D"
  shows "module_puller.wired (in_memory_sink H) (mem_valid H) (md_hash D) D"
proof -
  have "streaming_hash (md_hash D)" using assms by (simp add: puts_in_memory_def)
  note L = memory_puller[OF this, where H = H]
  show ?thesis using assms mem_read_fits[where H = H] unfolding module_puller.wired_def[OF L]
    by (auto simp: puts_in_memory_def in_memory_sink_def)
qed

end
