(* ===== verification/Module_Download.thy ===== *)
theory Module_Download
  imports Module_Correct Download
begin

text \<open>
  The properties of a whole-module download on the repository's own sinks: what success and
  failure leave behind, and what the anchor verifier can read.
\<close>

section \<open>An example module\<close>

text \<open>One holder serves the module \<open>[7, 8, 9]\<close> in chunks of two bytes and one.\<close>

definition example_module :: bytes where
  "example_module = [7, 8, 9]"

definition example_info :: module_info where
  "example_info = \<lparr>mi_total_size = 3, mi_module_hash = hex_of [7, 8, 9],
     mi_chunk_hashes = [hex_of [7, 8], hex_of [9]], mi_chunk_lens = [2, 1]\<rparr>"

definition serving :: "bytes \<Rightarrow> u64 \<Rightarrow> u64 \<Rightarrow> nat \<times> (download_error + bytes)" where
  "serving bs off len = (5, Ok (slice bs (unat off) (unat len)))"

definition reading_anchor :: "bytes \<Rightarrow> anchor_query" where
  "reading_anchor bs = ReadWindow 1 2 (\<lambda>r. Verdict (if r = Ok bs then Anchored else NotAnchored))"

definition example_module_env :: "anchor_query \<Rightarrow> unit module_env" where
  "example_module_env q =
     \<lparr>me_find_providers = (\<lambda>c w. (Ok [example_provider], w)),
      me_module_info = (\<lambda>peer sid rt w. ((5, Ok example_info), w)),
      me_module_range = (\<lambda>peer sid rt off len w. (serving example_module off len, w)),
      me_anchor = (\<lambda>sid rt w. (q, w))\<rparr>"

definition example_module_deps :: "'t state_ops \<Rightarrow> anchor_query \<Rightarrow> (file_sink, 't, bytes, unit) module_deps" where
  "example_module_deps T q =
     \<lparr>md_sink = file_backed_sink example_host, md_store = T, md_hash = buffering_hash (\<lambda>bs. bs),
      md_env = example_module_env q, md_range_timeout = fst module_config_default,
      md_max_module_size = snd module_config_default, md_host = example_host\<rparr>"

definition example_store_id :: rstring where
  "example_store_id = hex_of (replicate 32 1)"

definition example_root :: rstring where
  "example_root = hex_of (replicate 32 2)"

lemma example_content_id:
  "module_content_id example_store_id example_root = Decoded (RootContent (replicate 32 1) (replicate 32 2))"
  by (simp only: module_content_id_def example_store_id_def example_root_def hex32_hex_of length_replicate hex_outcome.case)

abbreviation empty_store :: mem_store where
  "empty_store \<equiv> \<lparr>ms_inner = [], ms_reputation = [], ms_now = 0\<rparr>"

lemmas pulling = module_download_def example_content_id remembered_verdicts_def in_memory_state_store_def
  usable_holders_def exclusions_new_def excluded_def fetch_module_info_def within_def
  pull_with_descriptor_def from_info_def try_sum.simps push_offsets.simps checked_add_def max_module_chunk_count_def
  stage_module_def load_or_fresh_state_def mem_load_def plan_chunk_count_def chunk_span_def
  fetch_verified_chunk_def holder_order_def fetch_chunk_from_def attribute_chunk_def serving_def
  mark_done_def mem_save_def hash_gate_def anchor_gate_def staged_read_at_def reader_start_def download_state_new_def
  len64_def try_usize_def word_le_nat_alt
  verified_chunk_def promote_module_def mem_clear_def sha256_hex_def

lemmas filing = buffering_hash_def file_backed_sink_def file_sink_new_def file_defs staging_path_for_def
  tmp_suffix_def promote_verified_def example_disk_def

lemmas module_inputs = example_module_deps_def example_module_env_def example_info_def example_module_def
  module_config_default_def default_max_module_size_def reading_anchor_def example_host_def example_provider_def

abbreviation example_start :: "fs \<Rightarrow> 't \<Rightarrow> (file_sink, 't, unit) module_pull" where
  "example_start F t \<equiv> \<lparr>mp_sink = file_sink_new (Path [1] [2]) F, mp_store = t, mp_world = (),
     mp_providers = [example_provider]\<rparr>"

lemma reader_loop_done: "unat len \<le> length acc \<Longrightarrow> reader_loop D P hashes off len index acc s = (Ok acc, s)"
  by (simp add: reader_loop.simps)

lemmas reader_loop_turn = trans[OF reader_loop.simps if_not_P]

text \<open>The first descriptor a usable holder answers decides the download when its pull ends it.\<close>

lemma descriptor_loop_first:
  assumes "usable_holders (mp_providers M) X \<noteq> 0"
    and "fetch_module_info D (mp_providers M) (excluded X) sid rt (mp_world M) = (Ok (peer, info), w)"
    and "pull_with_descriptor D info sid rt (M\<lparr>mp_world := w\<rparr>) = (r, M1)"
    and "\<And>f. r = Err f \<Longrightarrow> \<exists>e. f = Terminal e"
  shows "descriptor_loop D sid rt n X M = ((case r of Ok k \<Rightarrow> Ok k | Err f \<Rightarrow> Err (failure_error f)), M1)"
proof (cases r)
  case (Inl f)
  then obtain e where "f = Terminal e" using assms(4) by blast
  then show ?thesis using assms(1-3) Inl by (simp add: descriptor_loop.simps[of D sid rt n X M])
next
  case (Inr k)
  then show ?thesis using assms(1-3) by (simp add: descriptor_loop.simps[of D sid rt n X M])
qed

lemma example_fetch:
  "fetch_module_info (example_module_deps T q) [example_provider] [] sid rt w = (Ok ([1], example_info), w)"
  by (simp add: fetch_module_info_def module_inputs within_def)

lemma example_module_run:
  assumes "pull_with_descriptor (example_module_deps T q) example_info example_store_id example_root (example_start F t) = (r, M1)"
    and "\<And>f. r = Err f \<Longrightarrow> \<exists>e. f = Terminal e"
    and "ss_bad_peers T (module_download_key example_store_id example_root) t = (Ok [], t)"
  shows "module_download (example_module_deps T q) example_store_id example_root (file_sink_new (Path [1] [2]) F) t ()
    = Some ((case r of Ok k \<Rightarrow> Ok k | Err f \<Rightarrow> Err (failure_error f)), M1)"
proof -
  have "descriptor_loop (example_module_deps T q) example_store_id example_root 0 (exclusions_new []) (example_start F t)
      = ((case r of Ok k \<Rightarrow> Ok k | Err f \<Rightarrow> Err (failure_error f)), M1)"
    by (rule descriptor_loop_first[where peer = "[1]" and info = example_info and w = "()"])
      (use assms(1,2) example_fetch in \<open>simp_all add: usable_holders_def exclusions_new_def excluded_def\<close>)
  moreover have "md_store (example_module_deps T q) = T"
      "me_find_providers (md_env (example_module_deps T q)) = (\<lambda>c w. (Ok [example_provider], w))"
    by (simp_all add: example_module_deps_def example_module_env_def)
  ultimately show ?thesis using assms(3)
    by (simp add: module_download_def example_content_id remembered_verdicts_def Let_def)
qed

lemma example_pull:
  "fst (pull_with_descriptor (example_module_deps in_memory_state_store (reading_anchor [8, 9])) example_info
     example_store_id example_root (example_start example_disk empty_store)) = Ok 3"
  by (simp add: pulling module_inputs filing Let_def reader_loop_done reader_loop_turn)

lemma example_module_download:
  "\<exists>M'. module_download (example_module_deps in_memory_state_store (reading_anchor [8, 9]))
     example_store_id example_root (file_sink_new (Path [1] [2]) example_disk) empty_store () = Some (Ok 3, M')"
proof -
  obtain M1 where "pull_with_descriptor (example_module_deps in_memory_state_store (reading_anchor [8, 9])) example_info
      example_store_id example_root (example_start example_disk empty_store) = (Ok 3, M1)"
    using example_pull by (metis prod.collapse)
  from example_module_run[OF this] show ?thesis by (simp add: in_memory_state_store_def mem_bad_peers_def)
qed

lemma example_puts: "puts_in_file example_host (example_module_deps T q)"
  using buffering.streaming_hash_axioms
  by (auto simp: puts_in_file_def ranges_ok_def example_module_deps_def example_module_env_def serving_def
      example_module_def slice_def)

section \<open>Properties\<close>

text \<open>
  C2: a module download to a file, from any holders and over any checkpoint left behind,
  under any file-system faults: when it succeeds, the file under the final name is a genuine
  module of the returned length. It agrees with a descriptor a holder answered in size, hash and
  every chunk hash, and the anchor verifier, shown only windows of these very bytes, accepted it.
\<close>

theorem module_download_correct:
  assumes "puts_in_file H D" and "fs_ok F"
    and "module_download D sid rt (file_sink_new p F) t w = Some (Ok n, M')"
  shows "\<exists>bs. content (disk (mp_sink M')) p = Some bs \<and> length bs = unat n \<and> genuine D sid rt bs"
proof -
  have "streaming_hash (md_hash D)" using assms(1) by (simp add: puts_in_file_def)
  note L = file_puller[OF this, where H = H and p = p]
  have v: "valid_at p (file_sink_new p F)" using assms(2) file_sink_new_valid by (simp add: valid_at_def file_sink_new_def)
  from module_puller.module_download_spec[OF L file_wired[OF assms(1)] v refl assms(3)] show ?thesis
    unfolding module_puller.settled_def[OF L] by (simp add: published_at_def)
qed

theorem module_download_correct_witness:
  "\<exists>M'. module_download (example_module_deps in_memory_state_store (reading_anchor [8, 9]))
       example_store_id example_root (file_sink_new (Path [1] [2]) example_disk) empty_store () = Some (Ok 3, M')
     \<and> (\<exists>bs. content (disk (mp_sink M')) (Path [1] [2]) = Some bs \<and> length bs = 3
        \<and> genuine (example_module_deps in_memory_state_store (reading_anchor [8, 9])) example_store_id example_root bs)"
proof -
  have ok: "fs_ok example_disk" by (simp add: fs_ok_def example_disk_def lookup_def)
  obtain M' where r: "module_download (example_module_deps in_memory_state_store (reading_anchor [8, 9]))
      example_store_id example_root (file_sink_new (Path [1] [2]) example_disk) empty_store () = Some (Ok 3, M')"
    using example_module_download by blast
  from module_download_correct[OF example_puts ok r] r show ?thesis by simp
qed

text \<open>
  C5: a module download to a file that fails leaves the file under the final name as
  it was. The one exception is an error of clearing the checkpoint, which comes after the
  promotion: then the new file is there, and it is a genuine module.
\<close>

theorem module_download_fails_closed:
  assumes "puts_in_file H D" and "fs_ok F"
    and "module_download D sid rt (file_sink_new p F) t w = Some (Err e, M')"
  shows "content (disk (mp_sink M')) p = content F p
    \<or> (\<exists>t' bs. fst (ss_clear (md_store D) (module_download_key sid rt) t') = Err e
          \<and> content (disk (mp_sink M')) p = Some bs \<and> genuine D sid rt bs)"
proof -
  have "streaming_hash (md_hash D)" using assms(1) by (simp add: puts_in_file_def)
  note L = file_puller[OF this, where H = H and p = p]
  have v: "valid_at p (file_sink_new p F)" using assms(2) file_sink_new_valid by (simp add: valid_at_def file_sink_new_def)
  have a: "published_at p (file_sink_new p F) = content F p" by (simp add: published_at_def file_sink_new_def)
  from module_puller.module_download_spec[OF L file_wired[OF assms(1)] v a assms(3)] show ?thesis
    unfolding module_puller.settled_def[OF L] module_puller.intact_def[OF L] by (auto simp: published_at_def)
qed

text \<open>The same module under a chain that cannot be reached, over an older file.\<close>

lemma unreachable_pull:
  "\<exists>e. fst (pull_with_descriptor (example_module_deps in_memory_state_store (Verdict (Unavailable []))) example_info
     example_store_id example_root (example_start published_disk empty_store)) = Err (Terminal e)"
  by (simp add: pulling module_inputs filing Let_def reader_loop_done reader_loop_turn published_disk_def)

theorem module_download_fails_closed_witness:
  "\<exists>e M'. module_download (example_module_deps in_memory_state_store (Verdict (Unavailable [])))
       example_store_id example_root (file_sink_new (Path [1] [2]) published_disk) empty_store () = Some (Err e, M')
     \<and> content (disk (mp_sink M')) (Path [1] [2]) = Some [5]"
proof -
  let ?D = "example_module_deps in_memory_state_store (Verdict (Unavailable []))"
  have ok: "fs_ok published_disk" by (auto simp: fs_ok_def published_disk_def lookup_def split: if_splits)
  obtain e M1 where p: "pull_with_descriptor ?D example_info example_store_id example_root
      (example_start published_disk empty_store) = (Err (Terminal e), M1)"
    using unreachable_pull by (metis prod.collapse)
  have r: "module_download ?D example_store_id example_root (file_sink_new (Path [1] [2]) published_disk) empty_store ()
      = Some (Err e, M1)"
    using example_module_run[OF p] by (simp add: in_memory_state_store_def mem_bad_peers_def)
  have "fst (ss_clear (md_store ?D) k t) \<noteq> Err e" for k t
    by (simp add: example_module_deps_def in_memory_state_store_def mem_clear_def)
  then have "content (disk (mp_sink M1)) (Path [1] [2]) = content published_disk (Path [1] [2])"
    using module_download_fails_closed[OF example_puts ok r] by blast
  then show ?thesis using r by (auto simp: published_disk_def content_def lookup_def)
qed

definition stuck_store :: "mem_store state_ops" where
  "stuck_store = in_memory_state_store\<lparr>ss_clear := (\<lambda>k m. (Err (State []), m))\<rparr>"

lemma stuck_pull:
  "\<exists>M1. pull_with_descriptor (example_module_deps stuck_store (Verdict Anchored)) example_info
     example_store_id example_root (example_start published_disk empty_store) = (Err (Terminal (State [])), M1)
   \<and> content (disk (mp_sink M1)) (Path [1] [2]) = Some [7, 8, 9]"
  by (simp add: pulling module_inputs filing Let_def reader_loop_done reader_loop_turn published_disk_def
      stuck_store_def content_def lookup_def)

text \<open>
  With a store that refuses to clear its checkpoint, the caller is told that the download
  failed although the module has replaced the older file: the exception above is real.
\<close>

theorem module_failure_after_promotion:
  "\<exists>M'. module_download (example_module_deps stuck_store (Verdict Anchored))
       example_store_id example_root (file_sink_new (Path [1] [2]) published_disk) empty_store () = Some (Err (State []), M')
     \<and> content (disk (mp_sink M')) (Path [1] [2]) = Some [7, 8, 9]"
proof -
  obtain M1 where p: "pull_with_descriptor (example_module_deps stuck_store (Verdict Anchored)) example_info
      example_store_id example_root (example_start published_disk empty_store) = (Err (Terminal (State [])), M1)"
    "content (disk (mp_sink M1)) (Path [1] [2]) = Some [7, 8, 9]" using stuck_pull by blast
  have "ss_bad_peers stuck_store k empty_store = (Ok [], empty_store)" for k
    by (simp add: stuck_store_def in_memory_state_store_def mem_bad_peers_def)
  from example_module_run[OF p(1) _ this] show ?thesis using p(2) by simp
qed

text \<open>
  C28: every window the reader of the staged module answers is the very window asked for and
  lies in the module, and every chunk it takes bytes from hashed to the descriptor's hash again
  when it was read; reading changes neither the staged nor the published bytes.
\<close>

theorem staged_reader_exact:
  assumes "puts_in_file H D" and "from_info H info mx = Ok P" and "file_valid s" and "len \<noteq> 0"
    and "staged_read_at D P (mi_chunk_hashes info) off len s = (Ok bs, s')"
  shows "bs = slice (file_staged s) (unat off) (unat len) \<and> length bs = unat len
    \<and> unat off + unat len \<le> unat (mi_total_size info)
    \<and> (\<forall>j. touches P (unat off) (unat off + unat len) j
          \<longrightarrow> chunk_matches (md_hash D) P (mi_chunk_hashes info) (file_staged s) j)
    \<and> file_staged s' = file_staged s \<and> content (disk s') (final_path s) = content (disk s) (final_path s)"
proof -
  have "streaming_hash (md_hash D)" using assms(1) by (simp add: puts_in_file_def)
  note L = file_puller[OF this, where H = H and p = "final_path s"]
  have v: "valid_at (final_path s) s" using assms(3) by (simp add: valid_at_def)
  from module_puller.staged_read_spec[OF L file_wired[OF assms(1)] from_info_OkD(1)[OF assms(2)] v assms(5)] show ?thesis
    using from_info_OkD(2)[OF assms(2)] assms(4) by (auto simp: published_at_def)
qed

definition example_plan :: chunk_plan where
  "example_plan = \<lparr>cp_total_size = 3, cp_chunk_lens = [2, 1], cp_offsets = [0, 2]\<rparr>"

lemma example_from_info: "from_info example_host example_info 536870912 = Ok example_plan"
  by (simp add: from_info_def example_info_def example_host_def checked_add_def max_module_chunk_count_def
      example_plan_def Let_def word_less_nat_alt)

definition staged_disk :: fs where
  "staged_disk = published_disk\<lparr>names := [(Path [1] (2 # lit ''.download.tmp''), 0)],
     inodes := (\<lambda>i. \<lparr>data = [7, 8, 9], mtime = 0\<rparr>)\<rparr>"

lemma example_window:
  "\<exists>s'. staged_read_at (example_module_deps T q) example_plan (mi_chunk_hashes example_info) 1 2
     (file_sink_new (Path [1] [2]) staged_disk) = (Ok [8, 9], s')"
  by (simp add: pulling module_inputs filing Let_def reader_loop_done reader_loop_turn published_disk_def
      staged_disk_def example_plan_def lookup_def)

theorem staged_reader_exact_witness:
  "slice (file_staged (file_sink_new (Path [1] [2]) staged_disk)) 1 2 = [8, 9]
   \<and> chunk_matches (buffering_hash (\<lambda>bs. bs)) example_plan (mi_chunk_hashes example_info)
       (file_staged (file_sink_new (Path [1] [2]) staged_disk)) 1"
proof -
  let ?s = "file_sink_new (Path [1] [2]) staged_disk"
  have ok: "fs_ok staged_disk" by (auto simp: fs_ok_def staged_disk_def published_disk_def lookup_def split: if_splits)
  have t: "touches example_plan (unat (1::u64)) (unat (1::u64) + unat (2::u64)) 1"
    by (simp add: touches_def example_plan_def plan_chunk_count_def start_of_def)
  have h: "md_hash (example_module_deps in_memory_state_store q) = buffering_hash (\<lambda>bs. bs)" for q
    by (simp add: example_module_deps_def)
  obtain s' where "staged_read_at (example_module_deps in_memory_state_store (Verdict Anchored)) example_plan
      (mi_chunk_hashes example_info) 1 2 ?s = (Ok [8, 9], s')" using example_window by blast
  from staged_reader_exact[OF example_puts example_from_info file_sink_new_valid[OF ok] _ this] t h show ?thesis by auto
qed

end
