(* ===== verification/Module_Memory.thy ===== *)
theory Module_Memory
  imports Module_Download
begin

text \<open>
  A whole-module pull into memory, forwards: what a holder that serves the module answers, that
  the in-memory sink takes and gives back every chunk, and that an anchor verifier reading the
  staged module comes to the verdict it comes to on the module itself.
\<close>

section \<open>Honest answers\<close>

definition serves :: "('s, 't, 'h, 'w) module_deps \<Rightarrow> rstring \<Rightarrow> rstring \<Rightarrow> bytes \<Rightarrow> rstring \<Rightarrow> bool" where
  "serves D sid rt bs peer \<longleftrightarrow>
     (\<forall>off len w. unat off + unat len \<le> length bs \<longrightarrow>
        (\<exists>el cs w'. me_module_range (md_env D) peer sid rt off len w = ((el, Ok cs), w')
               \<and> el \<le> md_range_timeout D \<and> take (unat len) cs = slice bs (unat off) (unat len)))"

definition no_collision :: "('s, 't, 'h, 'w) module_deps \<Rightarrow> rstring \<Rightarrow> rstring \<Rightarrow> bytes \<Rightarrow> bool" where
  "no_collision D sid rt bs \<longleftrightarrow>
     (\<forall>peer off len w el cs w'. me_module_range (md_env D) peer sid rt off len w = ((el, Ok cs), w')
        \<longrightarrow> unat off + unat len \<le> length bs
        \<longrightarrow> sha256_hex (md_hash D) (take (unat len) cs) = sha256_hex (md_hash D) (slice bs (unat off) (unat len))
        \<longrightarrow> take (unat len) cs = slice bs (unat off) (unat len))"

text \<open>The verdict a verifier comes to when it reads the module inside its bounds.\<close>

inductive concludes :: "bytes \<Rightarrow> anchor_query \<Rightarrow> module_anchor \<Rightarrow> bool" for bs where
  verdict: "concludes bs (Verdict a) a"
| asked_len: "unat n = length bs \<Longrightarrow> concludes bs (k n) a \<Longrightarrow> concludes bs (AskLen k) a"
| window: "\<lbrakk>len = 0 \<or> unat off + unat len \<le> length bs; concludes bs (k (Ok (slice bs (unat off) (unat len)))) a\<rbrakk>
    \<Longrightarrow> concludes bs (ReadWindow off len k) a"

inductive_cases concludes_VerdictE: "concludes bs (Verdict a) b"
inductive_cases concludes_LenE: "concludes bs (AskLen k) a"
inductive_cases concludes_ReadE: "concludes bs (ReadWindow off len k) a"

abbreviation accepts :: "bytes \<Rightarrow> anchor_query \<Rightarrow> bool" where
  "accepts bs q \<equiv> concludes bs q Anchored"

lemma attribute_chunk_OkD_bytes:
  "attribute_chunk HO len expected bs = Ok cs \<Longrightarrow> vec_ok bs \<Longrightarrow> cs = take (unat len) bs"
  by (auto simp: attribute_chunk_def Let_def len64_eq_iff split: if_splits)

lemma attribute_chunk_own:
  assumes "vec_ok cs" "unat len \<le> length cs"
  shows "attribute_chunk HO len (sha256_hex HO (take (unat len) cs)) cs = Ok (take (unat len) cs)"
proof (cases "len < len64 cs")
  case True
  then show ?thesis using assms by (simp add: attribute_chunk_def Let_def len64_eq_iff)
next
  case False
  then have "length cs = unat len" using assms by (simp add: word_less_nat_alt unat_len64)
  then show ?thesis using assms False by (simp add: attribute_chunk_def Let_def len64_eq_iff)
qed

lemma fetch_chunk_sound:
  assumes "ranges_ok (md_env D)" "no_collision D sid rt bs" "unat off + unat len \<le> length bs"
    and "fetch_chunk_from D peer sid rt off len expected w = (Ok cs, w')"
    and "sha256_hex (md_hash D) cs = sha256_hex (md_hash D) (slice bs (unat off) (unat len))"
  shows "cs = slice bs (unat off) (unat len)"
proof -
  obtain el x w1 where m: "me_module_range (md_env D) peer sid rt off len w = ((el, x), w1)" by (metis surj_pair)
  then obtain xs where x: "x = Ok xs" "attribute_chunk (md_hash D) len expected xs = Ok cs"
    using assms(4) by (auto simp: fetch_chunk_from_def within_def split: option.splits sum.splits if_splits)
  have v: "vec_ok xs" using assms(1) m x(1) unfolding ranges_ok_def by (metis fst_conv)
  show ?thesis
    using assms(2,3,5) m x(1) attribute_chunk_OkD_bytes[OF x(2) v] unfolding no_collision_def by metis
qed

lemma try_holders_sound:
  assumes "ranges_ok (md_env D)" "no_collision D sid rt bs" "unat off + unat len \<le> length bs"
  shows "\<lbrakk>try_holders D sid rt off len expected peers rs w = (Ok cs, w');
      sha256_hex (md_hash D) cs = sha256_hex (md_hash D) (slice bs (unat off) (unat len))\<rbrakk>
    \<Longrightarrow> cs = slice bs (unat off) (unat len)"
proof (induction peers arbitrary: rs w)
  case Nil
  then show ?case by simp
next
  case (Cons q peers)
  obtain x w1 where f: "fetch_chunk_from D q sid rt off len expected w = (x, w1)" by fastforce
  show ?case
  proof (cases x)
    case (Inl e)
    then show ?thesis using Cons f by auto
  next
    case (Inr c)
    then have "c = cs" using Cons.prems(1) f by simp
    then show ?thesis using fetch_chunk_sound[OF assms f[unfolded Inr]] Cons.prems(2) by simp
  qed
qed

lemma fetch_verified_sound:
  assumes "ranges_ok (md_env D)" "no_collision D sid rt bs" "chunk_span P i = (off, len)" "unat off + unat len \<le> length bs"
    and "fetch_verified_chunk D info P i sid rt M = (Ok cs, M')"
    and "sha256_hex (md_hash D) cs = sha256_hex (md_hash D) (slice bs (unat off) (unat len))"
  shows "cs = slice bs (unat off) (unat len)"
  using assms(5,6) try_holders_sound[OF assms(1,2,4)] assms(3)
  by (auto simp: fetch_verified_chunk_def Let_def split: prod.splits sum.splits hex_outcome.splits)

lemma fetch_chunk_honest:
  assumes "ranges_ok (md_env D)" "serves D sid rt bs peer" "vec_ok bs" "unat off + unat len \<le> length bs"
  shows "\<exists>w'. fetch_chunk_from D peer sid rt off len (sha256_hex (md_hash D) (slice bs (unat off) (unat len))) w
    = (Ok (slice bs (unat off) (unat len)), w')"
proof -
  obtain el cs w' where m: "me_module_range (md_env D) peer sid rt off len w = ((el, Ok cs), w')"
    "el \<le> md_range_timeout D" "take (unat len) cs = slice bs (unat off) (unat len)"
    using assms(2,4) unfolding serves_def by blast
  have "vec_ok cs" using assms(1) m(1) unfolding ranges_ok_def by (metis fst_conv)
  moreover have "length (take (unat len) cs) = unat len" unfolding m(3) using assms(4) by simp
  then have "unat len \<le> length cs" by simp
  ultimately show ?thesis using attribute_chunk_own[of cs len "md_hash D"] m by (simp add: fetch_chunk_from_def within_def)
qed

lemma try_holders_honest:
  assumes "ranges_ok (md_env D)" "no_collision D sid rt bs" "serves D sid rt bs peer" "vec_ok bs"
    "unat off + unat len \<le> length bs"
  shows "peer \<in> set peers \<Longrightarrow>
    \<exists>w'. try_holders D sid rt off len (sha256_hex (md_hash D) (slice bs (unat off) (unat len))) peers rs w
      = (Ok (slice bs (unat off) (unat len)), w')"
proof (induction peers arbitrary: rs w)
  case Nil
  then show ?case by simp
next
  case (Cons q peers)
  obtain x w1 where f: "fetch_chunk_from D q sid rt off len (sha256_hex (md_hash D) (slice bs (unat off) (unat len))) w = (x, w1)"
    by fastforce
  show ?case
  proof (cases x)
    case (Inr cs)
    have "ranges_ok (md_env D)" by (rule assms(1))
    from fetch_chunk_OkD[OF this f[unfolded Inr]] have "sha256_hex (md_hash D) cs = sha256_hex (md_hash D) (slice bs (unat off) (unat len))"
      by simp
    then show ?thesis using f Inr fetch_chunk_sound[OF assms(1,2,5) f[unfolded Inr]] by simp
  next
    case (Inl reason)
    then have "q \<noteq> peer" using f fetch_chunk_honest[OF assms(1,3-5), of w] by auto
    then have "peer \<in> set peers" using Cons.prems by simp
    from Cons.IH[OF this] show ?thesis using f Inl by simp
  qed
qed

text \<open>The round-robin order visits every holder.\<close>

lemma set_holder_order: "set (holder_order i ps) = provider_peer_id ` set ps"
proof -
  have "ps ! k \<in> (\<lambda>step. ps ! ((i + step) mod length ps)) ` {0 ..< length ps}" if k: "k < length ps" for k
  proof (rule image_eqI)
    let ?n = "length ps" and ?step = "(k + length ps - i mod length ps) mod length ps"
    have "i mod ?n < ?n" using k by (intro mod_less_divisor) auto
    have "(i + ?step) mod ?n = (i mod ?n + (k + ?n - i mod ?n)) mod ?n" by (simp add: mod_simps)
    also have "\<dots> = k" using \<open>i mod ?n < ?n\<close> k by simp
    finally show "ps ! k = ps ! ((i + ?step) mod ?n)" by simp
    show "?step \<in> {0 ..< ?n}" using k by (auto intro: mod_less_divisor)
  qed
  then have "set ps \<subseteq> (\<lambda>step. ps ! ((i + step) mod length ps)) ` {0 ..< length ps}"
    by (auto simp: in_set_conv_nth)
  moreover have "(\<lambda>step. ps ! ((i + step) mod length ps)) ` {0 ..< length ps} \<subseteq> set ps"
    by (auto intro!: nth_mem mod_less_divisor)
  ultimately show ?thesis by (auto simp: holder_order_def image_image)
qed

lemma fetch_verified_honest:
  assumes "ranges_ok (md_env D)" "no_collision D sid rt bs" "serves D sid rt bs peer" "vec_ok bs"
    and "peer \<in> provider_peer_id ` set (mp_providers M)"
    and "chunk_span P i = (off, len)" "unat off + unat len \<le> length bs"
    and "mi_chunk_hashes info ! i = sha256_hex (md_hash D) (slice bs (unat off) (unat len))"
  shows "\<exists>w'. fetch_verified_chunk D info P i sid rt M = (Ok (slice bs (unat off) (unat len)), M\<lparr>mp_world := w'\<rparr>)"
proof -
  have "peer \<in> set (holder_order i (mp_providers M))" using assms(5) by (simp add: set_holder_order)
  from try_holders_honest[OF assms(1-4,7) this] obtain w' where
    "try_holders D sid rt off len (mi_chunk_hashes info ! i) (holder_order i (mp_providers M)) [] (mp_world M)
      = (Ok (slice bs (unat off) (unat len)), w')" unfolding assms(8) by blast
  then show ?thesis using assms(6) by (auto simp: fetch_verified_chunk_def Let_def)
qed

section \<open>The in-memory sink\<close>

lemma mem_writes:
  assumes "unat off + length bs < 2 ^ 64" "unat off + length bs \<le> usize_max H"
  shows "mem_write_at H off bs m = (Ok (), m\<lparr>buf := place (unat off) bs (buf m)\<rparr>)"
proof -
  have "unat (len64 bs) = length bs" using assms(1) by (simp add: unat_len64)
  then have "read_back_bounds H off (len64 bs) = Ok (unat off, unat off + length bs)"
    using assms by (simp add: read_back_bounds_Ok_iff)
  then show ?thesis by (simp add: mem_write_at_def)
qed

lemma mem_reads:
  assumes "unat off + unat len \<le> length (buf m)" "unat off + unat len < 2 ^ 64" "length (buf m) \<le> usize_max H"
  shows "mem_read_at H off len m = (Ok (slice (buf m) (unat off) (unat len)), m)"
proof -
  have "read_back_bounds H off len = Ok (unat off, unat off + unat len)"
    using assms by (simp add: read_back_bounds_Ok_iff)
  then show ?thesis using assms by (simp add: mem_read_at_def)
qed

lemma slice_prefix: "\<lbrakk>take n xs = ys; off + len \<le> n\<rbrakk> \<Longrightarrow> slice xs off len = slice ys off len"
  by (auto simp: slice_def take_drop min_def)

text \<open>A descriptor that tells the truth about \<open>bs\<close>, and a host with room for it.\<close>

definition true_info :: "host \<Rightarrow> 'h hash_ops \<Rightarrow> u64 \<Rightarrow> bytes \<Rightarrow> module_info \<Rightarrow> chunk_plan \<Rightarrow> bool" where
  "true_info H HO mx bs info P \<longleftrightarrow>
     from_info H info mx = Ok P \<and> attributed HO info bs \<and> length bs \<le> usize_max H"

lemma true_info_chunk:
  assumes t: "true_info H HO mx bs info P" and i: "i < plan_chunk_count P" and s: "chunk_span P i = (off, len)"
  shows "unat off = start_of (cp_chunk_lens P) i" "unat off + unat len = start_of (cp_chunk_lens P) (Suc i)"
    "unat off + unat len \<le> length bs" "mi_chunk_hashes info ! i = sha256_hex HO (slice bs (unat off) (unat len))"
proof -
  have f: "from_info H info mx = Ok P" using t by (simp add: true_info_def)
  note p = from_info_OkD[OF f]
  note sp = plan_span[OF p(1) i, unfolded s fst_conv snd_conv]
  show "unat off = start_of (cp_chunk_lens P) i" "unat off + unat len = start_of (cp_chunk_lens P) (Suc i)" using sp by auto
  show "unat off + unat len \<le> length bs" using sp p(2) t by (simp add: true_info_def attributed_def)
  have "len = mi_chunk_lens info ! i" "i < length (mi_chunk_lens info)"
    using s i p(3) by (auto simp: chunk_span_def plan_chunk_count_def)
  then show "mi_chunk_hashes info ! i = sha256_hex HO (slice bs (unat off) (unat len))"
    using t sp(1) p(3) by (simp add: true_info_def attributed_def)
qed

lemma true_info_vec: "true_info H HO mx bs info P \<Longrightarrow> vec_ok bs"
  using unat_bound[of "mi_total_size info"] by (simp add: true_info_def attributed_def)

text \<open>A pull into memory whose staged module is \<open>bs\<close>, as a descriptor says.\<close>

definition readable :: "(mem_sink, 't, 'h, 'w) module_deps \<Rightarrow> bytes \<Rightarrow> module_info \<Rightarrow> chunk_plan \<Rightarrow> bool" where
  "readable D bs info P \<longleftrightarrow> puts_in_memory (md_host D) D
     \<and> true_info (md_host D) (md_hash D) (md_max_module_size D) bs info P"

lemma readableD:
  assumes "readable D bs info P"
  shows "md_sink D = in_memory_sink (md_host D)" "ranges_ok (md_env D)" "streaming_hash (md_hash D)"
    "true_info (md_host D) (md_hash D) (md_max_module_size D) bs info P" "length bs \<le> usize_max (md_host D)" "vec_ok bs"
    "from_info (md_host D) info (md_max_module_size D) = Ok P" "plan_ok P" "unat (cp_total_size P) = length bs"
    "0 < plan_chunk_count P" "start_of (cp_chunk_lens P) (plan_chunk_count P) = length bs"
    "attributed (md_hash D) info bs" "puts_in_memory (md_host D) D"
proof -
  show t: "true_info (md_host D) (md_hash D) (md_max_module_size D) bs info P" using assms by (simp add: readable_def)
  show f: "from_info (md_host D) info (md_max_module_size D) = Ok P" and "length bs \<le> usize_max (md_host D)"
    and a: "attributed (md_hash D) info bs" using t by (simp_all add: true_info_def)
  note p = from_info_OkD[OF f]
  show "plan_ok P" "0 < plan_chunk_count P" by (rule p(1), rule p(7))
  show n: "unat (cp_total_size P) = length bs" using p(2) a by (simp add: attributed_def)
  show "vec_ok bs" by (rule true_info_vec[OF t])
  show "start_of (cp_chunk_lens P) (plan_chunk_count P) = length bs"
    using p(1) n by (simp add: start_of_full plan_chunk_count_def plan_ok_def)
qed (use assms in \<open>simp_all add: readable_def puts_in_memory_def\<close>)

section \<open>Reading the staged module\<close>

lemma memory_reader_total:
  assumes H: "readable D bs info P" and s: "take (length bs) (buf s) = bs" "length (buf s) \<le> usize_max (md_host D)"
  shows "\<lbrakk>unat off + unat len \<le> length bs; length acc \<le> unat len;
      length acc < unat len \<longrightarrow> start_of (cp_chunk_lens P) idx \<le> unat off + length acc\<rbrakk>
    \<Longrightarrow> \<exists>cs. reader_loop D P (mi_chunk_hashes info) off len idx acc s = (Ok cs, s)"
proof (induction "plan_chunk_count P - idx" arbitrary: idx acc)
  case 0
  note h = readableD[OF H]
  have "start_of (cp_chunk_lens P) idx = length bs"
    using 0(1) h(8,9) by (simp add: start_of_full plan_chunk_count_def plan_ok_def)
  then have "unat len \<le> length acc" using 0 by linarith
  then show ?case by (simp add: reader_loop_done)
next
  case (Suc n)
  note h = readableD[OF H]
  have n_le: "length bs \<le> length (buf s)" using arg_cong[OF s(1), of length] by simp
  from Suc have ix: "idx < plan_chunk_count P" and n: "n = plan_chunk_count P - Suc idx" by auto
  obtain c_off c_len where span: "chunk_span P idx = (c_off, c_len)" by fastforce
  note c = true_info_chunk[OF h(4) ix span]
  show ?case
  proof (cases "unat len \<le> length acc")
    case True
    then show ?thesis by (simp add: reader_loop_done)
  next
    case False
    then have lt: "length acc < unat len" and pos: "start_of (cp_chunk_lens P) idx \<le> unat off + length acc"
      using Suc.prems by auto
    show ?thesis
    proof (cases "c_len = 0")
      case True
      then have "start_of (cp_chunk_lens P) (Suc idx) \<le> unat off + length acc" using c(1,2) pos by simp
      with Suc.hyps(1)[OF n Suc.prems(1,2)] show ?thesis
        using False ix span True by (simp add: reader_loop_turn)
    next
      case nz: False
      let ?chunk = "slice bs (unat c_off) (unat c_len)"
      have "mem_read_at (md_host D) c_off c_len s = (Ok ?chunk, s)"
        using mem_reads[of c_off c_len s "md_host D"] slice_prefix[OF s(1) c(3)] c(3) h(6) s(2) n_le by simp
      moreover have "len64 ?chunk = c_len" using c(3) h(6) by (simp add: len64_eq_iff)
      ultimately have vc: "verified_chunk D P (mi_chunk_hashes info) idx s = (Ok ?chunk, s)"
        using c(4) h(1) span by (simp add: verified_chunk_def in_memory_sink_def)
      have le: "unat len \<le> usize_max (md_host D)" and b64: "unat off + unat len < 2 ^ 64"
        using Suc.prems(1) h(5,6) by linarith+
      then have fit: "try_usize (md_host D) len \<noteq> None" "length ?chunk \<le> usize_max (md_host D)"
        using c(3) h(5) by (auto simp: try_usize_def)
      note cu = reader_cursor[OF lt b64 _ fit, of c_off, unfolded c(1), OF pos]
      let ?start = "case try_usize (md_host D) (off + len64 acc - c_off) of Some n \<Rightarrow> n | None \<Rightarrow> usize_max (md_host D)"
      let ?want = "case try_usize (md_host D) (len - len64 acc) of Some n \<Rightarrow> n | None \<Rightarrow> usize_max (md_host D)"
      let ?n = "min (length ?chunk - ?start) ?want"
      have len: "length (slice ?chunk ?start ?n) = ?n" by simp
      have lc: "length ?chunk = unat c_len" using c(3) by simp
      have "length (acc @ slice ?chunk ?start ?n) \<le> unat len" using cu(1) lt len by simp
      moreover have "length (acc @ slice ?chunk ?start ?n) < unat len
          \<longrightarrow> start_of (cp_chunk_lens P) (Suc idx) \<le> unat off + length (acc @ slice ?chunk ?start ?n)"
        using reader_advance[OF pos cu(2), of "length acc" "unat len"] cu(1) len lc c(1,2) by (simp add: add.assoc)
      ultimately have "\<exists>cs. reader_loop D P (mi_chunk_hashes info) off len (Suc idx) (acc @ slice ?chunk ?start ?n) s = (Ok cs, s)"
        by (rule Suc.hyps(1)[OF n Suc.prems(1)])
      then show ?thesis using False ix span nz vc by (simp add: reader_loop_turn Let_def)
    qed
  qed
qed

lemma memory_window:
  assumes H: "readable D bs info P" and s: "take (length bs) (buf s) = bs" "length (buf s) \<le> usize_max (md_host D)"
    and w: "len = 0 \<or> unat off + unat len \<le> length bs"
  shows "\<exists>cs. staged_read_at D P (mi_chunk_hashes info) off len s = (Ok cs, s)"
proof (cases "len = 0")
  case True
  then show ?thesis by (simp add: staged_read_at_def)
next
  case False
  note h = readableD[OF H]
  have w: "unat off + unat len \<le> length bs" using assms(4) False by simp
  have "reader_start P off < plan_chunk_count P"
    using length_takeWhile_le[of "\<lambda>start. start \<le> off" "cp_offsets P"] h(8,10)
    unfolding reader_start_def plan_ok_def plan_chunk_count_def by linarith
  then have "start_of (cp_chunk_lens P) (reader_start P off) \<le> unat off"
    by (rule memory_module.reader_start_le[OF h(8)])
  then have "\<exists>cs. reader_loop D P (mi_chunk_hashes info) off len (reader_start P off) [] s = (Ok cs, s)"
    by (intro memory_reader_total[OF H s w]) auto
  moreover have "unat off + unat len < 2 ^ 64" "unat len \<le> usize_max (md_host D)" using w h(5,6) by linarith+
  ultimately show ?thesis using False w h(9) by (simp add: staged_read_at_def try_usize_def)
qed

lemma run_anchor_concludes:
  assumes H: "readable D bs info P" and s: "take (length bs) (buf s) = bs" "mem_valid (md_host D) s"
  shows "concludes bs q a \<Longrightarrow> run_anchor D P (mi_chunk_hashes info) q s = (a, s)"
proof (induction q)
  case (Verdict b)
  then show ?case by (auto elim: concludes_VerdictE)
next
  case (AskLen k)
  have "unat (staged_len P) = length bs" using readableD(9)[OF H] by (simp add: staged_len_def)
  moreover obtain n where "unat n = length bs" "concludes bs (k n) a" using AskLen.prems by (auto elim: concludes_LenE)
  ultimately have "concludes bs (k (staged_len P)) a" by (metis word_unat_eq_iff)
  from AskLen.IH[OF rangeI this] show ?case by simp
next
  case (ReadWindow off len k)
  note h = readableD[OF H] and L = memory_puller[OF readableD(3)[OF H], where H = "md_host D"]
  from ReadWindow.prems have w: "len = 0 \<or> unat off + unat len \<le> length bs"
    and k: "concludes bs (k (Ok (slice bs (unat off) (unat len)))) a" by (auto elim: concludes_ReadE)
  have "length (buf s) \<le> usize_max (md_host D)" using s(2) by (simp add: mem_valid_def)
  then obtain cs where r: "staged_read_at D P (mi_chunk_hashes info) off len s = (Ok cs, s)"
    using memory_window[OF H s(1) _ w] by blast
  have "cs = slice (buf s) (unat off) (unat len)"
    using module_puller.staged_read_spec[OF L memory_wired[OF h(13)] h(8) s(2) r] by simp
  also have "\<dots> = slice bs (unat off) (unat len)"
  proof (cases "len = 0")
    case True
    then show ?thesis by (simp add: slice_def)
  next
    case False
    then show ?thesis using w slice_prefix[OF s(1)] by simp
  qed
  finally show ?case using r ReadWindow.IH[OF rangeI k] by simp
qed

end
