(* ===== verification/Module_Honest.thy ===== *)
theory Module_Honest
  imports Module_Memory
begin

text \<open>
  One honest holder suffices: if one of the holders serves the module, the others may refuse,
  stall, lie about chunks or send garbage, and the in-memory download, resumed or not, still
  succeeds and returns the module, provided no holder produces a hash collision.
\<close>

section \<open>What a checkpoint may be worth\<close>

text \<open>A staged chunk that is no collision with the chunk of the module in its place.\<close>

definition sound_at :: "'h hash_ops \<Rightarrow> chunk_plan \<Rightarrow> bytes \<Rightarrow> bytes \<Rightarrow> nat \<Rightarrow> bool" where
  "sound_at HO P bs stg j \<longleftrightarrow>
     (let o1 = start_of (cp_chunk_lens P) j; n = unat (cp_chunk_lens P ! j)
      in o1 + n \<le> length stg \<longrightarrow> sha256_hex HO (slice stg o1 n) = sha256_hex HO (slice bs o1 n)
         \<longrightarrow> slice stg o1 n = slice bs o1 n)"

text \<open>
  A sink and a store a pull can start from. The staged bytes may be anything and the checkpoint may
  claim anything; only, no chunk it claims is a collision.
\<close>

definition resumable ::
    "host \<Rightarrow> 'h hash_ops \<Rightarrow> rstring \<Rightarrow> chunk_plan \<Rightarrow> bytes \<Rightarrow> mem_sink \<Rightarrow> mem_store \<Rightarrow> bool" where
  "resumable H HO key P bs s t \<longleftrightarrow> mem_valid H s
     \<and> (\<forall>st. map_of (ms_inner t) key = Some st \<longrightarrow> st_key st = key
          \<and> (st_chunk_lens st = cp_chunk_lens P
              \<longrightarrow> (\<forall>j \<in> st_done_ranges st. j < plan_chunk_count P \<longrightarrow> sound_at HO P bs (buf s) j)))"

lemma resumable_fresh: "mem_valid H s \<Longrightarrow> map_of (ms_inner t) key = None \<Longrightarrow> resumable H HO key P bs s t"
  by (simp add: resumable_def)

lemma sound_at_write:
  assumes "i < plan_chunk_count P" "j < plan_chunk_count P" "j \<noteq> i" "sound_at HO P bs stg j"
    and "start_of (cp_chunk_lens P) i \<le> length stg" "length c = unat (cp_chunk_lens P ! i)"
  shows "sound_at HO P bs (place (start_of (cp_chunk_lens P) i) c stg) j"
proof -
  let ?S = "start_of (cp_chunk_lens P)" and ?n = "unat (cp_chunk_lens P ! j)"
  have S: "?S (Suc k) = ?S k + unat (cp_chunk_lens P ! k)" if "k < plan_chunk_count P" for k
    using that by (simp add: start_of_Suc plan_chunk_count_def)
  show ?thesis
  proof (cases "?n = 0 \<or> \<not> ?S j + ?n \<le> length (place (?S i) c stg)")
    case True
    then show ?thesis by (auto simp: sound_at_def Let_def slice_def)
  next
    case False
    have apart: "?S j + ?n \<le> ?S i \<or> ?S i + length c \<le> ?S j"
    proof (cases "j < i")
      case True
      then show ?thesis using start_of_mono[of "Suc j" i "cp_chunk_lens P"] S[OF assms(2)] by simp
    next
      case False
      then show ?thesis using start_of_mono[of "Suc i" j "cp_chunk_lens P"] S[OF assms(1)] assms(3,6) by simp
    qed
    then have "?S j + ?n \<le> length stg" using False assms(5) by (auto simp: max_def split: if_splits)
    then show ?thesis using assms(4) apart by (simp add: sound_at_def Let_def slice_place_other)
  qed
qed

lemma memory_read_back:
  assumes "md_sink D = in_memory_sink H" "read_back_verified_chunk D info i off len s = (r, s')"
  shows "s' = s" "r = Some xs \<Longrightarrow> xs = slice (buf s) (unat off) (unat len) \<and> unat off + unat len \<le> length (buf s)
    \<and> sha256_hex (md_hash D) xs = mi_chunk_hashes info ! i"
  using assms by (auto simp: read_back_verified_chunk_def in_memory_sink_def mem_read_at_def read_back_bounds_Ok_iff
      split: sum.splits prod.splits if_splits)

lemma memory_truncates:
  assumes "md_sink D = in_memory_sink H"
  shows "sk_truncate (md_sink D) 0 s = (Ok (), s\<lparr>buf := []\<rparr>)"
  using assms by (cases "buf s") (auto simp: in_memory_sink_def mem_truncate_def try_usize_def)

definition honest ::
    "(mem_sink, mem_store, 'h, 'w) module_deps \<Rightarrow> rstring \<Rightarrow> rstring \<Rightarrow> bytes \<Rightarrow> rstring \<Rightarrow> module_info \<Rightarrow> chunk_plan \<Rightarrow> bool" where
  "honest D sid rt bs peer info P \<longleftrightarrow>
     readable D bs info P \<and> md_store D = in_memory_state_store \<and> serves D sid rt bs peer \<and> no_collision D sid rt bs"

lemma honestD:
  assumes "honest D sid rt bs peer info P"
  shows "readable D bs info P" "md_store D = in_memory_state_store" "serves D sid rt bs peer" "no_collision D sid rt bs"
  using assms by (simp_all add: honest_def)

section \<open>One pull with a true descriptor\<close>

lemma take_place: "n \<le> length xs \<Longrightarrow> take (n + length c) (place n c xs) = take n xs @ c"
  by (simp add: place_def Let_def)

lemma pulls_all_chunks:
  assumes H: "honest D sid rt bs peer info P"
  shows "\<lbrakk>i \<le> plan_chunk_count P; take (start_of (cp_chunk_lens P) i) (buf (mp_sink M)) = take (start_of (cp_chunk_lens P) i) bs;
      mem_valid (md_host D) (mp_sink M); peer \<in> provider_peer_id ` set (mp_providers M);
      \<forall>j \<in> ck. i \<le> j \<and> j < plan_chunk_count P \<longrightarrow> sound_at (md_hash D) P bs (buf (mp_sink M)) j\<rbrakk>
    \<Longrightarrow> \<exists>h' M'. pull_chunks D info P sid rt ck [i ..< plan_chunk_count P] st h any M = (Ok h', M')
      \<and> take (length bs) (buf (mp_sink M')) = bs \<and> mem_valid (md_host D) (mp_sink M')"
proof (induction "plan_chunk_count P - i" arbitrary: i M st h any)
  case 0
  then show ?case using readableD(11)[OF honestD(1)[OF H]] by simp
next
  case (Suc n)
  note h = honestD[OF H] and r = readableD[OF honestD(1)[OF H]]
  let ?S = "start_of (cp_chunk_lens P)" and ?m = "mp_sink M"
  from Suc have i: "i < plan_chunk_count P" and n: "n = plan_chunk_count P - Suc i" by auto
  have rest: "[i ..< plan_chunk_count P] = i # [Suc i ..< plan_chunk_count P]" using i by (simp add: upt_conv_Cons)
  obtain off len where s: "chunk_span P i = (off, len)" by fastforce
  note c = true_info_chunk[OF r(4) i s]
  have len: "len = cp_chunk_lens P ! i" using s by (simp add: chunk_span_def)
  let ?c = "slice bs (unat off) (unat len)"
  have cl: "length ?c = unat len" using c(3) by simp
  have S: "?S i \<le> length (buf ?m)"
    using arg_cong[OF Suc.prems(2), of length] c(1,3) by simp
  obtain x t where b: "(if i \<in> ck then read_back_verified_chunk D info i off len ?m else (None, ?m)) = (x, t)" by fastforce
  have t: "t = ?m" using b memory_read_back(1)[OF r(1)] by (auto split: if_splits)
  show ?case
  proof (cases x)
    case (Some xs)
    then have xs: "i \<in> ck" "xs = slice (buf ?m) (?S i) (unat len)" "?S i + unat len \<le> length (buf ?m)"
      "sha256_hex (md_hash D) xs = sha256_hex (md_hash D) ?c"
      using b memory_read_back(2)[OF r(1), of info i off len ?m] c(1,4) by (auto split: if_splits)
    then have "xs = ?c" using Suc.prems(5) i len c(1) by (auto simp: sound_at_def Let_def)
    then have "take (?S (Suc i)) (buf ?m) = take (?S (Suc i)) bs"
      using Suc.prems(2) xs(2) c(1,2) take_slice_append[of "?S i" bs "unat len"] take_slice_append[of "?S i" "buf ?m" "unat len"] by simp
    from Suc.hyps(1)[OF n _ this] show ?thesis using rest s b t Some i Suc.prems(3-5) by simp
  next
    case None
    obtain w where f: "fetch_verified_chunk D info P i sid rt M = (Ok ?c, M\<lparr>mp_world := w\<rparr>)"
      using fetch_verified_honest[OF r(2) h(4,3) r(6) Suc.prems(4) s c(3,4)] by blast
    have fit: "unat off + length ?c < 2 ^ 64" "unat off + length ?c \<le> usize_max (md_host D)" using c(3) cl r(5,6) by linarith+
    let ?b = "place (?S i) ?c (buf ?m)"
    have "sk_write_at (md_sink D) off ?c ?m = (Ok (), ?m\<lparr>buf := ?b\<rparr>)"
      using mem_writes[OF fit] c(1) by (simp add: r(1) in_memory_sink_def default_sink_def)
    moreover obtain u where "ss_save (md_store D) (mark_done i st) (mp_store M) = (Ok (), u)"
      by (simp add: h(2) in_memory_state_store_def mem_save_def)
    moreover have "take (?S (Suc i)) ?b = take (?S (Suc i)) bs"
      using take_place[OF S, of ?c] Suc.prems(2) cl c(1,2) take_slice_append[of "?S i" bs "unat len"] by simp
    moreover have "mem_valid (md_host D) (?m\<lparr>buf := ?b\<rparr>)" using Suc.prems(3) fit(2) c(1) by (simp add: mem_valid_def)
    moreover have "\<forall>j \<in> ck. Suc i \<le> j \<and> j < plan_chunk_count P \<longrightarrow> sound_at (md_hash D) P bs ?b j"
      using sound_at_write[OF i _ _ _ S, of _ "md_hash D" bs ?c] Suc.prems(5) cl len by auto
    ultimately show ?thesis
      using Suc.hyps(1)[OF n, of "M\<lparr>mp_world := w, mp_sink := ?m\<lparr>buf := ?b\<rparr>, mp_store := u\<rparr>" "mark_done i st"
          "h_update (md_hash D) h ?c" True] rest s f b t None i Suc.prems(4) by simp
  qed
qed

text \<open>Where a pull starts: on the staged bytes of a checkpoint for the same layout, or on an empty staging area.\<close>

lemma stage_module_start:
  assumes D: "md_sink D = in_memory_sink (md_host D)" "md_store D = in_memory_state_store"
    and M: "resumable (md_host D) HO (module_download_key sid rt) P bs (mp_sink M) (mp_store M)"
  obtains st ck skn where
    "stage_module D info P' sid rt M
      = pull_chunks D info P' sid rt ck [0 ..< plan_chunk_count P'] st (h_init (md_hash D)) False (M\<lparr>mp_sink := skn\<rparr>)"
    "st_key st = module_download_key sid rt" "st_chunk_lens st = cp_chunk_lens P'" "st_done_ranges st = {}"
    "mem_valid (md_host D) skn"
    "(\<exists>prev. map_of (ms_inner (mp_store M)) (module_download_key sid rt) = Some prev
         \<and> st_chunk_lens prev = cp_chunk_lens P' \<and> ck = st_done_ranges prev \<and> skn = mp_sink M)
     \<or> ck = {} \<and> buf skn = [] \<and> (\<forall>prev. map_of (ms_inner (mp_store M)) (module_download_key sid rt) = Some prev
         \<longrightarrow> st_chunk_lens prev \<noteq> cp_chunk_lens P')"
proof (cases "\<exists>prev. map_of (ms_inner (mp_store M)) (module_download_key sid rt) = Some prev \<and> st_chunk_lens prev = cp_chunk_lens P'")
  case True
  then obtain prev where p: "map_of (ms_inner (mp_store M)) (module_download_key sid rt) = Some prev"
    "st_chunk_lens prev = cp_chunk_lens P'" by blast
  have "load_or_fresh_state D (module_download_key sid rt) P' M = (Ok (prev, True), M)"
    using p D(2) by (simp add: load_or_fresh_state_def Let_def in_memory_state_store_def mem_load_def)
  then show ?thesis using M p
    by (intro that[where st = "prev\<lparr>st_done_ranges := {}\<rparr>" and ck = "st_done_ranges prev" and skn = "mp_sink M"])
      (auto simp: stage_module_def resumable_def)
next
  case False
  let ?st = "(download_state_new (module_download_key sid rt))\<lparr>st_total_length := cp_total_size P', st_chunk_lens := cp_chunk_lens P'\<rparr>"
  have "load_or_fresh_state D (module_download_key sid rt) P' M = (Ok (?st, False), M)"
    using False D(2) by (auto simp: load_or_fresh_state_def Let_def in_memory_state_store_def mem_load_def split: option.splits)
  then show ?thesis using M False memory_truncates[OF D(1), of "mp_sink M"]
    by (intro that[where st = ?st and ck = "{}" and skn = "(mp_sink M)\<lparr>buf := []\<rparr>"])
      (auto simp: stage_module_def resumable_def mem_valid_def download_state_new_def)
qed

text \<open>The two last gates on a staged module.\<close>

lemma anchor_gate_concludes:
  assumes H: "readable D bs info P" and s: "take (length bs) (buf (mp_sink M)) = bs" "mem_valid (md_host D) (mp_sink M)"
    and q: "concludes bs (fst (me_anchor (md_env D) sid rt (mp_world M))) a"
  shows "\<exists>w. snd (anchor_gate D info P sid rt M) = M\<lparr>mp_world := w\<rparr>
    \<and> (a = Anchored \<longrightarrow> fst (anchor_gate D info P sid rt M) = Ok ())
    \<and> (a = NotAnchored \<longrightarrow> (\<exists>e. fst (anchor_gate D info P sid rt M) = Err (BadDescriptor e)))"
proof -
  obtain k w where k: "me_anchor (md_env D) sid rt (mp_world M) = (k, w)" by fastforce
  have "run_anchor D P (mi_chunk_hashes info) k (mp_sink M) = (a, mp_sink M)"
    using run_anchor_concludes[OF H s] q k by simp
  then show ?thesis using k readableD(1)[OF H]
    by (auto simp: anchor_gate_def in_memory_sink_def false_descriptor_def)
qed

lemma promotes_staged:
  assumes H: "readable D bs info P" and st: "md_store D = in_memory_state_store"
    and s: "take (length bs) (buf (mp_sink M)) = bs" "mem_valid (md_host D) (mp_sink M)"
  shows "\<exists>M'. promote_module D P key M = (Ok (cp_total_size P), M') \<and> mem_artifact (mp_sink M') = Some bs"
proof -
  note h = readableD[OF H]
  have "unat (cp_total_size P) \<le> length (buf (mp_sink M))" using arg_cong[OF s(1), of length] h(9) by simp
  then obtain s' where pv: "promote_verified (in_memory_sink (md_host D)) (cp_total_size P) (mp_sink M) = (Ok (), s')"
    using memory_promotes[OF s(2), of "cp_total_size P"]
    by (cases "promote_verified (in_memory_sink (md_host D)) (cp_total_size P) (mp_sink M)") (auto simp: is_ok_def split: sum.splits)
  then show ?thesis using mem.promote_ok(2)[OF s(2) pv] s(1) h(9)
    by (auto simp: promote_module_def st h(1) in_memory_state_store_def mem_clear_def)
qed

lemma honest_pull:
  assumes H: "honest D sid rt bs peer info P" and q: "\<And>w. accepts bs (fst (me_anchor (md_env D) sid rt w))"
    and M: "resumable (md_host D) (md_hash D) (module_download_key sid rt) P bs (mp_sink M) (mp_store M)"
      "peer \<in> provider_peer_id ` set (mp_providers M)"
  shows "\<exists>M'. pull_with_descriptor D info sid rt M = (Ok (cp_total_size P), M')
    \<and> mem_artifact (mp_sink M') = Some bs"
proof -
  note h = honestD[OF H] and r = readableD[OF honestD(1)[OF H]]
  note L = memory_puller[OF r(3), where H = "md_host D"] and D = memory_wired[OF r(13)]
  obtain st ck skn where s: "stage_module D info P sid rt M
      = pull_chunks D info P sid rt ck [0 ..< plan_chunk_count P] st (h_init (md_hash D)) False (M\<lparr>mp_sink := skn\<rparr>)"
    "mem_valid (md_host D) skn" and start:
    "(\<exists>prev. map_of (ms_inner (mp_store M)) (module_download_key sid rt) = Some prev
         \<and> st_chunk_lens prev = cp_chunk_lens P \<and> ck = st_done_ranges prev \<and> skn = mp_sink M) \<or> ck = {} \<and> buf skn = []"
    by (rule stage_module_start[OF r(1) h(2) M(1), of info P]) blast
  have "\<forall>j \<in> ck. 0 \<le> j \<and> j < plan_chunk_count P \<longrightarrow> sound_at (md_hash D) P bs (buf skn) j"
    using start M(1) by (auto simp: resumable_def)
  then have "\<exists>hh M1. stage_module D info P sid rt M = (Ok hh, M1) \<and> take (length bs) (buf (mp_sink M1)) = bs
      \<and> mem_valid (md_host D) (mp_sink M1)"
    unfolding s(1) by (intro pulls_all_chunks[OF H]) (use s(2) M(2) in auto)
  then obtain hh M1 where p: "stage_module D info P sid rt M = (Ok hh, M1)" "take (length bs) (buf (mp_sink M1)) = bs"
    "mem_valid (md_host D) (mp_sink M1)" by blast
  have "module_puller.intact (mem_valid (md_host D)) mem_artifact None M"
    using M(1) by (simp add: module_puller.intact_def[OF L] resumable_def mem_artifact_def mem_valid_def)
  from module_puller.stage_module_spec[OF L D r(8) this p(1)] obtain bss where b: "hh = absorb (md_hash D) bss" "concat bss = bs"
    using p(2) r(11) by (auto simp: module_puller.absorbed_def[OF L])
  have g: "hash_gate (md_hash D) info hh = Ok ()"
    using streaming_hash.finalize_absorb[OF r(3), of bss] b r(12)
    by (simp add: hash_gate_def Let_def attributed_def sha256_hex_def)
  obtain w where a: "anchor_gate D info P sid rt M1 = (Ok (), M1\<lparr>mp_world := w\<rparr>)"
    using anchor_gate_concludes[OF h(1) p(2,3) q] by (metis prod.collapse)
  obtain M' where "promote_module D P (module_download_key sid rt) (M1\<lparr>mp_world := w\<rparr>) = (Ok (cp_total_size P), M')"
    "mem_artifact (mp_sink M') = Some bs"
    using promotes_staged[OF h(1,2), of "M1\<lparr>mp_world := w\<rparr>"] p(2,3) by auto
  then show ?thesis using p(1) g a r(7) by (simp add: pull_with_descriptor_def)
qed

section \<open>The whole download\<close>

lemma one_honest_holder:
  assumes "honest D sid rt bs peer info P" and "\<And>w. accepts bs (fst (me_anchor (md_env D) sid rt w))"
    and "\<And>c w. fst (me_find_providers (md_env D) c w) = Ok ps" and "peer \<in> provider_peer_id ` set ps"
    and "\<And>p w. p \<in> provider_peer_id ` set ps \<Longrightarrow>
      snd (fst (me_module_info (md_env D) p sid rt w)) = Ok info \<and> fst (fst (me_module_info (md_env D) p sid rt w)) \<le> md_range_timeout D"
    and "length sb = 32" "sid = hex_of sb" "length rb = 32" "rt = hex_of rb"
    and "resumable (md_host D) (md_hash D) (module_download_key sid rt) P bs s t" and "ms_reputation t = []"
  shows "\<exists>M'. module_download D sid rt s t w = Some (Ok (of_nat (length bs)), M') \<and> mem_artifact (mp_sink M') = Some bs"
proof -
  note h = honestD[OF assms(1)] and r = readableD[OF honestD(1)[OF assms(1)]]
  obtain w1 where fp: "me_find_providers (md_env D) (RootContent sb rb) w = (Ok ps, w1)"
    using assms(3)[of "RootContent sb rb" w] by (metis prod.collapse)
  have cid: "module_content_id sid rt = Decoded (RootContent sb rb)"
    using assms(6-9) by (simp add: module_content_id_def hex32_hex_of)
  let ?M = "\<lparr>mp_sink = s, mp_store = t, mp_world = w1, mp_providers = ps\<rparr>"
  obtain p0 ps' where ps: "ps = p0 # ps'" using assms(4) by (cases ps) auto
  obtain el w2 where mi: "me_module_info (md_env D) (provider_peer_id p0) sid rt w1 = ((el, Ok info), w2)" "el \<le> md_range_timeout D"
    using assms(5)[of "provider_peer_id p0" w1] ps by (metis image_eqI list.set_intros(1) prod.collapse)
  then have f: "fetch_module_info D (mp_providers ?M) (excluded (exclusions_new [])) sid rt (mp_world ?M)
      = (Ok (provider_peer_id p0, info), w2)"
    by (simp add: fetch_module_info_def ps within_def excluded_def exclusions_new_def)
  obtain M1 where p: "pull_with_descriptor D info sid rt (?M\<lparr>mp_world := w2\<rparr>) = (Ok (cp_total_size P), M1)"
    "mem_artifact (mp_sink M1) = Some bs"
    using honest_pull[OF assms(1,2), of "?M\<lparr>mp_world := w2\<rparr>"] assms(4,10) by auto
  have "descriptor_loop D sid rt 0 (exclusions_new []) ?M = (Ok (cp_total_size P), M1)"
    using descriptor_loop_first[OF _ f p(1)] ps by (simp add: usable_holders_def exclusions_new_def excluded_def)
  moreover have "remembered_verdicts D key ?M = ([], ?M)" for key
    using assms(11) h(2) by (simp add: remembered_verdicts_def in_memory_state_store_def mem_bad_peers_def)
  ultimately have "module_download D sid rt s t w = Some (Ok (cp_total_size P), M1)"
    using cid fp ps by (simp add: module_download_def Let_def)
  moreover have "of_nat (unat (cp_total_size P)) = cp_total_size P" by simp
  then have "cp_total_size P = of_nat (length bs)" unfolding r(9) by (rule sym)
  ultimately show ?thesis using p(2) by simp
qed

text \<open>
  C7: one honest holder suffices. Let every holder of the directory answer with a
  true descriptor of the module \<open>bs\<close> in time, one of them serve its ranges in time, the others
  answer ranges with anything but a hash collision, and the anchor verifier accept \<open>bs\<close>. Then a
  download into memory, with no bad verdict on record, does not panic and succeeds, and publishes
  exactly \<open>bs\<close>; also when it is resumed, whatever is staged and whatever the checkpoint claims.
\<close>

theorem one_honest_holder_suffices:
  assumes "honest D sid rt bs peer info P" and "\<And>w. accepts bs (fst (me_anchor (md_env D) sid rt w))"
    and "\<And>c w. fst (me_find_providers (md_env D) c w) = Ok ps" and "peer \<in> provider_peer_id ` set ps"
    and "\<And>p w. p \<in> provider_peer_id ` set ps \<Longrightarrow>
      snd (fst (me_module_info (md_env D) p sid rt w)) = Ok info \<and> fst (fst (me_module_info (md_env D) p sid rt w)) \<le> md_range_timeout D"
    and "length sb = 32" "sid = hex_of sb" "length rb = 32" "rt = hex_of rb"
    and "resumable (md_host D) (md_hash D) (module_download_key sid rt) P bs s t" and "ms_reputation t = []"
  shows "\<exists>M'. module_download D sid rt s t w = Some (Ok (of_nat (length bs)), M') \<and> mem_artifact (mp_sink M') = Some bs"
  by (rule one_honest_holder[OF assms])

text \<open>Two holders: one answers every range with garbage, the other serves the module.\<close>

definition lying_provider :: provider_record where
  "lying_provider = example_provider\<lparr>provider_peer_id := [3]\<rparr>"

definition mixed_deps :: "(mem_sink, mem_store, bytes, unit) module_deps" where
  "mixed_deps = \<lparr>md_sink = in_memory_sink example_host, md_store = in_memory_state_store,
     md_hash = buffering_hash (\<lambda>bs. bs),
     md_env = (example_module_env (reading_anchor [8, 9]))
       \<lparr>me_find_providers := (\<lambda>c w. (Ok [lying_provider, example_provider], w)),
        me_module_range := (\<lambda>peer sid rt off len w. ((if peer = [3] then (1, Ok [0, 0]) else serving example_module off len), w))\<rparr>,
     md_range_timeout = fst module_config_default, md_max_module_size = snd module_config_default,
     md_host = example_host\<rparr>"

lemma hex_of_inj: "hex_of a = hex_of b \<longleftrightarrow> a = b"
  by (metis hex_outcome.inject hex_pairs_hex_of)

lemma mixed_honest: "honest mixed_deps sid rt example_module [1] example_info example_plan"
proof -
  have "ranges_ok (md_env mixed_deps)"
    by (auto simp: ranges_ok_def mixed_deps_def serving_def example_module_def slice_def split: if_splits)
  moreover have "true_info example_host (buffering_hash (\<lambda>bs. bs)) 536870912 example_module example_info example_plan"
  proof -
    have "attributed (buffering_hash (\<lambda>bs. bs)) example_info example_module"
      by (auto simp: attributed_def example_info_def example_module_def sha256_hex_def buffering_hash_def slice_def
          start_of_def less_Suc_eq)
    then show ?thesis using example_from_info by (simp add: true_info_def example_module_def example_host_def)
  qed
  moreover have "serves mixed_deps sid rt example_module [1]"
    by (auto simp: serves_def mixed_deps_def serving_def module_config_default_def)
  moreover have "no_collision mixed_deps sid rt example_module"
    by (auto simp: no_collision_def mixed_deps_def sha256_hex_def buffering_hash_def hex_of_inj)
  ultimately show ?thesis using buffering.streaming_hash_axioms
    by (simp add: honest_def readable_def puts_in_memory_def mixed_deps_def module_config_default_def default_max_module_size_def)
qed

theorem one_honest_holder_suffices_witness:
  "\<exists>M'. module_download mixed_deps example_store_id example_root mem_sink_new empty_store () = Some (Ok 3, M')
     \<and> mem_artifact (mp_sink M') = Some [7, 8, 9]"
proof -
  have ids: "length (replicate 32 1) = (32 :: nat)" "example_store_id = hex_of (replicate 32 1)"
    "length (replicate 32 2) = (32 :: nat)" "example_root = hex_of (replicate 32 2)"
    by (simp_all add: example_store_id_def example_root_def)
  have acc: "accepts example_module (fst (me_anchor (md_env mixed_deps) example_store_id example_root w))" for w
    by (auto simp: mixed_deps_def example_module_env_def reading_anchor_def example_module_def slice_def
        intro!: concludes.window concludes.verdict)
  have dir: "fst (me_find_providers (md_env mixed_deps) c w) = Ok [lying_provider, example_provider]" for c w
    by (simp add: mixed_deps_def)
  have mem: "[1] \<in> provider_peer_id ` set [lying_provider, example_provider]"
    by (simp add: example_provider_def)
  have inf: "snd (fst (me_module_info (md_env mixed_deps) p sid rt w)) = Ok example_info
      \<and> fst (fst (me_module_info (md_env mixed_deps) p sid rt w)) \<le> md_range_timeout mixed_deps" for p sid rt w
    by (simp add: mixed_deps_def example_module_env_def module_config_default_def)
  have s: "resumable (md_host mixed_deps) (md_hash mixed_deps) (module_download_key example_store_id example_root)
      example_plan example_module mem_sink_new empty_store"
    by (simp add: resumable_def mem_valid_def mem_sink_new_def)
  from one_honest_holder_suffices[OF mixed_honest acc dir mem inf ids s, where w = "()"]
  show ?thesis by (simp add: example_module_def)
qed

end
