(* ===== verification/Ladder.thy ===== *)
theory Ladder
  imports Prelude
begin

text \<open>
  The connection-order ladder (\<^verbatim>\<open>src/src/read_ladder.rs\<close>): an explicit override wins, then the local
  rungs in order, each probed once, then the public gateway. The literals of \<^verbatim>\<open>dig_constants\<close>, the
  health probe and the HTTP client are parameters.
\<close>

section \<open>The parts\<close>

text \<open>Milliseconds.\<close>

definition default_probe_timeout :: nat where "default_probe_timeout = 600"

datatype resolved_tier = Override | DigLocal | Localhost | PublicGateway

record resolved_node =
  base_url :: rstring
  node_tier :: resolved_tier

record local_rung =
  lr_url :: rstring
  lr_tier :: resolved_tier

datatype transport_mode = Https | Mtls

definition transport_mode_default :: transport_mode where "transport_mode_default = Https"

datatype override_source = FromFlag | FromEnv | FromConfig

record override_inputs =
  oi_flag :: "rstring option"
  oi_env_var :: "rstring option"
  oi_config_value :: "rstring option"

record dig_constants =
  rpc_dig_net :: rstring
  dig_local_host :: rstring

type_synonym 'w health_probe = "rstring \<Rightarrow> nat \<Rightarrow> 'w \<Rightarrow> bool \<times> 'w"

definition overrides_resolve :: "override_inputs \<Rightarrow> (rstring \<times> override_source) option" where
  "overrides_resolve Ov =
     (case oi_flag Ov of
        Some v \<Rightarrow> Some (v, FromFlag)
      | None \<Rightarrow>
          (case oi_env_var Ov of
             Some v \<Rightarrow> Some (v, FromEnv)
           | None \<Rightarrow>
               (case oi_config_value Ov of
                  Some v \<Rightarrow> Some (v, FromConfig)
                | None \<Rightarrow> None)))"

definition override_source_of :: "override_inputs \<Rightarrow> override_source option" where
  "override_source_of Ov = map_option snd (overrides_resolve Ov)"

text \<open>Without the slashes at the end.\<close>

definition trim_end_slashes :: "rstring \<Rightarrow> rstring" where
  "trim_end_slashes url = rev (dropWhile (\<lambda>c. c = 47) (rev url))"

section \<open>Resolution\<close>

fun probe_rungs :: "'w health_probe \<Rightarrow> nat \<Rightarrow> local_rung list \<Rightarrow> 'w \<Rightarrow> resolved_node option \<times> 'w" where
  "probe_rungs probe timeout [] w = (None, w)"
| "probe_rungs probe timeout (r # rs) w =
     (case probe (lr_url r) timeout w of
        (True, w') \<Rightarrow> (Some \<lparr>base_url = trim_end_slashes (lr_url r), node_tier = lr_tier r\<rparr>, w')
      | (False, w') \<Rightarrow> probe_rungs probe timeout rs w')"

definition resolve_node ::
    "dig_constants \<Rightarrow> override_inputs \<Rightarrow> local_rung list \<Rightarrow> 'w health_probe \<Rightarrow> nat \<Rightarrow> 'w \<Rightarrow> resolved_node \<times> 'w" where
  "resolve_node K Ov rungs probe timeout w =
     (case overrides_resolve Ov of
        Some (url, source) \<Rightarrow> (\<lparr>base_url = trim_end_slashes url, node_tier = Override\<rparr>, w)
      | None \<Rightarrow>
          (case probe_rungs probe timeout rungs w of
             (Some node, w') \<Rightarrow> (node, w')
           | (None, w') \<Rightarrow> (\<lparr>base_url = rpc_dig_net K, node_tier = PublicGateway\<rparr>, w')))"

definition local_urls :: "dig_constants \<Rightarrow> 16 word \<Rightarrow> local_rung list" where
  "local_urls K local_port =
     [\<lparr>lr_url = lit ''https://'' @ dig_local_host K, lr_tier = DigLocal\<rparr>,
      \<lparr>lr_url = lit ''http://'' @ dig_local_host K, lr_tier = DigLocal\<rparr>,
      \<lparr>lr_url = lit ''http://localhost:'' @ dec (unat local_port), lr_tier = Localhost\<rparr>]"

text \<open>The cell that holds the first resolution.\<close>

record cached_resolver =
  cached :: "resolved_node option"

definition cached_resolver_new :: cached_resolver where
  "cached_resolver_new = \<lparr>cached = None\<rparr>"

definition get_or_resolve ::
    "dig_constants \<Rightarrow> override_inputs \<Rightarrow> local_rung list \<Rightarrow> 'w health_probe \<Rightarrow> nat \<Rightarrow> cached_resolver \<Rightarrow> 'w
     \<Rightarrow> resolved_node \<times> cached_resolver \<times> 'w" where
  "get_or_resolve K Ov rungs probe timeout R w =
     (case cached R of
        Some node \<Rightarrow> (node, R, w)
      | None \<Rightarrow>
          (case resolve_node K Ov rungs probe timeout w of
             (node, w') \<Rightarrow> (node, R\<lparr>cached := Some node\<rparr>, w')))"

text \<open>The HTTP probe: a successful status in time, from a client that is a parameter.\<close>

definition http_probe :: "(rstring \<Rightarrow> 'w \<Rightarrow> (nat \<times> (rstring + nat)) \<times> 'w) \<Rightarrow> 'w health_probe" where
  "http_probe http_get url timeout w =
     (case http_get (trim_end_slashes url @ lit ''/health'') w of
        ((elapsed, answer), w') \<Rightarrow>
          (elapsed \<le> timeout \<and> (case answer of Inr status \<Rightarrow> 200 \<le> status \<and> status < 300 | Inl e \<Rightarrow> False), w'))"

section \<open>What the ladder promises\<close>

text \<open>A probe with fixed answers that logs the URLs it was asked about.\<close>

definition logging_probe :: "(rstring \<Rightarrow> bool) \<Rightarrow> rstring list health_probe" where
  "logging_probe up url timeout log = (up url, log @ [url])"

lemma probe_rungs_logged:
  "probe_rungs (logging_probe up) timeout rs log =
     (map_option (\<lambda>r. \<lparr>base_url = trim_end_slashes (lr_url r), node_tier = lr_tier r\<rparr>) (find (\<lambda>r. up (lr_url r)) rs),
      log @ takeWhile (\<lambda>u. \<not> up u) (map lr_url rs)
          @ take 1 (dropWhile (\<lambda>u. \<not> up u) (map lr_url rs)))"
  by (induction rs arbitrary: log) (auto simp: logging_probe_def)

lemma trim_end_slashes_last: "trim_end_slashes url = [] \<or> last (trim_end_slashes url) \<noteq> 47"
proof -
  have "dropWhile (\<lambda>c. c = 47) (rev url) = [] \<or> hd (dropWhile (\<lambda>c. c = 47) (rev url)) \<noteq> 47"
    using hd_dropWhile[of "\<lambda>c. c = 47" "rev url"] by blast
  then show ?thesis by (auto simp: trim_end_slashes_def last_rev)
qed

text \<open>
  C40: whatever nodes are up, an override is taken without asking anyone; without one the
  first local rung that is up is taken, the rungs before it and itself having been asked once each
  and in order, nothing after it; when none is up the answer is the public gateway, unasked. A
  cached resolver gives the same answer again without asking anyone.
\<close>

theorem ladder_order:
  "resolve_node K Ov rungs (logging_probe up) timeout [] =
     (case overrides_resolve Ov of
        Some (url, source) \<Rightarrow> (\<lparr>base_url = trim_end_slashes url, node_tier = Override\<rparr>, [])
      | None \<Rightarrow>
          ((case find (\<lambda>r. up (lr_url r)) rungs of
              Some r \<Rightarrow> \<lparr>base_url = trim_end_slashes (lr_url r), node_tier = lr_tier r\<rparr>
            | None \<Rightarrow> \<lparr>base_url = rpc_dig_net K, node_tier = PublicGateway\<rparr>),
           takeWhile (\<lambda>u. \<not> up u) (map lr_url rungs) @ take 1 (dropWhile (\<lambda>u. \<not> up u) (map lr_url rungs))))
   \<and> (case get_or_resolve K Ov rungs probe timeout R w of
        (node, R', w') \<Rightarrow> get_or_resolve K Ov' rungs' probe' timeout' R' v = (node, R', v))"
  by (auto simp: resolve_node_def probe_rungs_logged get_or_resolve_def
      split: option.splits prod.splits)

end
