(* ===== verification/Onion.thy ===== *)
theory Onion
  imports Orchestrator
begin

text \<open>
  Onion mode (\<^verbatim>\<open>src/src/onion.rs\<close>): the admission decision of a hop, the validated hop path and the
  transport that carries every request along it. The layered channel is a parameter.
\<close>

section \<open>Refusals and decisions\<close>

definition max_hop_path :: nat where "max_hop_path = 8"

datatype stream_relay_refusal =
    RelayDisabled
  | AsksOnly
  | UnreadableHopBudget
  | HopBudgetSpent
  | UnreadableLength
  | StreamTooLarge u64 u64
  | RelayByteBudgetSpent u64 u64

fun stream_relay_refusal_display :: "stream_relay_refusal \<Rightarrow> rstring" where
  "stream_relay_refusal_display RelayDisabled = lit ''onion mode is disabled on this node''"
| "stream_relay_refusal_display AsksOnly = lit ''this node relays asks but not streams''"
| "stream_relay_refusal_display UnreadableHopBudget = lit ''the stream'' @ [39] @ lit ''s hop budget could not be read''"
| "stream_relay_refusal_display HopBudgetSpent = lit ''the stream'' @ [39] @ lit ''s hop budget is exhausted''"
| "stream_relay_refusal_display UnreadableLength = lit ''the stream declared no readable length''"
| "stream_relay_refusal_display (StreamTooLarge declared ceiling) =
     lit ''the stream is larger than this node will relay ('' @ dec64 declared @ lit '' > '' @ dec64 ceiling @ lit '' bytes)''"
| "stream_relay_refusal_display (RelayByteBudgetSpent declared available) =
     lit ''the relay byte allowance is spent ('' @ dec64 declared @ lit '' needed, '' @ dec64 available @ lit '' left)''"

datatype stream_relay_decision = Carry u8 u64 | Refuse stream_relay_refusal

record inbound_stream =
  hops_remaining :: "u8 option"
  declared_len :: "u64 option"

record stream_relay_config =
  relay_enabled :: bool
  relays_asks_only :: bool
  max_bytes_per_stream :: u64

definition default_max_bytes_per_stream :: u64 where "default_max_bytes_per_stream = 16 * 1024 * 1024"
definition default_relay_bytes_per_window :: u64 where "default_relay_bytes_per_window = 256 * 1024 * 1024"

definition stream_relay_config_default :: stream_relay_config where
  "stream_relay_config_default =
     \<lparr>relay_enabled = False, relays_asks_only = True, max_bytes_per_stream = default_max_bytes_per_stream\<rparr>"

text \<open>The order of the checks is part of the contract.\<close>

definition decide_relay_stream :: "stream_relay_config \<Rightarrow> inbound_stream \<Rightarrow> u64 \<Rightarrow> stream_relay_decision" where
  "decide_relay_stream cfg inb relay_bytes_available =
     (if \<not> relay_enabled cfg then Refuse RelayDisabled
      else if relays_asks_only cfg then Refuse AsksOnly
      else
        (case hops_remaining inb of
           None \<Rightarrow> Refuse UnreadableHopBudget
         | Some hops \<Rightarrow>
             if hops = 0 then Refuse HopBudgetSpent
             else
               (case declared_len inb of
                  None \<Rightarrow> Refuse UnreadableLength
                | Some declared \<Rightarrow>
                    if max_bytes_per_stream cfg < declared
                    then Refuse (StreamTooLarge declared (max_bytes_per_stream cfg))
                    else if relay_bytes_available < declared
                    then Refuse (RelayByteBudgetSpent declared relay_bytes_available)
                    else Carry (hops - 1) declared)))"

section \<open>Hop paths\<close>

datatype hop_path_error = EmptyPath | DuplicateHop rstring | TooLong nat

fun hop_path_error_display :: "hop_path_error \<Rightarrow> rstring" where
  "hop_path_error_display EmptyPath = lit ''an onion hop path must contain at least one hop''"
| "hop_path_error_display (DuplicateHop hop) = lit ''hop '' @ hop @ lit '' appears more than once in the path''"
| "hop_path_error_display (TooLong n) =
     lit ''an onion hop path may not exceed '' @ dec max_hop_path @ lit '' hops (got '' @ dec n @ lit '')''"

definition hop_path_download_error :: "hop_path_error \<Rightarrow> download_error" where
  "hop_path_download_error e = State (hop_path_error_display e)"

record hop_path =
  hops :: "rstring list"

text \<open>The first hop that repeats an earlier one.\<close>

fun first_repeat :: "rstring list \<Rightarrow> rstring list \<Rightarrow> rstring option" where
  "first_repeat earlier [] = None"
| "first_repeat earlier (hop # rest) = (if hop \<in> set earlier then Some hop else first_repeat (earlier @ [hop]) rest)"

definition hop_path_try_new :: "rstring list \<Rightarrow> hop_path_error + hop_path" where
  "hop_path_try_new hs =
     (if hs = [] then Err EmptyPath
      else if max_hop_path < length hs then Err (TooLong (length hs))
      else (case first_repeat [] hs of Some hop \<Rightarrow> Err (DuplicateHop hop) | None \<Rightarrow> Ok \<lparr>hops = hs\<rparr>))"

section \<open>The transport\<close>

record 'w onion_channel =
  ask_availability_through ::
    "hop_path \<Rightarrow> provider_record \<Rightarrow> availability_item list \<Rightarrow> 'w \<Rightarrow> (download_error + bool list) \<times> 'w"
  fetch_range_through ::
    "hop_path \<Rightarrow> provider_record \<Rightarrow> range_request \<Rightarrow> 'w \<Rightarrow> (download_error + fetched_range) \<times> 'w"

record 'w onion_transport =
  ot_channel :: "'w onion_channel"
  ot_path :: hop_path
  ot_config :: stream_relay_config

definition require_enabled :: "'w onion_transport \<Rightarrow> download_error + unit" where
  "require_enabled T =
     (if relay_enabled (ot_config T) then Ok () else Err (State (stream_relay_refusal_display RelayDisabled)))"

definition onion_query_availability ::
    "'w onion_transport \<Rightarrow> provider_record \<Rightarrow> availability_item list \<Rightarrow> 'w \<Rightarrow> (download_error + bool list) \<times> 'w" where
  "onion_query_availability T provider items w =
     (case require_enabled T of
        Err e \<Rightarrow> (Err e, w)
      | Ok _ \<Rightarrow> ask_availability_through (ot_channel T) (ot_path T) provider items w)"

definition onion_fetch_range ::
    "'w onion_transport \<Rightarrow> provider_record \<Rightarrow> range_request \<Rightarrow> 'w \<Rightarrow> (download_error + fetched_range) \<times> 'w" where
  "onion_fetch_range T provider req w =
     (case require_enabled T of
        Err e \<Rightarrow> (Err e, w)
      | Ok _ \<Rightarrow>
          if max_bytes_per_stream (ot_config T) < rq_length req
          then (Err (State (stream_relay_refusal_display
                  (StreamTooLarge (rq_length req) (max_bytes_per_stream (ot_config T))))), w)
          else fetch_range_through (ot_channel T) (ot_path T) provider req w)"

section \<open>What a hop spends\<close>

lemma first_repeat_None: "first_repeat earlier hs = None \<longleftrightarrow> distinct hs \<and> set earlier \<inter> set hs = {}"
  by (induction hs arbitrary: earlier) auto

lemma decide_carries_iff:
  "decide_relay_stream cfg inb avail = Carry h n \<longleftrightarrow>
     relay_enabled cfg \<and> \<not> relays_asks_only cfg
     \<and> (\<exists>hops. hops_remaining inb = Some hops \<and> hops \<noteq> 0 \<and> h = hops - 1)
     \<and> declared_len inb = Some n \<and> n \<le> max_bytes_per_stream cfg \<and> n \<le> avail"
  by (auto simp: decide_relay_stream_def not_less split: option.splits if_splits)

text \<open>
  One window of a hop: the streams that arrive, and the allowance the caller keeps by taking off
  what it has carried.
\<close>

fun carried_in_window :: "stream_relay_config \<Rightarrow> u64 \<Rightarrow> inbound_stream list \<Rightarrow> u64 list" where
  "carried_in_window cfg avail [] = []"
| "carried_in_window cfg avail (inb # rest) =
     (case decide_relay_stream cfg inb avail of
        Carry h n \<Rightarrow> n # carried_in_window cfg (avail - n) rest
      | Refuse r \<Rightarrow> carried_in_window cfg avail rest)"

text \<open>One stream along a path of hops, each with its own policy and allowance: how many carry it.\<close>

fun hops_travelled :: "(stream_relay_config \<times> u64) list \<Rightarrow> inbound_stream \<Rightarrow> nat" where
  "hops_travelled [] inb = 0"
| "hops_travelled ((cfg, avail) # path) inb =
     (case decide_relay_stream cfg inb avail of
        Carry h n \<Rightarrow> Suc (hops_travelled path (inb\<lparr>hops_remaining := Some h\<rparr>))
      | Refuse r \<Rightarrow> 0)"

lemma carried_sum: "sum_list (map unat (carried_in_window cfg avail inbs)) \<le> unat avail"
proof (induction inbs arbitrary: avail)
  case (Cons inb inbs)
  show ?case
  proof (cases "decide_relay_stream cfg inb avail")
    case (Carry h n)
    then have "n \<le> avail" by (simp add: decide_carries_iff)
    then have "unat (avail - n) = unat avail - unat n" "unat n \<le> unat avail" by (simp_all add: unat_sub word_le_nat_alt)
    then show ?thesis using Cons[of "avail - n"] Carry by simp
  next
    case (Refuse r)
    then show ?thesis using Cons by simp
  qed
qed simp

lemma carried_each: "n \<in> set (carried_in_window cfg avail inbs) \<Longrightarrow> n \<le> max_bytes_per_stream cfg"
  by (induction inbs arbitrary: avail) (auto simp: decide_carries_iff split: stream_relay_decision.splits)

lemma hops_bounded: "hops_travelled path \<lparr>hops_remaining = Some k, declared_len = len\<rparr> \<le> unat k"
proof (induction path arbitrary: k)
  case (Cons p path)
  obtain cfg avail where p: "p = (cfg, avail)" by fastforce
  show ?case
  proof (cases "decide_relay_stream cfg \<lparr>hops_remaining = Some k, declared_len = len\<rparr> avail")
    case (Carry h n)
    then have "k \<noteq> 0" "h = k - 1" by (auto simp: decide_carries_iff)
    then have "Suc (unat h) = unat k" by (simp add: unat_minus_one unat_gt_0 Suc_pred)
    then show ?thesis using Cons[of h] Carry p by simp
  next
    case (Refuse r)
    then show ?thesis using p by simp
  qed
qed simp

section \<open>Properties\<close>

text \<open>
  C34: whatever streams arrive in a window, what a hop carries sums up to no more than the
  allowance it had, no single stream is above its ceiling, and a stream travels at most as many
  hops as its own budget said; a node that is switched off, or relays asks only, carries nothing.
\<close>

theorem relay_spends_within_budget:
  "sum_list (map unat (carried_in_window cfg avail inbs)) \<le> unat avail
   \<and> list_all (\<lambda>n. n \<le> max_bytes_per_stream cfg) (carried_in_window cfg avail inbs)
   \<and> hops_travelled path \<lparr>hops_remaining = Some k, declared_len = len\<rparr> \<le> unat k
   \<and> carried_in_window (cfg\<lparr>relay_enabled := False\<rparr>) avail inbs = []
   \<and> carried_in_window (cfg\<lparr>relays_asks_only := True\<rparr>) avail inbs = []"
proof -
  have off: "carried_in_window (cfg\<lparr>relay_enabled := False\<rparr>) avail inbs = []"
    "carried_in_window (cfg\<lparr>relays_asks_only := True\<rparr>) avail inbs = []"
    by (induction inbs) (simp_all add: decide_relay_stream_def)
  then show ?thesis using carried_sum[of cfg avail inbs] carried_each[of _ cfg avail inbs] hops_bounded[of path k len]
    by (auto simp: list_all_iff)
qed

text \<open>
  A hop path is accepted exactly when it has between one and eight hops, all different;
  and a transport over it reaches the channel exactly when onion mode is on and, for a fetch, the
  length asked for is within the ceiling. Otherwise it fails without touching the channel.
\<close>

theorem onion_fails_closed:
  "(hop_path_try_new hs = Ok \<lparr>hops = hs\<rparr>) = (0 < length hs \<and> length hs \<le> 8 \<and> distinct hs)
   \<and> onion_query_availability T p items w =
       (if relay_enabled (ot_config T) then ask_availability_through (ot_channel T) (ot_path T) p items w
        else (Err (State (lit ''onion mode is disabled on this node'')), w))
   \<and> (if relay_enabled (ot_config T) \<and> rq_length req \<le> max_bytes_per_stream (ot_config T)
      then onion_fetch_range T p req w = fetch_range_through (ot_channel T) (ot_path T) p req w
      else (case onion_fetch_range T p req w of (r, w') \<Rightarrow> \<not> is_ok r \<and> w' = w))"
proof -
  have "(hop_path_try_new hs = Ok \<lparr>hops = hs\<rparr>) = (0 < length hs \<and> length hs \<le> 8 \<and> distinct hs)"
    using first_repeat_None[of "[]" hs]
    by (auto simp: hop_path_try_new_def max_hop_path_def split: option.splits if_splits)
  then show ?thesis
    by (auto simp: onion_query_availability_def onion_fetch_range_def require_enabled_def is_ok_def)
qed

end
