(* ===== verification/Queue.thy ===== *)
theory Queue
  imports Download "HOL-Library.Sublist"
begin

text \<open>
  The handle of a download (\<^verbatim>\<open>DownloadHandle\<close> in \<^verbatim>\<open>src/src/orchestrator.rs\<close>) and the download queue
  (\<^verbatim>\<open>src/src/queue.rs\<close>): the bounded event channel between a running download and its caller, the
  worker that forwards the events of one queued job, and the admission of jobs.

  A bounded channel of \<^verbatim>\<open>tokio\<close> makes the sender wait while it is full and its receiver lives; a
  send to a dropped receiver fails at once. The tasks are step relations, so a wait is the absence
  of a step. What a download emits, in order, is its script.
\<close>

section \<open>Event channels\<close>

record 'e channel =
  slots :: nat
  queued :: "'e list"
  listening :: bool

definition event_channel :: "'e channel" where
  "event_channel = \<lparr>slots = 256, queued = [], listening = True\<rparr>"

text \<open>\<open>None\<close>: the sender waits. Otherwise whether the event was taken.\<close>

definition send :: "'e \<Rightarrow> 'e channel \<Rightarrow> (bool \<times> 'e channel) option" where
  "send e c =
     (if \<not> listening c then Some (False, c)
      else if length (queued c) < slots c then Some (True, c\<lparr>queued := queued c @ [e]\<rparr>)
      else None)"

definition drop_receiver :: "'e channel \<Rightarrow> 'e channel" where
  "drop_receiver c = c\<lparr>queued := [], listening := False\<rparr>"

section \<open>Joining a download\<close>

text \<open>
  \<open>join\<close> takes the handle and waits for the task, and the event receiver in the handle lives until
  it returns. So while it waits nobody reads, and the task goes on until a send has to wait.
\<close>

fun emit_all :: "'e list \<Rightarrow> 'e channel \<Rightarrow> 'e list \<times> 'e channel" where
  "emit_all [] c = ([], c)"
| "emit_all (e # es) c = (case send e c of None \<Rightarrow> (e # es, c) | Some (taken, c') \<Rightarrow> emit_all es c')"

text \<open>The result, or \<open>None\<close> when the task waits for ever.\<close>

definition handle_join_unread :: "'e list \<Rightarrow> 'r \<Rightarrow> 'e channel \<Rightarrow> 'r option" where
  "handle_join_unread script r c = (case emit_all script c of ([], c') \<Rightarrow> Some r | (e # es, c') \<Rightarrow> None)"

definition download_and_join ::
    "nat \<Rightarrow> ('s, 't, 'h, 'w) deps \<Rightarrow> ('s, 't, 'h, 'w) job \<Rightarrow> (download_error + u64) option" where
  "download_and_join fuel D J =
     (case run_job fuel D J of
        None \<Rightarrow> None
      | Some (r, J') \<Rightarrow> handle_join_unread (drop (length (jb_events J)) (jb_events J')) r event_channel)"

lemma emit_all_listening:
  "listening c \<Longrightarrow> emit_all es c =
     (drop (slots c - length (queued c)) es, c\<lparr>queued := queued c @ take (slots c - length (queued c)) es\<rparr>)"
proof (induction es arbitrary: c)
  case Nil
  then show ?case by simp
next
  case (Cons e es)
  show ?case
  proof (cases "length (queued c) < slots c")
    case False
    then show ?thesis using Cons.prems by (simp add: send_def)
  next
    case True
    then obtain k where k: "slots c - length (queued c) = Suc k" by (metis Suc_diff_Suc)
    then have "slots c - Suc (length (queued c)) = k" by simp
    then show ?thesis using Cons.IH[of "c\<lparr>queued := queued c @ [e]\<rparr>"] Cons.prems True k by (simp add: send_def)
  qed
qed

text \<open>
  C22: a download that is joined without its events being read returns exactly when the run
  emits no more than 256 events; a run that emits one more waits for ever in that send.
\<close>

theorem join_returns_iff:
  "download_and_join fuel D J = Some r \<longleftrightarrow>
     (\<exists>J'. run_job fuel D J = Some (r, J') \<and> length (jb_events J') - length (jb_events J) \<le> 256)"
proof -
  have "handle_join_unread es r' event_channel = Some r \<longleftrightarrow> r' = r \<and> length es \<le> 256"
    for es :: "download_event list" and r' :: "download_error + u64"
    by (cases "drop 256 es") (auto simp: handle_join_unread_def emit_all_listening event_channel_def)
  then show ?thesis by (auto simp: download_and_join_def split: option.splits)
qed

section \<open>One queued job\<close>

datatype 'e phase = Forwarding | Sending 'e | Joining | Delivered

text \<open>
  A job on a worker: what its download has still to emit, the channel from the download to the
  worker, the channel from the worker to the caller, and where \<open>run_job\<close> of the queue is.
\<close>

record 'e worker =
  wk_script :: "'e list"
  wk_inner :: "'e channel"
  wk_outer :: "'e channel"
  wk_phase :: "'e phase"

definition job_on_worker :: "'e list \<Rightarrow> 'e channel \<Rightarrow> 'e worker" where
  "job_on_worker script outer =
     \<lparr>wk_script = script, wk_inner = event_channel, wk_outer = outer, wk_phase = Forwarding\<rparr>"

inductive worker_step :: "'e worker \<Rightarrow> 'e worker \<Rightarrow> bool" where
  emits: "\<lbrakk>wk_script W = e # es; send e (wk_inner W) = Some (taken, c)\<rbrakk>
    \<Longrightarrow> worker_step W (W\<lparr>wk_script := es, wk_inner := c\<rparr>)"
| takes: "\<lbrakk>wk_phase W = Forwarding; queued (wk_inner W) = e # q\<rbrakk>
    \<Longrightarrow> worker_step W (W\<lparr>wk_inner := (wk_inner W)\<lparr>queued := q\<rparr>, wk_phase := Sending e\<rparr>)"
| forwards: "\<lbrakk>wk_phase W = Sending e; send e (wk_outer W) = Some (True, c)\<rbrakk>
    \<Longrightarrow> worker_step W (W\<lparr>wk_outer := c, wk_phase := Forwarding\<rparr>)"
| stops: "\<lbrakk>wk_phase W = Sending e; send e (wk_outer W) = Some (False, c)\<rbrakk>
    \<Longrightarrow> worker_step W (W\<lparr>wk_phase := Joining\<rparr>)"
| closes: "\<lbrakk>wk_phase W = Forwarding; wk_script W = []; queued (wk_inner W) = []\<rbrakk>
    \<Longrightarrow> worker_step W (W\<lparr>wk_phase := Joining\<rparr>)"
| delivers: "\<lbrakk>wk_phase W = Joining; wk_script W = []\<rbrakk> \<Longrightarrow> worker_step W (W\<lparr>wk_phase := Delivered\<rparr>)"

text \<open>The caller reads an event, or drops its handle.\<close>

inductive caller_step :: "'e worker \<Rightarrow> 'e list \<Rightarrow> 'e worker \<Rightarrow> bool" where
  reads: "\<lbrakk>listening (wk_outer W); queued (wk_outer W) = e # q\<rbrakk>
    \<Longrightarrow> caller_step W [e] (W\<lparr>wk_outer := (wk_outer W)\<lparr>queued := q\<rparr>\<rparr>)"
| drops: "caller_step W [] (W\<lparr>wk_outer := drop_receiver (wk_outer W)\<rparr>)"

inductive_cases worker_stepE: "worker_step W W'"
inductive_cases caller_stepE: "caller_step W es W'"

text \<open>What can happen to a job, with the events the caller has read.\<close>

inductive job_runs :: "'e worker \<Rightarrow> 'e list \<Rightarrow> 'e worker \<Rightarrow> bool" for W0 where
  start: "job_runs W0 [] W0"
| work: "job_runs W0 got W \<Longrightarrow> worker_step W W' \<Longrightarrow> job_runs W0 got W'"
| call: "job_runs W0 got W \<Longrightarrow> caller_step W es W' \<Longrightarrow> job_runs W0 (got @ es) W'"

fun in_hand :: "'e phase \<Rightarrow> 'e list" where
  "in_hand (Sending e) = [e]"
| "in_hand _ = []"

text \<open>While the caller listens nothing is lost, and nothing overtakes.\<close>

definition in_order :: "'e list \<Rightarrow> 'e list \<Rightarrow> 'e worker \<Rightarrow> bool" where
  "in_order script got W \<longleftrightarrow> listening (wk_inner W)
     \<and> (listening (wk_outer W) \<longrightarrow>
          got @ queued (wk_outer W) @ in_hand (wk_phase W) @ queued (wk_inner W) @ wk_script W = script
          \<and> (wk_phase W \<in> {Joining, Delivered} \<longrightarrow> wk_script W = [] \<and> queued (wk_inner W) = []))"

lemma in_order_step:
  assumes "in_order script got W" "worker_step W W'"
  shows "in_order script got W'"
  using assms(2,1) by cases (auto simp: in_order_def send_def split: if_splits)

lemma in_order_call:
  assumes "in_order script got W" "caller_step W es W'"
  shows "in_order script (got @ es) W'"
  using assms(2,1) by cases (auto simp: in_order_def drop_receiver_def)

lemma job_runs_in_order:
  "job_runs (job_on_worker script event_channel) got W \<Longrightarrow> in_order script got W"
proof (induction rule: job_runs.induct)
  case start
  then show ?case by (simp add: in_order_def job_on_worker_def event_channel_def)
qed (auto intro: in_order_step in_order_call)

section \<open>A caller that does not listen\<close>

text \<open>
  From the first event on, the worker of a job whose handle is gone waits in \<open>join\<close>; what the
  download has still to emit only fits while the inner channel has room.
\<close>

definition unread :: "'e list \<Rightarrow> 'e worker \<Rightarrow> bool" where
  "unread script W \<longleftrightarrow> listening (wk_inner W) \<and> slots (wk_inner W) = 256 \<and> length (queued (wk_inner W)) \<le> 256
     \<and> \<not> listening (wk_outer W)
     \<and> (case wk_phase W of
          Forwarding \<Rightarrow> length (queued (wk_inner W)) + length (wk_script W) = length script
        | Delivered \<Rightarrow> wk_script W = [] \<and> length script \<le> 257
        | _ \<Rightarrow> length (queued (wk_inner W)) + length (wk_script W) + 1 = length script
               \<or> (script = [] \<and> wk_script W = []))"

lemma unread_step:
  assumes "unread script W" "worker_step W W'"
  shows "unread script W'"
  using assms(2,1) by cases (auto simp: unread_def send_def split: if_splits phase.splits)

lemma unread_call:
  assumes "unread script W" "caller_step W es W'"
  shows "unread script W'"
  using assms(2,1) by cases (auto simp: unread_def drop_receiver_def split: phase.splits)

lemma emits_rest:
  "\<lbrakk>job_runs W0 got W; wk_phase W = Joining; listening (wk_inner W); slots (wk_inner W) = 256;
     length (queued (wk_inner W)) + length (wk_script W) \<le> 256\<rbrakk>
   \<Longrightarrow> \<exists>W'. job_runs W0 got W' \<and> wk_phase W' = Joining \<and> wk_script W' = []"
proof (induction "wk_script W" arbitrary: W)
  case Nil
  then show ?case by metis
next
  case (Cons e es)
  let ?c = "(wk_inner W)\<lparr>queued := queued (wk_inner W) @ [e]\<rparr>"
  let ?W = "W\<lparr>wk_script := es, wk_inner := ?c\<rparr>"
  have s: "length (wk_script W) = Suc (length es)" using Cons.hyps(2) by (metis length_Cons)
  have "send e (wk_inner W) = Some (True, ?c)" using Cons.prems s by (simp add: send_def)
  then have "job_runs W0 got ?W"
    using Cons.prems(1) Cons.hyps(2) worker_step.emits[of W e es] job_runs.work by metis
  moreover have "wk_phase ?W = Joining" "listening (wk_inner ?W)" "slots (wk_inner ?W) = 256"
    "length (queued (wk_inner ?W)) + length (wk_script ?W) \<le> 256" using Cons.prems s by simp_all
  ultimately show ?case using Cons.hyps(1)[of ?W] by simp
qed

lemma unread_reaches_join:
  assumes "length es \<le> 256"
  shows "\<exists>W. job_runs (job_on_worker (e # es) (drop_receiver event_channel)) [] W \<and> wk_phase W = Joining
    \<and> wk_script W = es \<and> queued (wk_inner W) = [] \<and> listening (wk_inner W) \<and> slots (wk_inner W) = 256"
proof -
  let ?W0 = "job_on_worker (e # es) (drop_receiver event_channel)"
  let ?W1 = "?W0\<lparr>wk_script := es, wk_inner := event_channel\<lparr>queued := [e]\<rparr>\<rparr>"
  let ?W2 = "?W1\<lparr>wk_inner := event_channel, wk_phase := Sending e\<rparr>"
  let ?W3 = "?W2\<lparr>wk_phase := Joining\<rparr>"
  have s1: "worker_step ?W0 ?W1"
    using worker_step.emits[of ?W0 e es True "event_channel\<lparr>queued := [e]\<rparr>"]
    by (simp add: job_on_worker_def send_def event_channel_def)
  have s2: "worker_step ?W1 ?W2"
    using worker_step.takes[of ?W1 e "[]"] by (simp add: job_on_worker_def event_channel_def)
  have s3: "worker_step ?W2 ?W3"
    using worker_step.stops[of ?W2 e "drop_receiver event_channel"] by (simp add: job_on_worker_def send_def drop_receiver_def)
  have r: "job_runs ?W0 [] ?W3" by (rule job_runs.work[OF job_runs.work[OF job_runs.work[OF job_runs.start s1] s2] s3])
  have p: "wk_phase ?W3 = Joining \<and> wk_script ?W3 = es \<and> queued (wk_inner ?W3) = [] \<and> listening (wk_inner ?W3)
    \<and> slots (wk_inner ?W3) = 256" by (simp add: event_channel_def)
  show ?thesis by (rule exI[of _ ?W3]) (rule conjI[OF r p])
qed

lemma join_delivers: "job_runs W0 got W \<Longrightarrow> wk_phase W = Joining \<Longrightarrow> wk_script W = []
    \<Longrightarrow> job_runs W0 got (W\<lparr>wk_phase := Delivered\<rparr>)"
  by (rule job_runs.work[OF _ worker_step.delivers])

lemma unread_delivers:
  assumes "length script \<le> 257"
  shows "\<exists>W. job_runs (job_on_worker script (drop_receiver event_channel)) [] W \<and> wk_phase W = Delivered"
proof (cases script)
  case Nil
  let ?W0 = "job_on_worker script (drop_receiver event_channel)"
  have "job_runs ?W0 [] (?W0\<lparr>wk_phase := Joining\<rparr>)"
    by (intro job_runs.work[OF job_runs.start] worker_step.closes)
      (simp_all add: Nil job_on_worker_def event_channel_def)
  from join_delivers[OF this] show ?thesis by (auto simp: Nil job_on_worker_def)
next
  case (Cons e es)
  let ?W0 = "job_on_worker script (drop_receiver event_channel)"
  have "length es \<le> 256" using assms Cons by simp
  from unread_reaches_join[OF this, of e] obtain W where W: "job_runs ?W0 [] W" "wk_phase W = Joining" "wk_script W = es"
    "queued (wk_inner W) = []" "listening (wk_inner W)" "slots (wk_inner W) = 256" unfolding Cons by blast
  from emits_rest[OF W(1,2,5,6)] obtain W' where W': "job_runs ?W0 [] W'" "wk_phase W' = Joining" "wk_script W' = []"
    using W(3,4) assms Cons by auto
  from join_delivers[OF W'] show ?thesis by auto
qed

text \<open>
  C21: a queued download whose caller has dropped its handle can be delivered, and so give its
  worker back, exactly when the download emits no more than 257 events. A longer one occupies its
  worker for ever: the worker stops reading its events and then waits for it to end.
\<close>

theorem forgotten_job_delivered_iff:
  "(\<exists>got W. job_runs (job_on_worker script (drop_receiver event_channel)) got W \<and> wk_phase W = Delivered)
   \<longleftrightarrow> length script \<le> 257"
proof
  assume "\<exists>got W. job_runs (job_on_worker script (drop_receiver event_channel)) got W \<and> wk_phase W = Delivered"
  then obtain got W where r: "job_runs (job_on_worker script (drop_receiver event_channel)) got W" "wk_phase W = Delivered"
    by blast
  from r(1) have "unread script W"
  proof (induction rule: job_runs.induct)
    case start
    then show ?case by (simp add: unread_def job_on_worker_def event_channel_def drop_receiver_def)
  qed (auto intro: unread_step unread_call)
  then show "length script \<le> 257" using r(2) by (simp add: unread_def)
next
  assume "length script \<le> 257"
  then show "\<exists>got W. job_runs (job_on_worker script (drop_receiver event_channel)) got W \<and> wk_phase W = Delivered"
    using unread_delivers by blast
qed

text \<open>
  While its caller keeps its handle, the events it has read are the first events of the
  download in the order they were emitted, and once the result is delivered every event has been
  read or is waiting to be.
\<close>

theorem queued_events_in_order:
  assumes "job_runs (job_on_worker script event_channel) got W" and "listening (wk_outer W)"
  shows "prefix got script \<and> (if wk_phase W = Delivered then got @ queued (wk_outer W) = script else True)"
  using job_runs_in_order[OF assms(1)] assms(2) by (auto simp: in_order_def prefix_def)

lemma example_job_runs:
  "\<exists>W. job_runs (job_on_worker [1 :: nat] event_channel) [1] W \<and> listening (wk_outer W) \<and> wk_phase W = Delivered"
proof -
  let ?W0 = "job_on_worker [1 :: nat] event_channel"
  let ?W1 = "?W0\<lparr>wk_script := [], wk_inner := event_channel\<lparr>queued := [1]\<rparr>\<rparr>"
  let ?W2 = "?W1\<lparr>wk_inner := event_channel, wk_phase := Sending 1\<rparr>"
  let ?W3 = "?W2\<lparr>wk_outer := event_channel\<lparr>queued := [1]\<rparr>, wk_phase := Forwarding\<rparr>"
  let ?W4 = "?W3\<lparr>wk_outer := event_channel\<rparr>"
  let ?W5 = "?W4\<lparr>wk_phase := Joining\<rparr>"
  have s1: "worker_step ?W0 ?W1"
    using worker_step.emits[of ?W0 1 "[]" True "event_channel\<lparr>queued := [1]\<rparr>"]
    by (simp add: job_on_worker_def send_def event_channel_def)
  have s2: "worker_step ?W1 ?W2"
    using worker_step.takes[of ?W1 1 "[]"] by (simp add: job_on_worker_def event_channel_def)
  have s3: "worker_step ?W2 ?W3"
    using worker_step.forwards[of ?W2 1 "event_channel\<lparr>queued := [1]\<rparr>"] by (simp add: job_on_worker_def send_def event_channel_def)
  have s4: "caller_step ?W3 [1] ?W4"
    using caller_step.reads[of ?W3 1 "[]"] by (simp add: job_on_worker_def event_channel_def)
  have s5: "worker_step ?W4 ?W5"
    using worker_step.closes[of ?W4] by (simp add: job_on_worker_def event_channel_def)
  have "job_runs ?W0 ([] @ [1]) ?W5"
    by (rule job_runs.work[OF job_runs.call[OF job_runs.work[OF job_runs.work[OF job_runs.work[OF job_runs.start s1] s2] s3] s4] s5])
  from join_delivers[OF this] have "job_runs ?W0 [1] (?W5\<lparr>wk_phase := Delivered\<rparr>)" by (simp add: job_on_worker_def)
  moreover have "listening (wk_outer (?W5\<lparr>wk_phase := Delivered\<rparr>))" by (simp add: event_channel_def)
  ultimately show ?thesis by (intro exI[of _ "?W5\<lparr>wk_phase := Delivered\<rparr>"]) simp
qed

theorem queued_events_in_order_witness:
  "\<exists>W. job_runs (job_on_worker [1 :: nat] event_channel) [1] W \<and> [1] @ queued (wk_outer W) = [1 :: nat]"
  using example_job_runs queued_events_in_order[where script = "[1 :: nat]" and got = "[1]"] by fastforce

section \<open>Admission\<close>

definition default_max_active_downloads :: nat where "default_max_active_downloads = 3"

text \<open>
  The queue: the workers that live, whether it has been dropped, the jobs submitted and not yet
  received, the jobs being run; and, for the statements, every submission and every start in order.
  Dropping the queue drops the sender of its channel: the receivers still get what was sent before,
  and end only when it is used up.
\<close>

record 'j download_queue =
  dq_max_active :: nat
  dq_open :: bool
  dq_workers :: nat
  dq_waiting :: "'j list"
  dq_running :: "'j list"
  dq_submitted :: "'j list"
  dq_started :: "'j list"

definition download_queue_new :: "nat \<Rightarrow> 'j download_queue" where
  "download_queue_new max_active =
     \<lparr>dq_max_active = max max_active 1, dq_open = True, dq_workers = max max_active 1, dq_waiting = [], dq_running = [],
      dq_submitted = [], dq_started = []\<rparr>"

definition with_defaults :: "'j download_queue" where
  "with_defaults = download_queue_new default_max_active_downloads"

definition submit :: "'j \<Rightarrow> 'j download_queue \<Rightarrow> 'j download_queue" where
  "submit j Q = Q\<lparr>dq_waiting := dq_waiting Q @ [j], dq_submitted := dq_submitted Q @ [j]\<rparr>"

text \<open>
  A worker that is free receives the oldest job, and is free again when the job is delivered; it
  ends when there is no job left and none can come.
\<close>

inductive queue_step :: "'j download_queue \<Rightarrow> 'j download_queue \<Rightarrow> bool" where
  submits: "dq_open Q \<Longrightarrow> queue_step Q (submit j Q)"
| drops_queue: "queue_step Q (Q\<lparr>dq_open := False\<rparr>)"
| receives: "\<lbrakk>dq_waiting Q = j # js; length (dq_running Q) < dq_workers Q\<rbrakk>
    \<Longrightarrow> queue_step Q (Q\<lparr>dq_waiting := js, dq_running := dq_running Q @ [j], dq_started := dq_started Q @ [j]\<rparr>)"
| finishes: "j \<in> set (dq_running Q) \<Longrightarrow> queue_step Q (Q\<lparr>dq_running := remove1 j (dq_running Q)\<rparr>)"
| ends: "\<lbrakk>\<not> dq_open Q; dq_waiting Q = []; length (dq_running Q) < dq_workers Q\<rbrakk>
    \<Longrightarrow> queue_step Q (Q\<lparr>dq_workers := dq_workers Q - 1\<rparr>)"

definition queue_reach :: "nat \<Rightarrow> 'j download_queue \<Rightarrow> bool" where
  "queue_reach n Q \<longleftrightarrow> queue_step\<^sup>*\<^sup>* (download_queue_new n) Q"

definition queue_ok :: "nat \<Rightarrow> 'j download_queue \<Rightarrow> bool" where
  "queue_ok n Q \<longleftrightarrow> dq_max_active Q = max n 1 \<and> length (dq_running Q) \<le> dq_workers Q \<and> dq_workers Q \<le> max n 1
     \<and> dq_started Q @ dq_waiting Q = dq_submitted Q
     \<and> (dq_open Q \<or> dq_waiting Q \<noteq> [] \<longrightarrow> dq_workers Q = max n 1)"

lemma queue_ok_step: "queue_ok n Q \<Longrightarrow> queue_step Q Q' \<Longrightarrow> queue_ok n Q'"
  by (auto simp: queue_ok_def submit_def length_remove1 elim!: queue_step.cases)

lemma queue_reach_ok: "queue_reach n Q \<Longrightarrow> queue_ok n Q"
  unfolding queue_reach_def
proof (induction rule: rtranclp_induct)
  case base
  then show ?case by (simp add: queue_ok_def download_queue_new_def)
qed (rule queue_ok_step)

text \<open>Whatever runs can finish, so every job that waits is started in the end.\<close>

lemma running_can_finish:
  "\<exists>Q'. queue_step\<^sup>*\<^sup>* Q Q' \<and> dq_running Q' = [] \<and> dq_waiting Q' = dq_waiting Q \<and> dq_started Q' = dq_started Q
     \<and> dq_workers Q' = dq_workers Q"
proof (induction "dq_running Q" arbitrary: Q)
  case Nil
  then show ?case by (intro exI[of _ Q]) simp
next
  case (Cons j js)
  let ?Q1 = "Q\<lparr>dq_running := js\<rparr>"
  have "queue_step Q (Q\<lparr>dq_running := remove1 j (dq_running Q)\<rparr>)"
    by (rule queue_step.finishes) (simp add: Cons.hyps(2)[symmetric])
  then have s: "queue_step Q ?Q1" by (simp add: Cons.hyps(2)[symmetric])
  obtain Q' where Q': "queue_step\<^sup>*\<^sup>* ?Q1 Q'" "dq_running Q' = []" "dq_waiting Q' = dq_waiting Q"
    "dq_started Q' = dq_started Q" "dq_workers Q' = dq_workers Q"
    using Cons.hyps(1)[of ?Q1] by auto
  show ?case by (rule exI[of _ Q']) (simp add: Q' converse_rtranclp_into_rtranclp[OF s Q'(1)])
qed

lemma waiting_can_start:
  "0 < dq_workers Q \<Longrightarrow> \<exists>Q'. queue_step\<^sup>*\<^sup>* Q Q' \<and> dq_waiting Q' = [] \<and> dq_started Q' = dq_started Q @ dq_waiting Q"
proof (induction "dq_waiting Q" arbitrary: Q)
  case Nil
  then show ?case by (intro exI[of _ Q]) simp
next
  case (Cons j js)
  obtain Q1 where Q1: "queue_step\<^sup>*\<^sup>* Q Q1" "dq_running Q1 = []" "dq_waiting Q1 = dq_waiting Q"
    "dq_started Q1 = dq_started Q" "dq_workers Q1 = dq_workers Q" using running_can_finish by blast
  let ?Q2 = "Q1\<lparr>dq_waiting := js, dq_running := dq_running Q1 @ [j], dq_started := dq_started Q1 @ [j]\<rparr>"
  have s: "queue_step Q1 ?Q2"
    by (rule queue_step.receives) (simp_all add: Q1 Cons.prems Cons.hyps(2)[symmetric])
  obtain Q' where Q': "queue_step\<^sup>*\<^sup>* ?Q2 Q'" "dq_waiting Q' = []" "dq_started Q' = dq_started ?Q2 @ js"
    using Cons.hyps(1)[of ?Q2] Cons.prems Q1(5) by auto
  have "queue_step\<^sup>*\<^sup>* Q Q'" by (rule rtranclp_trans[OF Q1(1) converse_rtranclp_into_rtranclp[OF s Q'(1)]])
  then show ?case by (intro exI[of _ Q']) (simp add: Q' Q1(4) Cons.hyps(2)[symmetric])
qed



end
