(* ===== verification/Pool.thy ===== *)
theory Pool
  imports Orchestrator
begin

text \<open>
  The transport over the network (\<^verbatim>\<open>NatRangeTransport\<close> in \<^verbatim>\<open>src/src/source.rs\<close>): the targets a
  provider is dialled at, the pool of connections by peer id, and the two requests over a pooled
  connection. Dialling, the calls on a connection and the reading of a stream belong to other
  packages and are parameters.
\<close>

section \<open>The parameters\<close>

datatype 'i peer_target = WithAddr 'i "ip_addr \<times> 16 word" rstring | RelayOnly 'i rstring

fun target_peer :: "'i peer_target \<Rightarrow> 'i" where
  "target_peer (WithAddr i s n) = i"
| "target_peer (RelayOnly i n) = i"

text \<open>
  The identity a text names, a dial of a target, the two calls on a connection, the frames and the
  rest of an opened stream, and the machine. An error is given as it is printed.
\<close>

record ('i, 'c, 'r, 'a, 'w) nat_net =
  nn_peer_id :: "rstring \<Rightarrow> 'i option"
  nn_dial :: "'i peer_target \<Rightarrow> 'w \<Rightarrow> (rstring + 'c) \<times> 'w"
  nn_get_availability :: "'c \<Rightarrow> availability_item list \<Rightarrow> 'w \<Rightarrow> (rstring + bool list) \<times> 'w"
  nn_open_range :: "'c \<Rightarrow> range_request \<Rightarrow> 'w \<Rightarrow> (rstring + 'r) \<times> 'w"
  nn_decode :: "'r decoder"
  nn_read :: "nat \<Rightarrow> 'r \<Rightarrow> nat option \<times> 'r"
  nn_assembler :: "'a chunk_lens_assembler"
  nn_ips :: ip_ops
  nn_host :: host
  nn_debug :: "rstring \<Rightarrow> rstring"

section \<open>Dialling\<close>

record 'c nat_transport =
  nt_network_id :: rstring
  nt_pool :: "rstring \<Rightarrow> 'c option"

definition nat_transport_new :: "rstring \<Rightarrow> 'c nat_transport" where
  "nat_transport_new network_id = \<lparr>nt_network_id = network_id, nt_pool = Map.empty\<rparr>"

text \<open>A candidate that is no address is skipped.\<close>

definition candidate_targets :: "ip_ops \<Rightarrow> rstring \<Rightarrow> 'i \<Rightarrow> candidate_addr list \<Rightarrow> (rstring \<times> 'i peer_target) list" where
  "candidate_targets I network i as =
     List.map_filter (\<lambda>a. case candidate_socket I a of
       Ok s \<Rightarrow> Some (show_socket I s, WithAddr i s network)
     | Err e \<Rightarrow> None) as"

definition provider_dial_targets ::
    "('i, 'c, 'r, 'a, 'w) nat_net \<Rightarrow> 'c nat_transport \<Rightarrow> provider_record
     \<Rightarrow> download_error + (rstring \<times> 'i peer_target) list" where
  "provider_dial_targets N T p =
     (case nn_peer_id N (provider_peer_id p) of
        None \<Rightarrow> Err (Transport (provider_peer_id p) (lit ''malformed provider peer_id''))
      | Some i \<Rightarrow>
          Ok (candidate_targets (nn_ips N) (nt_network_id T) i (dial_candidates (nn_ips N) p)
              @ [(lit ''relay-only'', RelayOnly i (nt_network_id T))]))"

definition provider_to_target ::
    "('i, 'c, 'r, 'a, 'w) nat_net \<Rightarrow> 'c nat_transport \<Rightarrow> provider_record \<Rightarrow> download_error + 'i peer_target" where
  "provider_to_target N T p = and_then (provider_dial_targets N T p) (\<lambda>ts. Ok (snd (hd ts)))"

fun try_targets ::
    "('i peer_target \<Rightarrow> 'w \<Rightarrow> (rstring + 'c) \<times> 'w) \<Rightarrow> (rstring \<times> 'i peer_target) list \<Rightarrow> rstring option \<Rightarrow> 'w
     \<Rightarrow> (rstring option + 'c) \<times> 'w" where
  "try_targets dial [] last_error w = (Err last_error, w)"
| "try_targets dial ((addr, target) # ts) last_error w =
     (case dial target w of
        (Ok peer, w') \<Rightarrow> (Ok peer, w')
      | (Err e, w') \<Rightarrow> try_targets dial ts (Some (lit ''dial '' @ addr @ lit '': '' @ e)) w')"

definition connect ::
    "('i, 'c, 'r, 'a, 'w) nat_net \<Rightarrow> 'c nat_transport \<Rightarrow> provider_record \<Rightarrow> 'w \<Rightarrow> (download_error + 'c) \<times> 'w" where
  "connect N T p w =
     (case provider_dial_targets N T p of
        Err e \<Rightarrow> (Err e, w)
      | Ok ts \<Rightarrow>
          (case try_targets (nn_dial N) ts None w of
             (Ok peer, w') \<Rightarrow> (Ok peer, w')
           | (Err last_error, w') \<Rightarrow>
               (Err (Transport (provider_peer_id p)
                  (case last_error of Some e \<Rightarrow> e | None \<Rightarrow> lit ''no dialable candidate address'')), w')))"

section \<open>The pool\<close>

definition or_insert :: "rstring \<Rightarrow> 'c \<Rightarrow> 'c nat_transport \<Rightarrow> 'c \<times> 'c nat_transport" where
  "or_insert key dialled T =
     (case nt_pool T key of
        Some conn \<Rightarrow> (conn, T)
      | None \<Rightarrow> (dialled, T\<lparr>nt_pool := (nt_pool T)(key \<mapsto> dialled)\<rparr>))"

definition pooled_conn ::
    "('i, 'c, 'r, 'a, 'w) nat_net \<Rightarrow> 'c nat_transport \<Rightarrow> provider_record \<Rightarrow> 'w
     \<Rightarrow> (download_error + 'c) \<times> 'c nat_transport \<times> 'w" where
  "pooled_conn N T p w =
     (case nt_pool T (provider_peer_id p) of
        Some conn \<Rightarrow> (Ok conn, T, w)
      | None \<Rightarrow>
          (case connect N T p w of
             (Err e, w') \<Rightarrow> (Err e, T, w')
           | (Ok dialled, w') \<Rightarrow>
               (case or_insert (provider_peer_id p) dialled T of (conn, T') \<Rightarrow> (Ok conn, T', w'))))"

definition evict :: "provider_record \<Rightarrow> 'c nat_transport \<Rightarrow> 'c nat_transport" where
  "evict p T = T\<lparr>nt_pool := (nt_pool T)(provider_peer_id p := None)\<rparr>"

section \<open>Requests\<close>

definition nat_query_availability ::
    "('i, 'c, 'r, 'a, 'w) nat_net \<Rightarrow> 'c nat_transport \<Rightarrow> provider_record \<Rightarrow> availability_item list \<Rightarrow> 'w
     \<Rightarrow> (download_error + bool list) \<times> 'c nat_transport \<times> 'w" where
  "nat_query_availability N T p items w =
     (case pooled_conn N T p w of
        (Err e, T1, w1) \<Rightarrow> (Err e, T1, w1)
      | (Ok conn, T1, w1) \<Rightarrow>
          (case nn_get_availability N conn items w1 of
             (Ok resp, w2) \<Rightarrow> (Ok resp, T1, w2)
           | (Err e, w2) \<Rightarrow> (Err (Transport (provider_peer_id p) e), evict p T1, w2)))"

text \<open>\<open>None\<close>: the fuel of the reassembly did not suffice.\<close>

definition nat_fetch_range ::
    "nat \<Rightarrow> ('i, 'c, 'r, 'a, 'w) nat_net \<Rightarrow> 'c nat_transport \<Rightarrow> provider_record \<Rightarrow> range_request \<Rightarrow> 'w
     \<Rightarrow> ((download_error + fetched_range) \<times> 'c nat_transport \<times> 'w) option" where
  "nat_fetch_range fuel N T p req w =
     (case pooled_conn N T p w of
        (Err e, T1, w1) \<Rightarrow> Some (Err e, T1, w1)
      | (Ok conn, T1, w1) \<Rightarrow>
          (case nn_open_range N conn req w1 of
             (Err e, w2) \<Rightarrow> Some (Err (Transport (provider_peer_id p) e), evict p T1, w2)
           | (Ok stream, w2) \<Rightarrow>
               (case assemble_range_stream fuel (nn_host N) (nn_debug N) (nn_assembler N) (nn_decode N) (rq_length req) stream of
                  None \<Rightarrow> None
                | Some (Err e, rest) \<Rightarrow> Some (Err (attributed_to e (provider_peer_id p)), T1, w2)
                | Some (Ok (bs, meta), rest) \<Rightarrow>
                    (case drain_trailer_bounded (nn_host N) (nn_read N) max_trailer_drain rest of
                       (drained, rest') \<Rightarrow>
                         Some (Ok \<lparr>request_offset = rq_offset req, fetched_bytes = bs, fetched_meta = meta\<rparr>, T1, w2)))))"

section \<open>Dial order\<close>

text \<open>A dial with fixed answers that logs its targets.\<close>

definition logging_dial ::
    "('i peer_target \<Rightarrow> rstring + 'c) \<Rightarrow> 'i peer_target \<Rightarrow> 'i peer_target list \<Rightarrow> (rstring + 'c) \<times> 'i peer_target list" where
  "logging_dial answers t log = (answers t, log @ [t])"

fun target_rank :: "'i peer_target \<Rightarrow> nat" where
  "target_rank (WithAddr i s n) = (case fst s of V6 gs \<Rightarrow> 0 | V4 bs \<Rightarrow> 1)"
| "target_rank (RelayOnly i n) = 2"

lemma try_targets_logged:
  "try_targets (logging_dial answers) ts le log = (r, log') \<Longrightarrow>
     \<exists>ys zs. map snd ts = ys @ zs \<and> log' = log @ ys
       \<and> (case r of
            Ok c \<Rightarrow> \<exists>bs t. ys = bs @ [t] \<and> answers t = Ok c \<and> list_all (\<lambda>b. \<not> is_ok (answers b)) bs
          | Err e \<Rightarrow> zs = [] \<and> list_all (\<lambda>b. \<not> is_ok (answers b)) ys)"
proof (induction ts arbitrary: le log)
  case Nil
  then show ?case by auto
next
  case (Cons x ts)
  obtain addr t where x: "x = (addr, t)" by fastforce
  have ld: "logging_dial answers t log = (answers t, log @ [t])" by (rule logging_dial_def)
  show ?case
  proof (cases "answers t")
    case (Inl e)
    from Cons.prems obtain le' where "try_targets (logging_dial answers) ts le' (log @ [t]) = (r, log')"
      by (auto simp: x ld Inl)
    from Cons.IH[OF this] obtain ys zs where yz: "map snd ts = ys @ zs" "log' = (log @ [t]) @ ys"
      "case r of Ok c \<Rightarrow> \<exists>bs t. ys = bs @ [t] \<and> answers t = Ok c \<and> list_all (\<lambda>b. \<not> is_ok (answers b)) bs
          | Err e \<Rightarrow> zs = [] \<and> list_all (\<lambda>b. \<not> is_ok (answers b)) ys" by blast
    have "case r of Ok c \<Rightarrow> \<exists>bs u. t # ys = bs @ [u] \<and> answers u = Ok c \<and> list_all (\<lambda>b. \<not> is_ok (answers b)) bs
          | Err e \<Rightarrow> zs = [] \<and> list_all (\<lambda>b. \<not> is_ok (answers b)) (t # ys)"
    proof (cases r)
      case (Inr c)
      then obtain bs u where "ys = bs @ [u]" "answers u = Ok c" "list_all (\<lambda>b. \<not> is_ok (answers b)) bs" using yz(3) by auto
      then have "t # ys = (t # bs) @ [u]" "list_all (\<lambda>b. \<not> is_ok (answers b)) (t # bs)" by (simp_all add: Inl)
      then show ?thesis using Inr \<open>answers u = Ok c\<close> by auto
    qed (use yz(3) Inl in simp)
    then show ?thesis using yz(1,2) by (intro exI[of _ "t # ys"] exI[of _ zs]) (simp add: x)
  next
    case (Inr c)
    then show ?thesis using Cons.prems by (intro exI[of _ "[t]"] exI[of _ "map snd ts"]) (auto simp: x ld)
  qed
qed

lemma candidate_targets_sorted:
  assumes "sorted (map (dial_rank I) as)"
  shows "sorted (map target_rank (map snd (candidate_targets I n i as)))"
proof -
  let ?f = "\<lambda>a. case candidate_socket I a of Ok s \<Rightarrow> Some (show_socket I s, WithAddr i s n) | Err e \<Rightarrow> None"
  have "target_rank (snd (the (?f a))) = dial_rank I a" if "?f a \<noteq> None" for a
    using that by (auto simp: dial_rank_def split: sum.splits ip_addr.splits)
  then have "map target_rank (map snd (candidate_targets I n i as)) = map (dial_rank I) (filter (\<lambda>a. ?f a \<noteq> None) as)"
    by (auto simp: candidate_targets_def List.map_filter_def)
  then show ?thesis using sorted_filter[OF assms] by (simp del: map_map)
qed

lemma candidate_targets_each:
  "t \<in> set (candidate_targets I n i as) \<Longrightarrow> target_peer (snd t) = i \<and> target_rank (snd t) < 2"
  by (auto simp: candidate_targets_def List.map_filter_def split: sum.splits ip_addr.splits)

lemma candidate_targets_length: "length (candidate_targets I n i as) \<le> length as"
  by (simp add: candidate_targets_def List.map_filter_def)

lemma dial_targets_ordered:
  assumes "provider_dial_targets N T p = Ok ts"
  shows "sorted (map target_rank (map snd ts))" "length ts \<le> 5"
    "t \<in> set ts \<Longrightarrow> nn_peer_id N (provider_peer_id p) = Some (target_peer (snd t))"
    "\<exists>i. last (map snd ts) = RelayOnly i (nt_network_id T)" "ts \<noteq> []"
proof -
  obtain i where i: "nn_peer_id N (provider_peer_id p) = Some i"
    and ts: "ts = candidate_targets (nn_ips N) (nt_network_id T) i (dial_candidates (nn_ips N) p) @ [(lit ''relay-only'', RelayOnly i (nt_network_id T))]"
    using assms by (auto simp: provider_dial_targets_def split: option.splits)
  have s: "sorted (map (dial_rank (nn_ips N)) (dial_candidates (nn_ips N) p))"
    unfolding dial_candidates_def take_map[symmetric] by (rule sorted_wrt_take) simp
  have le: "length (dial_candidates (nn_ips N) p) \<le> 4" by (simp add: dial_candidates_def max_dial_candidates_def)
  have two: "\<forall>x\<in>set (candidate_targets (nn_ips N) (nt_network_id T) i (dial_candidates (nn_ips N) p)). target_rank (snd x) \<le> 2"
    by (intro ballI less_imp_le candidate_targets_each[THEN conjunct2])
  show "sorted (map target_rank (map snd ts))"
    unfolding ts map_append list.map sorted_append
    using candidate_targets_sorted[OF s, of "nt_network_id T" i] two by (simp del: map_map)
  show "length ts \<le> 5" using candidate_targets_length[of "nn_ips N" "nt_network_id T" i "dial_candidates (nn_ips N) p"] le
    unfolding ts by simp
  show "nn_peer_id N (provider_peer_id p) = Some (target_peer (snd t))" if "t \<in> set ts"
    using that candidate_targets_each[of t] by (auto simp: ts i)
  show "\<exists>i. last (map snd ts) = RelayOnly i (nt_network_id T)" "ts \<noteq> []" by (simp_all add: ts)
qed

text \<open>
  C33: a provider is dialled at most five times and only at targets pinned to the identity
  it announced, IPv6 before IPv4 before the relay, each once; the first that answers is used and
  nothing is dialled after it, and only when the relay too has failed does the connection fail.
\<close>

theorem connect_order:
  "case connect (N\<lparr>nn_dial := logging_dial answers\<rparr>) T p [] of (r, log) \<Rightarrow>
     length log \<le> 5 \<and> sorted (map target_rank log)
     \<and> list_all (\<lambda>t. nn_peer_id N (provider_peer_id p) = Some (target_peer t)) log
     \<and> (case r of
          Ok c \<Rightarrow> answers (last log) = Ok c \<and> log \<noteq> [] \<and> list_all (\<lambda>t. \<not> is_ok (answers t)) (butlast log)
        | Err e \<Rightarrow> list_all (\<lambda>t. \<not> is_ok (answers t)) log
            \<and> (if nn_peer_id N (provider_peer_id p) = None then log = []
               else \<exists>i. last log = RelayOnly i (nt_network_id T) \<and> log \<noteq> []))"
proof -
  let ?N = "N\<lparr>nn_dial := logging_dial answers\<rparr>"
  have eq: "provider_dial_targets ?N T p = provider_dial_targets N T p" by (simp add: provider_dial_targets_def split: option.split)
  show ?thesis
  proof (cases "provider_dial_targets N T p")
    case (Inl e)
    then have "nn_peer_id N (provider_peer_id p) = None" by (auto simp: provider_dial_targets_def split: option.splits)
    then show ?thesis by (simp add: connect_def eq Inl)
  next
    case (Inr ts)
    note ord = dial_targets_ordered[OF Inr]
    obtain r log where t: "try_targets (logging_dial answers) ts None [] = (r, log)" by fastforce
    from try_targets_logged[OF t] obtain zs where yz: "map snd ts = log @ zs"
      "case r of Ok c \<Rightarrow> \<exists>bs t. log = bs @ [t] \<and> answers t = Ok c \<and> list_all (\<lambda>b. \<not> is_ok (answers b)) bs
          | Err e \<Rightarrow> zs = [] \<and> list_all (\<lambda>b. \<not> is_ok (answers b)) log" by auto
    have len: "length log \<le> 5" using ord(2) arg_cong[OF yz(1), of length] by simp
    have srt: "sorted (map target_rank log)" using ord(1) unfolding yz(1) by (simp add: sorted_append)
    have pin: "list_all (\<lambda>t. nn_peer_id N (provider_peer_id p) = Some (target_peer t)) log"
      unfolding list_all_iff
    proof
      fix t assume "t \<in> set log"
      then have "t \<in> snd ` set ts" unfolding set_map[symmetric] yz(1) by simp
      then show "nn_peer_id N (provider_peer_id p) = Some (target_peer t)" using ord(3) by auto
    qed
    have ne: "nn_peer_id N (provider_peer_id p) \<noteq> None" using Inr by (auto simp: provider_dial_targets_def split: option.splits)
    show ?thesis
    proof (cases r)
      case (Inl e)
      then have "map snd ts = log" using yz by simp
      then show ?thesis using ord(4,5) ne len srt pin yz(2) Inl t by (auto simp: connect_def eq Inr)
    next
      case (Inr c)
      then show ?thesis using len srt pin yz(2) t \<open>provider_dial_targets N T p = Ok ts\<close> by (auto simp: connect_def eq)
    qed
  qed
qed

section \<open>Concurrent requests\<close>

text \<open>
  Where a request is: it has found no connection, it has dialled one and waits for the pool, it has
  one to use, or it has returned. The network's own state changes in the steps that call it. Kept
  for the statements: the connections requests were given, and the keys evicted.
\<close>

datatype 'c request_at = Missed | Dialled 'c | Holding 'c | Returned

record ('c, 'w) pool_state =
  ps_transport :: "'c nat_transport"
  ps_net :: 'w
  ps_requests :: "nat \<Rightarrow> (provider_record \<times> 'c request_at) option"
  ps_given :: "(rstring \<times> 'c) list"
  ps_evicted :: "rstring list"

definition request_goes :: "nat \<Rightarrow> provider_record \<Rightarrow> 'c request_at \<Rightarrow> ('c, 'w) pool_state \<Rightarrow> ('c, 'w) pool_state" where
  "request_goes t p at S = S\<lparr>ps_requests := (ps_requests S)(t \<mapsto> (p, at))\<rparr>"

inductive pool_step ::
    "('i, 'c, 'r, 'a, 'w) nat_net \<Rightarrow> ('c, 'w) pool_state \<Rightarrow> ('c, 'w) pool_state \<Rightarrow> bool" for N where
  finds: "\<lbrakk>ps_requests S t = None; nt_pool (ps_transport S) (provider_peer_id p) = Some conn\<rbrakk>
    \<Longrightarrow> pool_step N S (request_goes t p (Holding conn) (S\<lparr>ps_given := ps_given S @ [(provider_peer_id p, conn)]\<rparr>))"
| misses: "\<lbrakk>ps_requests S t = None; nt_pool (ps_transport S) (provider_peer_id p) = None\<rbrakk>
    \<Longrightarrow> pool_step N S (request_goes t p Missed S)"
| dials: "\<lbrakk>ps_requests S t = Some (p, Missed); connect N (ps_transport S) p (ps_net S) = (Ok conn, w)\<rbrakk>
    \<Longrightarrow> pool_step N S (request_goes t p (Dialled conn) (S\<lparr>ps_net := w\<rparr>))"
| dial_fails: "\<lbrakk>ps_requests S t = Some (p, Missed); connect N (ps_transport S) p (ps_net S) = (Err e, w)\<rbrakk>
    \<Longrightarrow> pool_step N S (request_goes t p Returned (S\<lparr>ps_net := w\<rparr>))"
| inserts: "\<lbrakk>ps_requests S t = Some (p, Dialled own); or_insert (provider_peer_id p) own (ps_transport S) = (conn, T)\<rbrakk>
    \<Longrightarrow> pool_step N S (request_goes t p (Holding conn)
          (S\<lparr>ps_transport := T, ps_given := ps_given S @ [(provider_peer_id p, conn)]\<rparr>))"
| asks: "\<lbrakk>ps_requests S t = Some (p, Holding conn); nn_get_availability N conn items (ps_net S) = (Ok resp, w)\<rbrakk>
    \<Longrightarrow> pool_step N S (request_goes t p Returned (S\<lparr>ps_net := w\<rparr>))"
| ask_fails: "\<lbrakk>ps_requests S t = Some (p, Holding conn); nn_get_availability N conn items (ps_net S) = (Err e, w)\<rbrakk>
    \<Longrightarrow> pool_step N S (request_goes t p Returned
          (S\<lparr>ps_net := w, ps_transport := evict p (ps_transport S), ps_evicted := provider_peer_id p # ps_evicted S\<rparr>))"
| opens: "\<lbrakk>ps_requests S t = Some (p, Holding conn); nn_open_range N conn req (ps_net S) = (Ok stream, w)\<rbrakk>
    \<Longrightarrow> pool_step N S (request_goes t p Returned (S\<lparr>ps_net := w\<rparr>))"
| open_fails: "\<lbrakk>ps_requests S t = Some (p, Holding conn); nn_open_range N conn req (ps_net S) = (Err e, w)\<rbrakk>
    \<Longrightarrow> pool_step N S (request_goes t p Returned
          (S\<lparr>ps_net := w, ps_transport := evict p (ps_transport S), ps_evicted := provider_peer_id p # ps_evicted S\<rparr>))"

inductive_cases pool_stepE: "pool_step N S S'"

definition pool_start :: "rstring \<Rightarrow> 'w \<Rightarrow> ('c, 'w) pool_state" where
  "pool_start network w =
     \<lparr>ps_transport = nat_transport_new network, ps_net = w, ps_requests = Map.empty, ps_given = [], ps_evicted = []\<rparr>"

text \<open>
  What \<^verbatim>\<open>dig-nat\<close> documents of a dial: the connection it gives is to the identity its target is
  pinned to.
\<close>

definition dial_pins :: "('i, 'c, 'r, 'a, 'w) nat_net \<Rightarrow> ('c \<Rightarrow> 'i) \<Rightarrow> bool" where
  "dial_pins N peer_of \<longleftrightarrow> (\<forall>t w c w'. nn_dial N t w = (Ok c, w') \<longrightarrow> peer_of c = target_peer t)"

lemma try_targets_pinned:
  assumes "dial_pins N peer_of" "try_targets (nn_dial N) ts le w = (Ok c, w')"
  shows "\<exists>t \<in> set ts. peer_of c = target_peer (snd t)"
  using assms(2)
proof (induction ts arbitrary: le w)
  case (Cons x ts)
  obtain addr t where x: "x = (addr, t)" by fastforce
  obtain r w1 where r: "nn_dial N t w = (r, w1)" by fastforce
  show ?case
  proof (cases r)
    case (Inl e)
    then obtain le' where "try_targets (nn_dial N) ts le' w1 = (Ok c, w')" using Cons.prems by (simp add: x r)
    then show ?thesis using Cons.IH by fastforce
  next
    case (Inr c')
    then have "c' = c" using Cons.prems by (simp add: x r)
    then have "peer_of c = target_peer t" using assms(1) r Inr unfolding dial_pins_def by blast
    then show ?thesis by (simp add: x)
  qed
qed simp

lemma connect_pinned:
  assumes "dial_pins N peer_of" "connect N T p w = (Ok c, w')"
  shows "nn_peer_id N (provider_peer_id p) = Some (peer_of c)"
proof -
  obtain ts where ts: "provider_dial_targets N T p = Ok ts" and t: "try_targets (nn_dial N) ts None w = (Ok c, w')"
    using assms(2) by (auto simp: connect_def split: sum.splits prod.splits)
  show ?thesis using try_targets_pinned[OF assms(1) t] dial_targets_ordered(3)[OF ts] by auto
qed

section \<open>Invariants of the pool\<close>

definition pool_pinned :: "('i, 'c, 'r, 'a, 'w) nat_net \<Rightarrow> ('c \<Rightarrow> 'i) \<Rightarrow> ('c, 'w) pool_state \<Rightarrow> bool" where
  "pool_pinned N peer_of S \<longleftrightarrow>
     (\<forall>k c. nt_pool (ps_transport S) k = Some c \<longrightarrow> nn_peer_id N k = Some (peer_of c))
     \<and> (\<forall>t p c. ps_requests S t = Some (p, Dialled c) \<longrightarrow> nn_peer_id N (provider_peer_id p) = Some (peer_of c))
     \<and> (\<forall>k c. (k, c) \<in> set (ps_given S) \<longrightarrow> nn_peer_id N k = Some (peer_of c))"

text \<open>A connection leaves the pool only by an eviction, so a new one needs an eviction first.\<close>

definition connections_given :: "(rstring \<times> 'c) list \<Rightarrow> rstring \<Rightarrow> 'c set" where
  "connections_given G k = {c. (k, c) \<in> set G}"

definition frugal :: "(rstring \<Rightarrow> 'c option) \<Rightarrow> (rstring \<times> 'c) list \<Rightarrow> rstring list \<Rightarrow> bool" where
  "frugal P G E \<longleftrightarrow>
     (\<forall>k. card (connections_given G k) \<le> count_list E k + (if P k = None then 0 else 1))
     \<and> (\<forall>k c. P k = Some c \<longrightarrow> c \<in> connections_given G k)"

lemma frugalI:
  assumes "\<And>k. card (connections_given G k) \<le> count_list E k + (if P k = None then 0 else 1)"
    and "\<And>k c. P k = Some c \<Longrightarrow> c \<in> connections_given G k"
  shows "frugal P G E"
  using assms unfolding frugal_def by blast

lemma frugalD:
  assumes "frugal P G E"
  shows "card (connections_given G k) \<le> count_list E k + (if P k = None then 0 else 1)"
    and "P k = Some c \<Longrightarrow> c \<in> connections_given G k"
  using assms unfolding frugal_def by blast+

lemma connections_given_append:
  "connections_given (G @ [(k', c)]) k = (if k = k' then insert c (connections_given G k) else connections_given G k)"
  by (auto simp: connections_given_def)

lemma finite_connections: "finite (connections_given G k)"
proof -
  have "connections_given G k \<subseteq> snd ` set G" by (force simp: connections_given_def)
  then show ?thesis by (rule finite_subset) simp
qed

lemma frugal_evict:
  assumes "frugal P G E"
  shows "frugal (P(k := None)) G (k # E)"
proof (rule frugalI)
  show "card (connections_given G k') \<le> count_list (k # E) k' + (if (P(k := None)) k' = None then 0 else 1)" for k'
    using frugalD(1)[OF assms, of k'] by (auto split: if_splits)
qed (use frugalD(2)[OF assms] in \<open>auto split: if_splits\<close>)

lemma frugal_found:
  assumes "frugal P G E" "P k = Some c"
  shows "frugal P (G @ [(k, c)]) E"
proof -
  have "connections_given (G @ [(k, c)]) k' = connections_given G k'" for k'
    using frugalD(2)[OF assms] by (auto simp: connections_given_append insert_absorb)
  then show ?thesis using assms(1) by (simp add: frugal_def)
qed

lemma frugal_insert:
  assumes "frugal P G E" "P k = None"
  shows "frugal (P(k \<mapsto> c)) (G @ [(k, c)]) E"
proof (rule frugalI)
  show "card (connections_given (G @ [(k, c)]) k') \<le> count_list E k' + (if (P(k \<mapsto> c)) k' = None then 0 else 1)" for k'
    using frugalD(1)[OF assms(1), of k'] assms(2)
    by (auto simp: connections_given_append card_insert_if[OF finite_connections])
qed (use frugalD(2)[OF assms(1)] in \<open>auto simp: connections_given_append split: if_splits\<close>)

definition pool_frugal :: "('c, 'w) pool_state \<Rightarrow> bool" where
  "pool_frugal S \<longleftrightarrow> frugal (nt_pool (ps_transport S)) (ps_given S) (ps_evicted S)"

lemma pool_pinned_step:
  assumes d: "dial_pins N peer_of" and i: "pool_pinned N peer_of S" and s: "pool_step N S S'"
  shows "pool_pinned N peer_of S'"
  using s
proof cases
  case (dials t p conn w)
  then show ?thesis using i connect_pinned[OF d dials(3)] by (auto simp: pool_pinned_def request_goes_def)
next
  case (inserts t p own conn T)
  have "nn_peer_id N (provider_peer_id p) = Some (peer_of conn)"
  proof (cases "nt_pool (ps_transport S) (provider_peer_id p)")
    case None
    then have "conn = own" using inserts(3) by (simp add: or_insert_def)
    then show ?thesis using i inserts(2) unfolding pool_pinned_def by blast
  next
    case (Some c)
    then have "conn = c" using inserts(3) by (simp add: or_insert_def)
    then show ?thesis using i Some unfolding pool_pinned_def by blast
  qed
  moreover have "nt_pool T k = Some c \<longrightarrow> nt_pool (ps_transport S) k = Some c \<or> k = provider_peer_id p \<and> c = conn" for k c
    using inserts(3) by (auto simp: or_insert_def split: option.splits if_splits)
  ultimately show ?thesis using i by (auto simp: inserts(1) pool_pinned_def request_goes_def split: if_splits)
qed (use i in \<open>auto simp: pool_pinned_def request_goes_def evict_def split: if_splits\<close>)

lemma pool_frugal_step:
  assumes i: "pool_frugal S" and s: "pool_step N S S'"
  shows "pool_frugal S'"
  using s
proof cases
  case (finds t p conn)
  then show ?thesis using i frugal_found by (simp add: pool_frugal_def request_goes_def)
next
  case (inserts t p own conn T)
  note i' = i[unfolded pool_frugal_def]
  show ?thesis
  proof (cases "nt_pool (ps_transport S) (provider_peer_id p)")
    case None
    then show ?thesis using inserts(3) frugal_insert[OF i' None, of own]
      by (auto simp: inserts(1) pool_frugal_def request_goes_def or_insert_def)
  next
    case (Some c)
    then show ?thesis using inserts(3) frugal_found[OF i' Some]
      by (auto simp: inserts(1) pool_frugal_def request_goes_def or_insert_def)
  qed
qed (use i frugal_evict in \<open>auto simp: pool_frugal_def request_goes_def evict_def\<close>)

lemma pool_invariants:
  assumes "(pool_step N)\<^sup>*\<^sup>* (pool_start network w) S"
  shows "pool_frugal S" "dial_pins N peer_of \<Longrightarrow> pool_pinned N peer_of S"
proof -
  show "pool_frugal S"
    using assms
  proof (induction rule: rtranclp_induct)
    case base
    then show ?case by (simp add: pool_frugal_def frugal_def pool_start_def nat_transport_new_def connections_given_def)
  qed (rule pool_frugal_step)
  show "pool_pinned N peer_of S" if "dial_pins N peer_of"
    using assms
  proof (induction rule: rtranclp_induct)
    case base
    then show ?case by (simp add: pool_pinned_def pool_start_def nat_transport_new_def)
  qed (rule pool_pinned_step[OF that])
qed

text \<open>
  C15: whatever requests run at once, and however their dials race, a request for a provider is
  only ever given a connection to the identity that provider announced, and the connections given
  for one provider are at most one more than its evictions: two callers that dial the same provider
  end up on one connection.
\<close>

theorem pool_given_pinned_and_shared:
  assumes "(pool_step N)\<^sup>*\<^sup>* (pool_start network w) S" and "dial_pins N peer_of"
  shows "list_all (\<lambda>(k, c). nn_peer_id N k = Some (peer_of c)) (ps_given S)
    \<and> card {c. (k, c) \<in> set (ps_given S)} \<le> 1 + count_list (ps_evicted S) k"
proof -
  have "card (connections_given (ps_given S) k) \<le> 1 + count_list (ps_evicted S) k"
    using frugalD(1)[OF pool_invariants(1)[OF assms(1), unfolded pool_frugal_def], of k] by (simp split: if_splits)
  moreover have "pool_pinned N peer_of S" by (rule pool_invariants(2)[OF assms])
  ultimately show ?thesis by (auto simp: list_all_iff pool_pinned_def connections_given_def)
qed

text \<open>Two callers that dial the same provider at the same time; a connection is its number and its peer.\<close>

definition example_net :: "(rstring, nat \<times> rstring, range_frame list, nat \<times> u64 list, nat) nat_net" where
  "example_net =
     \<lparr>nn_peer_id = Some, nn_dial = (\<lambda>t n. (Ok (n, target_peer t), Suc n)),
      nn_get_availability = (\<lambda>c items n. (Ok (map (\<lambda>i. True) items), n)),
      nn_open_range = (\<lambda>c req n. (Ok [], n)), nn_decode = decode_list, nn_read = (\<lambda>want r. (Some 0, r)),
      nn_assembler = counting_assembler, nn_ips = example_ips, nn_host = example_host, nn_debug = id\<rparr>"

abbreviation lone_provider :: provider_record where
  "lone_provider \<equiv> \<lparr>provider_peer_id = [7], addresses = []\<rparr>"

lemma example_connect: "connect example_net T lone_provider n = (Ok (n, [7]), Suc n)"
  by (simp add: connect_def provider_dial_targets_def candidate_targets_def dial_candidates_def example_net_def
      List.map_filter_def)

lemma example_race:
  "\<exists>S. (pool_step example_net)\<^sup>*\<^sup>* (pool_start [] 0) S \<and> ps_net S = 2 \<and> ps_evicted S = []
     \<and> ps_given S = [([7], (0, [7])), ([7], (0, [7]))]"
proof -
  let ?S0 = "pool_start [] 0 :: (nat \<times> rstring, nat) pool_state"
  let ?S1 = "request_goes 0 lone_provider Missed ?S0"
  let ?S2 = "request_goes 1 lone_provider Missed ?S1"
  let ?S3 = "request_goes 0 lone_provider (Dialled (0, [7])) (?S2\<lparr>ps_net := 1\<rparr>)"
  let ?S4 = "request_goes 1 lone_provider (Dialled (1, [7])) (?S3\<lparr>ps_net := 2\<rparr>)"
  let ?T = "(nat_transport_new [])\<lparr>nt_pool := [[7] \<mapsto> (0, [7])]\<rparr>"
  let ?S5 = "request_goes 0 lone_provider (Holding (0, [7]))
    (?S4\<lparr>ps_transport := ?T, ps_given := ps_given ?S4 @ [(provider_peer_id lone_provider, (0, [7]))]\<rparr>)"
  let ?S6 = "request_goes 1 lone_provider (Holding (0, [7]))
    (?S5\<lparr>ps_transport := ?T, ps_given := ps_given ?S5 @ [(provider_peer_id lone_provider, (0, [7]))]\<rparr>)"
  note defs = request_goes_def pool_start_def nat_transport_new_def or_insert_def
  have 1: "pool_step example_net ?S0 ?S1" by (rule pool_step.misses) (simp_all add: defs)
  have 2: "pool_step example_net ?S1 ?S2" by (rule pool_step.misses) (simp_all add: defs)
  have 3: "pool_step example_net ?S2 ?S3" by (rule pool_step.dials) (simp_all add: defs example_connect)
  have 4: "pool_step example_net ?S3 ?S4" by (rule pool_step.dials) (simp_all add: defs example_connect)
  have 5: "pool_step example_net ?S4 ?S5" by (rule pool_step.inserts) (simp_all add: defs)
  have 6: "pool_step example_net ?S5 ?S6" by (rule pool_step.inserts) (simp_all add: defs)
  have "(pool_step example_net)\<^sup>*\<^sup>* ?S0 ?S6"
    by (rule rtranclp_trans[OF _ r_into_rtranclp[of "pool_step example_net", OF 6]],
        rule rtranclp_trans[OF _ r_into_rtranclp[of "pool_step example_net", OF 5]],
        rule rtranclp_trans[OF _ r_into_rtranclp[of "pool_step example_net", OF 4]],
        rule rtranclp_trans[OF _ r_into_rtranclp[of "pool_step example_net", OF 3]],
        rule rtranclp_trans[OF r_into_rtranclp[of "pool_step example_net", OF 1] r_into_rtranclp[of "pool_step example_net", OF 2]])
  moreover have "ps_net ?S6 = 2 \<and> ps_evicted ?S6 = [] \<and> ps_given ?S6 = [([7], (0, [7])), ([7], (0, [7]))]"
    by (simp add: defs)
  ultimately show ?thesis by blast
qed

theorem pool_given_pinned_and_shared_witness:
  "\<exists>S. (pool_step example_net)\<^sup>*\<^sup>* (pool_start [] 0) S \<and> ps_net S = 2 \<and> length (ps_given S) = 2
     \<and> card {c. ([7], c) \<in> set (ps_given S)} \<le> 1"
proof -
  obtain S where S: "(pool_step example_net)\<^sup>*\<^sup>* (pool_start [] 0) S" "ps_net S = 2" "ps_evicted S = []"
    "ps_given S = [([7], (0, [7])), ([7], (0, [7]))]" using example_race by blast
  have "dial_pins example_net snd" by (simp add: dial_pins_def example_net_def)
  from conjunct2[OF pool_given_pinned_and_shared[OF S(1) this, of "[7]"]]
  have "card {c. ([7], c) \<in> set (ps_given S)} \<le> 1" by (simp add: S(3))
  then show ?thesis using S by (intro exI[of _ S]) simp
qed

section \<open>Requests as runs\<close>

text \<open>The request that the steps of a request make up when nothing comes between them.\<close>

lemma pooled_conn_runs:
  assumes "ps_requests S t = None" "pooled_conn N (ps_transport S) p (ps_net S) = (r, T, w)"
  shows "\<exists>S'. (pool_step N)\<^sup>*\<^sup>* S S' \<and> ps_transport S' = T \<and> ps_net S' = w
    \<and> ps_requests S' t = Some (p, case r of Ok conn \<Rightarrow> Holding conn | Err e \<Rightarrow> Returned)"
proof (cases "nt_pool (ps_transport S) (provider_peer_id p)")
  case (Some conn)
  then have "r = Ok conn" "T = ps_transport S" "w = ps_net S" using assms(2) by (simp_all add: pooled_conn_def)
  then show ?thesis using r_into_rtranclp[of "pool_step N", OF pool_step.finds[OF assms(1) Some, of N]]
    by (intro exI conjI) (assumption, simp_all add: request_goes_def)
next
  case None
  let ?S1 = "request_goes t p Missed S"
  have 1: "pool_step N S ?S1" by (rule pool_step.misses[OF assms(1) None])
  have s1: "ps_requests ?S1 t = Some (p, Missed)" "ps_transport ?S1 = ps_transport S" "ps_net ?S1 = ps_net S"
    by (simp_all add: request_goes_def)
  obtain c w' where c: "connect N (ps_transport S) p (ps_net S) = (c, w')" by fastforce
  show ?thesis
  proof (cases c)
    case (Inl e)
    then have res: "r = Err e" "T = ps_transport S" "w = w'" using assms(2) None c by (simp_all add: pooled_conn_def)
    have "pool_step N ?S1 (request_goes t p Returned (?S1\<lparr>ps_net := w'\<rparr>))"
      by (rule pool_step.dial_fails[OF s1(1)]) (use c Inl s1 in simp)
    then have "(pool_step N)\<^sup>*\<^sup>* S (request_goes t p Returned (?S1\<lparr>ps_net := w'\<rparr>))" using 1 by (meson r_into_rtranclp rtranclp_trans)
    then show ?thesis by (intro exI conjI) (assumption, simp_all add: res request_goes_def)
  next
    case (Inr own)
    obtain conn T' where oi: "or_insert (provider_peer_id p) own (ps_transport S) = (conn, T')" by fastforce
    then have res: "r = Ok conn" "T = T'" "w = w'" using assms(2) None c Inr by (simp_all add: pooled_conn_def)
    let ?S2 = "request_goes t p (Dialled own) (?S1\<lparr>ps_net := w'\<rparr>)"
    have 2: "pool_step N ?S1 ?S2" by (rule pool_step.dials[OF s1(1)]) (use c Inr s1 in simp)
    have "pool_step N ?S2 (request_goes t p (Holding conn)
        (?S2\<lparr>ps_transport := T', ps_given := ps_given ?S2 @ [(provider_peer_id p, conn)]\<rparr>))"
      by (rule pool_step.inserts[where own = own]) (use oi in \<open>simp_all add: request_goes_def\<close>)
    then have "(pool_step N)\<^sup>*\<^sup>* S (request_goes t p (Holding conn)
        (?S2\<lparr>ps_transport := T', ps_given := ps_given ?S2 @ [(provider_peer_id p, conn)]\<rparr>))"
      using 1 2 by (meson r_into_rtranclp rtranclp_trans)
    then show ?thesis by (intro exI conjI) (assumption, simp_all add: res request_goes_def)
  qed
qed

lemma runs_then:
  assumes "(pool_step N)\<^sup>*\<^sup>* S S1" "pool_step N S1 S2"
  shows "(pool_step N)\<^sup>*\<^sup>* S S2"
  by (rule rtranclp.rtrancl_into_rtrancl[OF assms])

lemma query_runs:
  assumes "ps_requests S t = None" "nat_query_availability N (ps_transport S) p items (ps_net S) = (r, T, w)"
  shows "\<exists>S'. (pool_step N)\<^sup>*\<^sup>* S S' \<and> ps_transport S' = T \<and> ps_net S' = w \<and> ps_requests S' t = Some (p, Returned)"
proof -
  obtain c T1 w1 where c: "pooled_conn N (ps_transport S) p (ps_net S) = (c, T1, w1)" by (metis prod_cases3)
  from pooled_conn_runs[OF assms(1) c] obtain S1 where S1: "(pool_step N)\<^sup>*\<^sup>* S S1" "ps_transport S1 = T1" "ps_net S1 = w1"
    "ps_requests S1 t = Some (p, case c of Ok conn \<Rightarrow> Holding conn | Err e \<Rightarrow> Returned)" by blast
  show ?thesis
  proof (cases c)
    case (Inl e)
    then show ?thesis using assms(2) c S1 by (intro exI[of _ S1]) (simp add: nat_query_availability_def)
  next
    case (Inr conn)
    then have h: "ps_requests S1 t = Some (p, Holding conn)" using S1(4) by simp
    obtain a w2 where a: "nn_get_availability N conn items (ps_net S1) = (a, w2)" by fastforce
    show ?thesis
    proof (cases a)
      case (Inl e)
      from runs_then[OF S1(1) pool_step.ask_fails[OF h a[unfolded Inl]]] show ?thesis
        using assms(2) c a Inl S1(2,3) \<open>c = Ok conn\<close>
        by (intro exI conjI) (assumption, simp_all add: nat_query_availability_def request_goes_def)
    next
      case (Inr resp)
      from runs_then[OF S1(1) pool_step.asks[OF h a[unfolded Inr]]] show ?thesis
        using assms(2) c a Inr S1(2,3) \<open>c = Ok conn\<close>
        by (intro exI conjI) (assumption, simp_all add: nat_query_availability_def request_goes_def)
    qed
  qed
qed

lemma fetch_runs:
  assumes "ps_requests S t = None" "nat_fetch_range fuel N (ps_transport S) p req (ps_net S) = Some (r, T, w)"
  shows "\<exists>S'. (pool_step N)\<^sup>*\<^sup>* S S' \<and> ps_transport S' = T \<and> ps_net S' = w \<and> ps_requests S' t = Some (p, Returned)"
proof -
  obtain c T1 w1 where c: "pooled_conn N (ps_transport S) p (ps_net S) = (c, T1, w1)" by (metis prod_cases3)
  from pooled_conn_runs[OF assms(1) c] obtain S1 where S1: "(pool_step N)\<^sup>*\<^sup>* S S1" "ps_transport S1 = T1" "ps_net S1 = w1"
    "ps_requests S1 t = Some (p, case c of Ok conn \<Rightarrow> Holding conn | Err e \<Rightarrow> Returned)" by blast
  show ?thesis
  proof (cases c)
    case (Inl e)
    then show ?thesis using assms(2) c S1 by (intro exI[of _ S1]) (simp add: nat_fetch_range_def)
  next
    case (Inr conn)
    then have h: "ps_requests S1 t = Some (p, Holding conn)" using S1(4) by simp
    obtain a w2 where a: "nn_open_range N conn req (ps_net S1) = (a, w2)" by fastforce
    show ?thesis
    proof (cases a)
      case (Inl e)
      from runs_then[OF S1(1) pool_step.open_fails[OF h a[unfolded Inl]]] show ?thesis
        using assms(2) c a Inl S1(2,3) \<open>c = Ok conn\<close>
        by (intro exI conjI) (assumption, simp_all add: nat_fetch_range_def request_goes_def)
    next
      case (Inr stream)
      have "T = T1" "w = w2" using assms(2) c a Inr S1(2,3) \<open>c = Ok conn\<close>
        by (auto simp: nat_fetch_range_def split: option.splits sum.splits prod.splits)
      then show ?thesis using runs_then[OF S1(1) pool_step.opens[OF h a[unfolded Inr]]] S1(2)
        by (intro exI conjI) (assumption, simp_all add: request_goes_def)
    qed
  qed
qed

text \<open>
  A request that runs by itself is a run of the pool's steps, from whatever state the
  other requests have left: it changes the pool and the network as those steps do.
\<close>

theorem requests_refine_pool:
  assumes "ps_requests S t = None"
  shows "(case nat_query_availability N (ps_transport S) p items (ps_net S) of (r, T, w) \<Rightarrow>
        \<exists>S'. (pool_step N)\<^sup>*\<^sup>* S S' \<and> ps_transport S' = T \<and> ps_net S' = w \<and> ps_requests S' t = Some (p, Returned))
    \<and> (case nat_fetch_range fuel N (ps_transport S) p req (ps_net S) of
         None \<Rightarrow> True
       | Some (r, T, w) \<Rightarrow>
           \<exists>S'. (pool_step N)\<^sup>*\<^sup>* S S' \<and> ps_transport S' = T \<and> ps_net S' = w \<and> ps_requests S' t = Some (p, Returned))"
  using query_runs[OF assms] fetch_runs[OF assms] by (auto split: option.splits)

theorem requests_refine_pool_witness:
  "\<exists>S'. (pool_step example_net)\<^sup>*\<^sup>* (pool_start [] 0) S' \<and> ps_net S' = 1 \<and> nt_pool (ps_transport S') [7] = Some (0, [7])"
proof -
  have q: "nat_query_availability example_net (ps_transport (pool_start [] 0)) lone_provider [] 0
      = (Ok [], (nat_transport_new [])\<lparr>nt_pool := [[7] \<mapsto> (0, [7])]\<rparr>, 1)"
    by (simp add: nat_query_availability_def pooled_conn_def pool_start_def nat_transport_new_def example_connect
        or_insert_def) (simp add: example_net_def)
  have "ps_requests (pool_start [] 0 :: (nat \<times> rstring, nat) pool_state) 0 = None" "ps_net (pool_start [] 0 :: (nat \<times> rstring, nat) pool_state) = 0"
    by (simp_all add: pool_start_def)
  from conjunct1[OF requests_refine_pool[OF this(1), of example_net lone_provider "[]"]] this(2) show ?thesis
    by (auto simp: q)
qed

section \<open>Failures\<close>

fun names_provider :: "rstring \<Rightarrow> download_error \<Rightarrow> bool" where
  "names_provider k (Transport q reason) = (q = k)"
| "names_provider k (PagedPrologueUnsupported q n d) = (q = k)"
| "names_provider k e = False"

lemma attributed_names: "names_provider [] e \<Longrightarrow> names_provider k (attributed_to e k) \<and> is_recoverable (attributed_to e k)"
  by (cases e) auto

lemma anonymous_errors [simp]: "names_provider [] (transport_err e)" "names_provider [] (chunk_lens_error e)"
  by (simp_all add: transport_err_def chunk_lens_error_def)

lemma and_then_Err_cases:
  assumes "and_then r f = Err e"
  obtains "r = Err e" | x where "r = Ok x" "f x = Err e"
  using assms by (cases r) auto

lemma map_err_Err_iff [simp]: "map_err g r = Err e \<longleftrightarrow> (\<exists>e'. r = Err e' \<and> e = g e')"
  by (cases r) auto

lemma accept_frame_anonymous: "accept_frame H dbg A f st = Err e \<Longrightarrow> names_provider [] e"
  by (auto simp: accept_frame_def accept_first_frame_def accept_later_frame_def Let_def
      elim!: and_then_Err_cases split: option.splits if_splits later_frame.splits)

lemma frame_step_anonymous: "frame_step H dbg A max_len f st = Err e \<Longrightarrow> names_provider [] e"
  by (auto simp: frame_step_def place_frame_def Let_def elim!: and_then_Err_cases dest: accept_frame_anonymous
      split: option.splits if_splits)

lemma assembly_finish_anonymous: "assembly_finish A st = Err e \<Longrightarrow> names_provider [] e"
  by (auto simp: assembly_finish_def split: option.splits sum.splits)

lemma assemble_loop_anonymous:
  "assemble_loop fuel H dbg A decode max_len st r = Some (Err e, r') \<Longrightarrow> names_provider [] e"
proof (induction fuel arbitrary: st r)
  case (Suc fuel)
  then show ?case
    by (auto split: sum.splits option.splits loop_step.splits prod.splits dest: frame_step_anonymous assembly_finish_anonymous)
qed simp

lemma pooled_conn_fails:
  assumes "pooled_conn N T p w = (Err e, T', w')"
  shows "names_provider (provider_peer_id p) e \<and> nt_pool T' (provider_peer_id p) = None"
  using assms by (auto simp: pooled_conn_def connect_def provider_dial_targets_def or_insert_def
      split: option.splits sum.splits prod.splits)

lemma names_recoverable: "names_provider k e \<Longrightarrow> is_recoverable e"
  by (cases e) auto

lemma query_fails:
  assumes "nat_query_availability N T p items w = (Err e, T', w')"
  shows "names_provider (provider_peer_id p) e \<and> nt_pool T' (provider_peer_id p) = None"
  using assms by (auto simp: nat_query_availability_def evict_def split: prod.splits sum.splits dest: pooled_conn_fails)

text \<open>
  C26: a range request returns, whatever the holder streams, with no more bytes than were
  asked for. A request that fails fails with an error that names the provider it went to and that
  lets the range be fetched elsewhere; and a failed availability question leaves no connection to
  that provider in the pool. It is assumed that the assembler fills a new slot with every page it
  accepts.
\<close>

theorem pool_requests_return:
  assumes "assembler_progresses (nn_assembler N) filled cap" and "unat (rq_length req) \<le> usize_max (nn_host N)"
    and "unat (rq_length req) + cap < fuel"
  shows "(case nat_fetch_range fuel N T p req w of
        None \<Rightarrow> False
      | Some (Ok got, T', w') \<Rightarrow> request_offset got = rq_offset req \<and> length (fetched_bytes got) \<le> unat (rq_length req)
      | Some (Err e, T', w') \<Rightarrow> names_provider (provider_peer_id p) e \<and> is_recoverable e)
    \<and> (case nat_query_availability N T p items w of
         (Ok resp, T', w') \<Rightarrow> True
       | (Err e, T', w') \<Rightarrow> names_provider (provider_peer_id p) e \<and> is_recoverable e
           \<and> nt_pool T' (provider_peer_id p) = None)"
proof -
  let ?a = "\<lambda>s. assemble_range_stream fuel (nn_host N) (nn_debug N) (nn_assembler N) (nn_decode N) (rq_length req) s"
  have ret: "?a s \<noteq> None" for s unfolding assemble_range_stream_def
    by (rule assemble_loop_terminates[OF assms(1,2)])
      (use assms(3) in \<open>auto simp: in_window_def assembly_start_def stream_budget_def slots_def\<close>)
  have bound: "length bs \<le> unat (rq_length req)" if "?a s = Some (Ok (bs, m), s')" for s bs m s'
    using that assemble_loop_bounded[OF assms(2), of assembly_start] unfolding assemble_range_stream_def
    by (simp add: assembly_start_def)
  have anon: "names_provider [] e" if "?a s = Some (Err e, s')" for s e s'
    by (rule assemble_loop_anonymous[OF that[unfolded assemble_range_stream_def]])
  have q: "names_provider (provider_peer_id p) e \<and> is_recoverable e \<and> nt_pool T' (provider_peer_id p) = None"
    if "nat_query_availability N T p items w = (Err e, T', w')" for e T' w'
    using query_fails[OF that] names_recoverable by blast
  obtain c T1 w1 where c: "pooled_conn N T p w = (c, T1, w1)" by (metis prod_cases3)
  have f: "case nat_fetch_range fuel N T p req w of
        None \<Rightarrow> False
      | Some (Ok got, T', w') \<Rightarrow> request_offset got = rq_offset req \<and> length (fetched_bytes got) \<le> unat (rq_length req)
      | Some (Err e, T', w') \<Rightarrow> names_provider (provider_peer_id p) e \<and> is_recoverable e"
  proof (cases c)
    case (Inl e)
    then show ?thesis using pooled_conn_fails[OF c[unfolded Inl]] by (simp add: nat_fetch_range_def c names_recoverable[of "provider_peer_id p"])
  next
    case (Inr conn)
    obtain a w2 where a: "nn_open_range N conn req w1 = (a, w2)" by fastforce
    show ?thesis
    proof (cases a)
      case (Inl e)
      then show ?thesis by (simp add: nat_fetch_range_def c \<open>c = Ok conn\<close> a)
    next
      case (Inr stream)
      obtain res rest where r: "?a stream = Some (res, rest)" using ret[of stream] by fastforce
      then show ?thesis using bound[of stream] anon[of stream] attributed_names
        by (cases res) (auto simp: nat_fetch_range_def c \<open>c = Ok conn\<close> a Inr split: prod.splits)
    qed
  qed
  show ?thesis using f q by (auto split: prod.splits sum.splits)
qed

definition example_request :: range_request where
  "example_request = \<lparr>rq_store_id = [], rq_retrieval_key = None, rq_offset = 5, rq_length = 8, rq_root = None, rq_skip_layout = False\<rparr>"

text \<open>An endless stream of the same frame.\<close>

theorem pool_requests_return_witness:
  "case nat_fetch_range 13 (example_net\<lparr>nn_decode := (\<lambda>r. (Ok (Some stuck_frame), r))\<rparr>) (nat_transport_new []) lone_provider example_request 0 of
     None \<Rightarrow> False
   | Some (Ok got, T', w') \<Rightarrow> length (fetched_bytes got) \<le> 8
   | Some (Err e, T', w') \<Rightarrow> names_provider [7] e"
proof -
  let ?N = "example_net\<lparr>nn_decode := (\<lambda>r. (Ok (Some stuck_frame), r))\<rparr>"
  have "assembler_progresses (nn_assembler ?N) (\<lambda>(n, ls). length ls) 4" using counting_progresses by (simp add: example_net_def)
  from conjunct1[OF pool_requests_return[OF this, where req = example_request and fuel = 13 and T = "nat_transport_new []"
        and p = lone_provider and w = 0]] show ?thesis
    by (auto simp: example_net_def example_request_def example_host_def split: option.splits sum.splits)
qed

end
