(* ===== verification/Throttle.thy ===== *)
theory Throttle
  imports Prelude Complex_Main
begin

text \<open>
  The rate limiter of the serve path (\<^verbatim>\<open>src/src/throttle.rs\<close>). An instant and a duration are
  nanoseconds. The \<open>f64\<close> quantities are rational numbers here: the model is exact where the
  program rounds to 53 bits, and keeps the rounding of a wait to whole nanoseconds and the panic of
  a wait that is no \<open>Duration\<close>. How late a sleeping task wakes is a parameter.
\<close>

section \<open>Token buckets\<close>

record bucket =
  bk_rate :: rat
  bk_capacity :: rat
  bk_tokens :: rat
  bk_last_refill :: nat

definition bucket_new :: "u64 \<Rightarrow> nat \<Rightarrow> bucket" where
  "bucket_new rate_bps now =
     (let rate = of_nat (unat rate_bps)
      in \<lparr>bk_rate = rate, bk_capacity = rate, bk_tokens = rate, bk_last_refill = now\<rparr>)"

definition refill :: "nat \<Rightarrow> bucket \<Rightarrow> bucket" where
  "refill now b =
     (let elapsed = of_nat (now - bk_last_refill b) / 10 ^ 9
      in if 0 < elapsed
         then b\<lparr>bk_tokens := min (bk_tokens b + elapsed * bk_rate b) (bk_capacity b), bk_last_refill := now\<rparr>
         else b)"

text \<open>To the nearest integer, a tie to the even one.\<close>

definition round_even :: "rat \<Rightarrow> int" where
  "round_even x =
     (let n = \<lfloor>x\<rfloor>; d = x - of_int n
      in if d < 1 / 2 then n else if 1 / 2 < d then n + 1 else if even n then n else n + 1)"

text \<open>\<open>None\<close>: the panic of \<open>Duration::from_secs_f64\<close> on a number of seconds that is too large.\<close>

definition from_secs :: "rat \<Rightarrow> nat option" where
  "from_secs x =
     (let ns = nat (round_even (x * 10 ^ 9)) in if ns < 2 ^ 64 * 10 ^ 9 then Some ns else None)"

definition wait_for :: "rat \<Rightarrow> nat \<Rightarrow> bucket \<Rightarrow> nat option \<times> bucket" where
  "wait_for need now b =
     (if bk_rate b \<le> 0 then (Some 0, b)
      else
        let b' = refill now b; effective = min need (bk_capacity b')
        in (if effective \<le> bk_tokens b' then Some 0 else from_secs ((effective - bk_tokens b') / bk_rate b'), b'))"

definition consume :: "rat \<Rightarrow> bucket \<Rightarrow> bucket" where
  "consume need b = (if 0 < bk_rate b then b\<lparr>bk_tokens := bk_tokens b - need\<rparr> else b)"

section \<open>The limiter\<close>

record limiter =
  lm_global :: bucket
  lm_per_conn :: "rstring \<Rightarrow> bucket option"
  lm_per_conn_bps :: u64

definition limiter_new :: "u64 \<Rightarrow> u64 \<Rightarrow> nat \<Rightarrow> limiter" where
  "limiter_new global_bps per_conn_bps now =
     \<lparr>lm_global = bucket_new global_bps now, lm_per_conn = Map.empty, lm_per_conn_bps = per_conn_bps\<rparr>"

text \<open>One pass of the loop: zero when the bytes were granted, otherwise how long to sleep.\<close>

definition acquire_pass :: "rstring \<Rightarrow> rat \<Rightarrow> nat \<Rightarrow> limiter \<Rightarrow> nat option \<times> limiter" where
  "acquire_pass conn_key need now L =
     (case wait_for need now (lm_global L) of
        (None, g) \<Rightarrow> (None, L\<lparr>lm_global := g\<rparr>)
      | (Some wait_global, g) \<Rightarrow>
          (case wait_for need now (case lm_per_conn L conn_key of
                   Some b \<Rightarrow> b
                 | None \<Rightarrow> bucket_new (lm_per_conn_bps L) now) of
             (None, b) \<Rightarrow> (None, L\<lparr>lm_global := g, lm_per_conn := (lm_per_conn L)(conn_key \<mapsto> b)\<rparr>)
           | (Some wait_conn, b) \<Rightarrow>
               if max wait_global wait_conn = 0
               then (Some 0, L\<lparr>lm_global := consume need g, lm_per_conn := (lm_per_conn L)(conn_key \<mapsto> consume need b)\<rparr>)
               else (Some (max wait_global wait_conn),
                     L\<lparr>lm_global := g, lm_per_conn := (lm_per_conn L)(conn_key \<mapsto> b)\<rparr>)))"

text \<open>When the bytes are granted; the inner \<open>None\<close> is the panic of a wait, the outer one no fuel.\<close>

fun acquire_loop :: "nat \<Rightarrow> (nat \<Rightarrow> nat \<Rightarrow> nat) \<Rightarrow> rstring \<Rightarrow> rat \<Rightarrow> nat \<Rightarrow> limiter \<Rightarrow> (nat option \<times> limiter) option" where
  "acquire_loop 0 wake conn_key need now L = None"
| "acquire_loop (Suc fuel) wake conn_key need now L =
     (case acquire_pass conn_key need now L of
        (None, L') \<Rightarrow> Some (None, L')
      | (Some wait, L') \<Rightarrow>
          if wait = 0 then Some (Some now, L')
          else acquire_loop fuel wake conn_key need (wake now wait) L')"

definition acquire :: "nat \<Rightarrow> (nat \<Rightarrow> nat \<Rightarrow> nat) \<Rightarrow> rstring \<Rightarrow> u64 \<Rightarrow> nat \<Rightarrow> limiter \<Rightarrow> (nat option \<times> limiter) option" where
  "acquire fuel wake conn_key bytes now L =
     (if bytes = 0 then Some (Some now, L)
      else acquire_loop fuel wake conn_key (of_nat (unat bytes)) now L)"

text \<open>
  Requests in the order they arrive, each with its time: the gate lets one in at a time, so each
  begins when it has come and the one before it is done; one of no bytes does not pass the gate.
\<close>

record serve_request =
  sr_key :: rstring
  sr_bytes :: u64
  sr_time :: nat

fun acquire_all :: "nat \<Rightarrow> (nat \<Rightarrow> nat \<Rightarrow> nat) \<Rightarrow> serve_request list \<Rightarrow> nat \<Rightarrow> limiter \<Rightarrow> (serve_request list \<times> limiter) option" where
  "acquire_all fuel wake [] now L = Some ([], L)"
| "acquire_all fuel wake (q # qs) now L =
     (if sr_bytes q = 0
      then map_option (\<lambda>(gs, L'). (q # gs, L')) (acquire_all fuel wake qs now L)
      else
        (case acquire fuel wake (sr_key q) (sr_bytes q) (max now (sr_time q)) L of
           Some (Some t, L1) \<Rightarrow>
             map_option (\<lambda>(gs, L'). (q\<lparr>sr_time := t\<rparr> # gs, L')) (acquire_all fuel wake qs t L1)
         | _ \<Rightarrow> None))"

section \<open>One bucket\<close>

text \<open>Half a nanosecond of the rate: what the rounding of a wait can give away.\<close>

definition slack :: "rat \<Rightarrow> rat" where "slack rate = rate / (2 * 10 ^ 9)"

definition secs :: "nat \<Rightarrow> rat" where "secs ns = of_nat ns / 10 ^ 9"

lemma round_even_bounds: "of_int (round_even x) \<le> x + 1 / 2" "x - 1 / 2 \<le> of_int (round_even x)"
proof -
  have f: "of_int \<lfloor>x\<rfloor> \<le> x" "x < of_int \<lfloor>x\<rfloor> + 1" by linarith+
  show "of_int (round_even x) \<le> x + 1 / 2" "x - 1 / 2 \<le> of_int (round_even x)"
    using f by (simp_all add: round_even_def Let_def; linarith)+
qed

lemma round_even_small:
  assumes "0 < x" "x \<le> 1 / 2"
  shows "round_even x = 0"
proof -
  have "\<lfloor>x\<rfloor> = 0" using assms by linarith
  then show ?thesis using assms by (simp add: round_even_def Let_def)
qed

lemma from_secs_zero: "from_secs x = Some 0 \<Longrightarrow> x \<le> 1 / (2 * 10 ^ 9)"
  using round_even_bounds(2)[of "x * 10 ^ 9"]
  by (auto simp: from_secs_def Let_def split: if_splits)

lemma from_secs_at_least: "from_secs x = Some ns \<Longrightarrow> x - 1 / (2 * 10 ^ 9) \<le> secs ns"
  using round_even_bounds(2)[of "x * 10 ^ 9"]
  by (auto simp: from_secs_def secs_def Let_def split: if_splits)

lemma from_secs_small: "0 < x \<Longrightarrow> x \<le> 1 / (2 * 10 ^ 9) \<Longrightarrow> from_secs x = Some 0"
  using round_even_small[of "x * 10 ^ 9"] by (simp add: from_secs_def)

lemma from_secs_defined:
  assumes "x \<le> 2 ^ 64 - 1"
  shows "from_secs x \<noteq> None"
proof -
  have "of_int (round_even (x * 10 ^ 9)) \<le> x * 10 ^ 9 + 1 / 2" by (rule round_even_bounds)
  also have "\<dots> < (2 ^ 64 * 10 ^ 9 :: rat)" using assms by simp
  finally have "(of_int (round_even (x * 10 ^ 9)) :: rat) < of_int (2 ^ 64 * 10 ^ 9)" by simp
  then have "round_even (x * 10 ^ 9) < 2 ^ 64 * 10 ^ 9" by (simp only: of_int_less_iff)
  then show ?thesis by (simp add: from_secs_def Let_def)
qed

text \<open>
  A bucket in use: it is not ahead of the time, never above its capacity, and its debt is at most
  one request's (of fewer than \<open>2 ^ 63\<close> bytes) and a rounding.
\<close>

definition fits :: "nat \<Rightarrow> bucket \<Rightarrow> bool" where
  "fits now b \<longleftrightarrow> bk_last_refill b \<le> now \<and> bk_capacity b = bk_rate b \<and> bk_tokens b \<le> bk_rate b
     \<and> (bk_rate b = 0 \<or> 1 \<le> bk_rate b \<and> - (2 ^ 63) - slack (bk_rate b) \<le> bk_tokens b)"

lemma secs_0 [simp]: "secs 0 = 0" and secs_nonneg [simp]: "0 \<le> secs n"
  by (simp_all add: secs_def)

lemma secs_mono: "m \<le> n \<Longrightarrow> secs m \<le> secs n"
  by (simp add: secs_def)

lemma secs_add: "secs (m + n) = secs m + secs n"
  by (simp add: secs_def add_divide_distrib)

lemma refill_fits:
  assumes "fits now b"
  shows "refill now b =
    b\<lparr>bk_tokens := min (bk_tokens b + secs (now - bk_last_refill b) * bk_rate b) (bk_rate b), bk_last_refill := now\<rparr>"
  using assms by (cases "bk_last_refill b < now") (auto simp: refill_def fits_def secs_def Let_def)

lemma fits_update:
  "\<lbrakk>fits now b; bk_tokens b \<le> t; t \<le> bk_rate b\<rbrakk> \<Longrightarrow> fits now (b\<lparr>bk_tokens := t, bk_last_refill := now\<rparr>)"
  by (auto simp: fits_def)

lemma fits_refill:
  assumes f: "fits now b"
  shows "fits now (refill now b)"
  unfolding refill_fits[OF f]
proof (rule fits_update[OF f])
  have "0 \<le> bk_rate b" using f by (auto simp: fits_def)
  then show "bk_tokens b \<le> min (bk_tokens b + secs (now - bk_last_refill b) * bk_rate b) (bk_rate b)"
    using f by (simp add: fits_def)
qed simp

lemma fits_later: "fits now b \<Longrightarrow> now \<le> now' \<Longrightarrow> fits now' b"
  by (auto simp: fits_def)

lemma fits_new: "fits now (bucket_new rate_bps now)"
proof -
  have "of_nat n = (0 :: rat) \<or> (1 :: rat) \<le> of_nat n" for n :: nat by (cases n) auto
  from this[of "unat rate_bps"] show ?thesis by (auto simp: fits_def bucket_new_def Let_def slack_def)
qed

lemma wait_for_limited:
  assumes "fits now b" "bk_rate b \<noteq> 0"
  shows "wait_for need now b =
    (if min need (bk_rate b) \<le> bk_tokens (refill now b) then Some 0
     else from_secs ((min need (bk_rate b) - bk_tokens (refill now b)) / bk_rate b), refill now b)"
  using assms by (auto simp: wait_for_def fits_def Let_def refill_fits[OF assms(1)])

lemma wait_for_unlimited: "bk_rate b = 0 \<Longrightarrow> wait_for need now b = (Some 0, b)"
  by (simp add: wait_for_def)

lemma wait_for_snd: "snd (wait_for need now b) = (if bk_rate b \<le> 0 then b else refill now b)"
  by (simp add: wait_for_def Let_def)

lemma wait_for_fits: "fits now b \<Longrightarrow> fits now (snd (wait_for need now b))"
  by (simp add: wait_for_snd fits_refill)

lemma wait_for_rate [simp]: "bk_rate (snd (wait_for need now b)) = bk_rate b"
  by (simp add: wait_for_snd refill_def Let_def)

text \<open>No wait panics.\<close>

lemma wait_for_defined:
  assumes f: "fits now b"
  shows "fst (wait_for need now b) \<noteq> None"
proof (cases "bk_rate b = 0")
  case True
  then show ?thesis by (simp add: wait_for_unlimited)
next
  case False
  let ?r = "bk_rate b" and ?t = "bk_tokens (refill now b)"
  have r: "1 \<le> ?r" using f False by (auto simp: fits_def)
  have t: "- (2 ^ 63) - slack ?r \<le> ?t" using fits_refill[OF f] False by (auto simp: fits_def refill_fits[OF f])
  have "(min need ?r - ?t) / ?r \<le> (?r + 2 ^ 63 + slack ?r) / ?r"
    using r t by (intro divide_right_mono) auto
  also have "\<dots> = 1 + 2 ^ 63 / ?r + 1 / (2 * 10 ^ 9)" using r by (simp add: slack_def field_simps)
  also have "\<dots> \<le> 1 + 2 ^ 63 / 1 + 1 / (2 * 10 ^ 9)" using r by (intro add_mono divide_left_mono) auto
  also have "\<dots> \<le> 2 ^ 64 - 1" by simp
  finally show ?thesis using wait_for_limited[OF f False] from_secs_defined by (auto split: if_splits)
qed

text \<open>A request is granted with its tokens there, up to a rounding and to what a full bucket holds.\<close>

lemma granted_tokens:
  assumes f: "fits now b" and r: "bk_rate b \<noteq> 0" and g: "wait_for need now b = (Some 0, b')"
  shows "min need (bk_rate b) - slack (bk_rate b) \<le> bk_tokens b'"
proof -
  let ?r = "bk_rate b" and ?t = "bk_tokens (refill now b)"
  have pos: "0 < ?r" using f r by (auto simp: fits_def)
  have b': "b' = refill now b" using g wait_for_limited[OF f r, of need] by simp
  show ?thesis
  proof (cases "min need ?r \<le> ?t")
    case True
    then show ?thesis using pos by (auto simp: b' slack_def intro: order_trans[rotated])
  next
    case False
    then have "from_secs ((min need ?r - ?t) / ?r) = Some 0" using g[unfolded wait_for_limited[OF f r, of need]] by auto
    then have "(min need ?r - ?t) / ?r \<le> 1 / (2 * 10 ^ 9)" by (rule from_secs_zero)
    then have "min need ?r - ?t \<le> slack ?r" using pos by (simp add: slack_def pos_divide_le_eq)
    then show ?thesis by (simp add: b')
  qed
qed

text \<open>After the sleep it asked for, a bucket grants.\<close>

lemma wait_is_enough:
  assumes f: "fits now b" and w: "wait_for need now b = (Some w, b')" and later: "now + w \<le> now'"
  shows "fst (wait_for need now' b') = Some 0"
proof (cases "bk_rate b = 0")
  case True
  then show ?thesis using w by (simp add: wait_for_unlimited)
next
  case False
  let ?r = "bk_rate b" and ?t = "bk_tokens (refill now b)"
  have pos: "0 < ?r" using f False by (auto simp: fits_def)
  have b': "b' = refill now b" using w wait_for_limited[OF f False, of need] by simp
  have f': "fits now' b'" using fits_later[OF fits_refill[OF f]] later by (simp add: b')
  have r': "bk_rate b' = ?r" "bk_last_refill b' = now" by (simp_all add: b' refill_fits[OF f])
  have enough: "min need ?r - ?t \<le> secs (now' - now) * ?r + slack ?r"
  proof (cases "min need ?r \<le> ?t")
    case True
    have "0 \<le> secs (now' - now) * ?r" using pos by simp
    moreover have "0 \<le> slack ?r" using pos by (simp add: slack_def)
    ultimately show ?thesis using True by linarith
  next
    case False
    then have "from_secs ((min need ?r - ?t) / ?r) = Some w"
      using w[unfolded wait_for_limited[OF f \<open>?r \<noteq> 0\<close>, of need]] by auto
    then have "(min need ?r - ?t) / ?r \<le> secs w + 1 / (2 * 10 ^ 9)" using from_secs_at_least by fastforce
    also have "\<dots> \<le> secs (now' - now) + 1 / (2 * 10 ^ 9)" using later by (simp add: secs_mono)
    finally show ?thesis using pos by (simp add: pos_divide_le_eq slack_def algebra_simps)
  qed
  have t': "bk_tokens (refill now' b') = min (?t + secs (now' - now) * ?r) ?r"
    unfolding refill_fits[OF f'] r' by (simp add: b')
  have le: "min need ?r - bk_tokens (refill now' b') \<le> slack ?r"
    using enough pos by (auto simp: t' min_def slack_def)
  have "from_secs ((min need ?r - bk_tokens (refill now' b')) / ?r) = Some 0"
    if "\<not> min need ?r \<le> bk_tokens (refill now' b')"
  proof (rule from_secs_small)
    show "0 < (min need ?r - bk_tokens (refill now' b')) / ?r"
      by (rule divide_pos_pos) (use that pos in linarith)+
    show "(min need ?r - bk_tokens (refill now' b')) / ?r \<le> 1 / (2 * 10 ^ 9)"
      using le pos by (simp add: pos_divide_le_eq slack_def)
  qed
  then show ?thesis using wait_for_limited[OF f', of need] False by (simp add: r')
qed

lemma consume_fits:
  assumes f: "fits now b" and g: "wait_for need now b = (Some 0, b')" and n: "0 \<le> need" "need \<le> 2 ^ 63"
  shows "fits now (consume need b')"
proof (cases "bk_rate b = 0")
  case True
  then show ?thesis using f g by (simp add: wait_for_unlimited consume_def)
next
  case False
  have "fits now b'" using wait_for_fits[OF f, of need] g by simp
  moreover have "bk_rate b' = bk_rate b" using wait_for_rate[of need now b] g by simp
  moreover have "min need (bk_rate b) - slack (bk_rate b) \<le> bk_tokens b'" by (rule granted_tokens[OF f False g])
  ultimately show ?thesis using n f False by (auto simp: fits_def consume_def)
qed

text \<open>
  What a bucket has given: never more than its capacity and what its rate has yielded since it was
  made. A grant is above that by at most the excess of an oversized request and a rounding.
\<close>

definition metered :: "rat \<Rightarrow> nat \<Rightarrow> rat \<Rightarrow> bucket \<Rightarrow> bool" where
  "metered rate since given b \<longleftrightarrow> bk_rate b = rate \<and> (rate \<noteq> 0 \<longrightarrow> since \<le> bk_last_refill b
     \<and> bk_tokens b + given \<le> rate * (1 + secs (bk_last_refill b - since)))"

lemma metered_new:
  assumes "since \<le> now"
  shows "metered (of_nat (unat rate_bps)) since 0 (bucket_new rate_bps now)"
proof -
  define r :: rat where "r = of_nat (unat rate_bps)"
  have "0 \<le> r" unfolding r_def by (rule of_nat_0_le_iff)
  then show ?thesis using assms unfolding bucket_new_def Let_def r_def[symmetric] by (simp add: metered_def algebra_simps)
qed

lemma metered_refill:
  assumes f: "fits now b" and m: "metered rate since given b"
  shows "metered rate since given (refill now b)"
proof (cases "rate = 0")
  case True
  then show ?thesis using m by (simp add: metered_def refill_fits[OF f])
next
  case False
  have m': "bk_rate b = rate" "since \<le> bk_last_refill b" "bk_last_refill b \<le> now"
    "bk_tokens b + given \<le> rate * (1 + secs (bk_last_refill b - since))"
    using m f False by (auto simp: metered_def fits_def)
  have "secs (now - since) = secs (bk_last_refill b - since) + secs (now - bk_last_refill b)"
    using m'(2,3) by (simp flip: secs_add)
  then have "bk_tokens b + secs (now - bk_last_refill b) * rate + given \<le> rate * (1 + secs (now - since))"
    using m'(4) by (simp add: algebra_simps)
  moreover have "min (bk_tokens b + secs (now - bk_last_refill b) * rate) rate + given
      \<le> bk_tokens b + secs (now - bk_last_refill b) * rate + given" by simp
  ultimately have "min (bk_tokens b + secs (now - bk_last_refill b) * rate) rate + given \<le> rate * (1 + secs (now - since))"
    by (rule order_trans[rotated])
  then show ?thesis using m'(1-3) by (simp add: metered_def refill_fits[OF f])
qed

lemma metered_wait: "fits now b \<Longrightarrow> metered rate since given b \<Longrightarrow> metered rate since given (snd (wait_for need now b))"
  using metered_refill by (simp add: wait_for_snd)

lemma metered_consume: "metered rate since given b \<Longrightarrow> 0 \<le> bk_rate b \<Longrightarrow> metered rate since (given + need) (consume need b)"
  by (auto simp: metered_def consume_def algebra_simps)

definition allowance :: "rat \<Rightarrow> nat \<Rightarrow> rat \<Rightarrow> rat" where
  "allowance rate elapsed need = rate * (1 + secs elapsed) + max 0 (need - rate) + slack rate"

lemma grant_within_allowance:
  assumes f: "fits now b" and m: "metered rate since given b" and g: "wait_for need now b = (Some 0, b')" and r: "rate \<noteq> 0"
  shows "given + need \<le> allowance rate (now - since) need"
proof -
  have r': "bk_rate b = rate" using m by (simp add: metered_def)
  have b': "b' = refill now b" using g wait_for_limited[OF f, of need] r r' by auto
  have "bk_tokens b' + given \<le> rate * (1 + secs (now - since))"
    using metered_refill[OF f m] r r' unfolding metered_def b' refill_fits[OF f] by simp
  moreover have "min need rate - slack rate \<le> bk_tokens b'" using granted_tokens[OF f _ g] r r' by simp
  ultimately show ?thesis by (auto simp: allowance_def)
qed

section \<open>The loop\<close>

definition conn_bucket :: "limiter \<Rightarrow> rstring \<Rightarrow> nat \<Rightarrow> bucket" where
  "conn_bucket L key now = (case lm_per_conn L key of Some b \<Rightarrow> b | None \<Rightarrow> bucket_new (lm_per_conn_bps L) now)"

definition limiter_fits :: "nat \<Rightarrow> limiter \<Rightarrow> bool" where
  "limiter_fits now L \<longleftrightarrow> fits now (lm_global L) \<and> (\<forall>key b. lm_per_conn L key = Some b \<longrightarrow> fits now b)"

lemma limiter_fits_conn: "limiter_fits now L \<Longrightarrow> fits now (conn_bucket L key now)"
  by (auto simp: limiter_fits_def conn_bucket_def fits_new split: option.splits)

text \<open>A pass, when no wait panics.\<close>

definition waited :: "rstring \<Rightarrow> rat \<Rightarrow> nat \<Rightarrow> limiter \<Rightarrow> limiter" where
  "waited key need now L = L\<lparr>lm_global := snd (wait_for need now (lm_global L)),
     lm_per_conn := (lm_per_conn L)(key \<mapsto> snd (wait_for need now (conn_bucket L key now)))\<rparr>"

definition granted :: "rstring \<Rightarrow> rat \<Rightarrow> nat \<Rightarrow> limiter \<Rightarrow> limiter" where
  "granted key need now L = L\<lparr>lm_global := consume need (snd (wait_for need now (lm_global L))),
     lm_per_conn := (lm_per_conn L)(key \<mapsto> consume need (snd (wait_for need now (conn_bucket L key now))))\<rparr>"

lemma acquire_pass_cases:
  assumes "limiter_fits now L"
  obtains wg wc where "fst (wait_for need now (lm_global L)) = Some wg"
    "fst (wait_for need now (conn_bucket L key now)) = Some wc"
    "acquire_pass key need now L = (Some (max wg wc), if max wg wc = 0 then granted key need now L else waited key need now L)"
proof -
  have f: "fits now (lm_global L)" "fits now (conn_bucket L key now)"
    using assms limiter_fits_conn by (auto simp: limiter_fits_def)
  obtain wg g where g: "wait_for need now (lm_global L) = (Some wg, g)"
    using wait_for_defined[OF f(1), of need] by (cases "wait_for need now (lm_global L)") auto
  obtain wc b where b: "wait_for need now (conn_bucket L key now) = (Some wc, b)"
    using wait_for_defined[OF f(2), of need] by (cases "wait_for need now (conn_bucket L key now)") auto
  show ?thesis by (rule that[of wg wc])
      (use g b in \<open>simp_all add: acquire_pass_def waited_def granted_def flip: conn_bucket_def\<close>)
qed

lemma waited_fits: "limiter_fits now L \<Longrightarrow> limiter_fits now (waited key need now L)"
  using limiter_fits_conn[of now L key] wait_for_fits by (auto simp: limiter_fits_def waited_def)

lemma granted_fits:
  assumes f: "limiter_fits now L" and n: "0 \<le> need" "need \<le> 2 ^ 63"
    and g: "fst (wait_for need now (lm_global L)) = Some 0" "fst (wait_for need now (conn_bucket L key now)) = Some 0"
  shows "limiter_fits now (granted key need now L)"
proof -
  have "fits now (lm_global L)" using f by (simp add: limiter_fits_def)
  then have "fits now (consume need (snd (wait_for need now (lm_global L))))"
    by (rule consume_fits[OF _ _ n]) (simp add: g(1) prod_eq_iff)
  moreover have "fits now (consume need (snd (wait_for need now (conn_bucket L key now))))"
    by (rule consume_fits[OF limiter_fits_conn[OF f, of key] _ n]) (simp add: g(2) prod_eq_iff)
  ultimately show ?thesis using f by (auto simp: limiter_fits_def granted_def)
qed

text \<open>Two passes suffice: what was asked for is there after the first sleep.\<close>

lemma acquire_loop_grants:
  assumes f: "limiter_fits now L" and wake: "\<forall>t w. t + w \<le> wake t w"
  shows "\<exists>t M. acquire_loop (Suc (Suc fuel)) wake key need now L = Some (Some t, granted key need t M)
    \<and> (M = L \<and> t = now \<or> M = waited key need now L \<and> now \<le> t)
    \<and> limiter_fits t M \<and> fst (wait_for need t (lm_global M)) = Some 0 \<and> fst (wait_for need t (conn_bucket M key t)) = Some 0"
proof -
  obtain wg wc where w: "fst (wait_for need now (lm_global L)) = Some wg"
    "fst (wait_for need now (conn_bucket L key now)) = Some wc"
    and p: "acquire_pass key need now L = (Some (max wg wc), if max wg wc = 0 then granted key need now L else waited key need now L)"
    by (rule acquire_pass_cases[OF f])
  show ?thesis
  proof (cases "max wg wc = 0")
    case True
    then show ?thesis using f w p by (intro exI[of _ now] exI[of _ L]) simp
  next
    case False
    let ?t = "wake now (max wg wc)" and ?M = "waited key need now L"
    have t: "now + max wg wc \<le> ?t" using wake by blast
    have fM: "limiter_fits ?t ?M" using waited_fits[OF f] t fits_later unfolding limiter_fits_def by (meson add_leD1)
    have fg: "fits now (lm_global L)" using f by (simp add: limiter_fits_def)
    have "fst (wait_for need ?t (snd (wait_for need now (lm_global L)))) = Some 0"
      by (rule wait_is_enough[OF fg, of need wg]) (use w(1) t in \<open>simp_all add: prod_eq_iff\<close>)
    moreover have "fst (wait_for need ?t (snd (wait_for need now (conn_bucket L key now)))) = Some 0"
      by (rule wait_is_enough[OF limiter_fits_conn[OF f], of need key wc]) (use w(2) t in \<open>simp_all add: prod_eq_iff\<close>)
    ultimately have z: "fst (wait_for need ?t (lm_global ?M)) = Some 0" "fst (wait_for need ?t (conn_bucket ?M key ?t)) = Some 0"
      by (simp_all add: waited_def conn_bucket_def)
    obtain wg' wc' where w': "fst (wait_for need ?t (lm_global ?M)) = Some wg'" "fst (wait_for need ?t (conn_bucket ?M key ?t)) = Some wc'"
      and p': "acquire_pass key need ?t ?M = (Some (max wg' wc'), if max wg' wc' = 0 then granted key need ?t ?M else waited key need ?t ?M)"
      by (rule acquire_pass_cases[OF fM])
    have p2: "acquire_pass key need ?t ?M = (Some 0, granted key need ?t ?M)" using p' w' z by simp
    have p1: "acquire_pass key need now L = (Some (max wg wc), ?M)" using p False by (simp only: if_False)
    have "acquire_loop (Suc (Suc fuel)) wake key need now L = acquire_loop (Suc fuel) wake key need ?t ?M"
      by (simp only: acquire_loop.simps(2)[of "Suc fuel"] p1 prod.case option.case False if_False)
    also have "\<dots> = Some (Some ?t, granted key need ?t ?M)" by (simp add: p2)
    finally have "acquire_loop (Suc (Suc fuel)) wake key need now L = Some (Some ?t, granted key need ?t ?M)" .
    then show ?thesis using fM z t by (intro exI[of _ ?t] exI[of _ ?M]) simp
  qed
qed

section \<open>A run of requests\<close>

definition need_of :: "serve_request \<Rightarrow> rat" where "need_of q = of_nat (unat (sr_bytes q))"

definition total :: "serve_request list \<Rightarrow> rat" where "total qs = sum_list (map need_of qs)"

definition total_for :: "rstring \<Rightarrow> serve_request list \<Rightarrow> rat" where
  "total_for key qs = total (filter (\<lambda>q. sr_key q = key) qs)"

definition metered_limiter :: "u64 \<Rightarrow> u64 \<Rightarrow> nat \<Rightarrow> rat \<Rightarrow> (rstring \<Rightarrow> rat) \<Rightarrow> limiter \<Rightarrow> bool" where
  "metered_limiter g c since G K L \<longleftrightarrow> lm_per_conn_bps L = c
     \<and> metered (of_nat (unat g)) since G (lm_global L)
     \<and> (\<forall>key b. lm_per_conn L key = Some b \<longrightarrow> metered (of_nat (unat c)) since (K key) b)
     \<and> (\<forall>key. lm_per_conn L key = None \<longrightarrow> K key = 0)"

lemma metered_conn: "metered_limiter g c since G K L \<Longrightarrow> since \<le> now \<Longrightarrow> metered (of_nat (unat c)) since (K key) (conn_bucket L key now)"
  using metered_new[of since now c] by (auto simp: metered_limiter_def conn_bucket_def split: option.splits)

lemma metered_waited:
  assumes "limiter_fits now L" "metered_limiter g c since G K L" "since \<le> now"
  shows "metered_limiter g c since G K (waited key need now L)"
  using assms metered_wait[OF limiter_fits_conn[OF assms(1)] metered_conn[OF assms(2,3)], of key need]
    metered_wait[of now "lm_global L" "of_nat (unat g)" since G need]
  by (auto simp: metered_limiter_def waited_def limiter_fits_def)

lemma metered_granted:
  assumes f: "limiter_fits now L" and m: "metered_limiter g c since G K L" and s: "since \<le> now"
  shows "metered_limiter g c since (G + need) (K(key := K key + need)) (granted key need now L)"
proof -
  have r: "metered rate since G b \<Longrightarrow> fits now b \<Longrightarrow> metered rate since (G + need) (consume need (snd (wait_for need now b)))" for rate G b
    by (rule metered_consume[OF metered_wait]) (auto simp: fits_def)
  show ?thesis using m r[OF metered_conn[OF m s] limiter_fits_conn[OF f], of key] r[of "of_nat (unat g)" G "lm_global L"] f
    by (auto simp: metered_limiter_def granted_def limiter_fits_def)
qed

definition within_allowance :: "u64 \<Rightarrow> nat \<Rightarrow> rat \<Rightarrow> serve_request \<Rightarrow> bool" where
  "within_allowance bps since given q \<longleftrightarrow>
     bps = 0 \<or> given \<le> allowance (of_nat (unat bps)) (sr_time q - since) (need_of q)"

lemma granted_within:
  assumes f: "limiter_fits t L" and m: "metered_limiter g c since G K L" and s: "since \<le> t"
    and z: "fst (wait_for (need_of q) t (lm_global L)) = Some 0" "fst (wait_for (need_of q) t (conn_bucket L (sr_key q) t)) = Some 0"
  shows "within_allowance g since (G + need_of q) (q\<lparr>sr_time := t\<rparr>)"
    "within_allowance c since (K (sr_key q) + need_of q) (q\<lparr>sr_time := t\<rparr>)"
proof -
  have n: "need_of (q\<lparr>sr_time := t\<rparr>) = need_of q" by (simp add: need_of_def)
  have nz: "bps \<noteq> 0 \<Longrightarrow> (of_nat (unat bps) :: rat) \<noteq> 0" for bps :: u64 by (simp only: of_nat_eq_0_iff unat_eq_zero not_False_eq_True)
  show "within_allowance g since (G + need_of q) (q\<lparr>sr_time := t\<rparr>)"
    using grant_within_allowance[OF _ _ _ nz, where now = t and b = "lm_global L" and since = since and given = G
        and need = "need_of q" and b' = "snd (wait_for (need_of q) t (lm_global L))" and bps1 = g] f m z(1)
    by (auto simp: within_allowance_def n limiter_fits_def metered_limiter_def prod_eq_iff)
  show "within_allowance c since (K (sr_key q) + need_of q) (q\<lparr>sr_time := t\<rparr>)"
    using grant_within_allowance[OF limiter_fits_conn[OF f, of "sr_key q"] metered_conn[OF m s, of "sr_key q"] _ nz,
        where need = "need_of q" and b' = "snd (wait_for (need_of q) t (conn_bucket L (sr_key q) t))"] z(2)
    by (auto simp: within_allowance_def n prod_eq_iff)
qed

text \<open>Every grant is within both allowances, given what was given before.\<close>

fun all_within :: "u64 \<Rightarrow> u64 \<Rightarrow> nat \<Rightarrow> rat \<Rightarrow> (rstring \<Rightarrow> rat) \<Rightarrow> serve_request list \<Rightarrow> bool" where
  "all_within g c since G K [] = True"
| "all_within g c since G K (q # qs) =
     ((sr_bytes q \<noteq> 0 \<longrightarrow> within_allowance g since (G + need_of q) q \<and> within_allowance c since (K (sr_key q) + need_of q) q)
      \<and> all_within g c since (G + need_of q) (K(sr_key q := K (sr_key q) + need_of q)) qs)"

lemma all_within_prefix:
  "all_within g c since G K (as @ q # bs) \<Longrightarrow> sr_bytes q \<noteq> 0 \<Longrightarrow>
     within_allowance g since (G + total (as @ [q])) q \<and> within_allowance c since (K (sr_key q) + total_for (sr_key q) (as @ [q])) q"
proof (induction as arbitrary: G K)
  case Nil
  then show ?case by (simp add: total_def total_for_def)
next
  case (Cons a as)
  then have "all_within g c since (G + need_of a) (K(sr_key a := K (sr_key a) + need_of a)) (as @ q # bs)" by simp
  from Cons.IH[OF this Cons.prems(2)] show ?case by (auto simp: total_def total_for_def add.assoc)
qed

definition served :: "serve_request \<Rightarrow> serve_request \<Rightarrow> bool" where
  "served q r \<longleftrightarrow> sr_key r = sr_key q \<and> sr_bytes r = sr_bytes q \<and> sr_time q \<le> sr_time r"

definition nonempty :: "serve_request \<Rightarrow> bool" where "nonempty q \<longleftrightarrow> sr_bytes q \<noteq> 0"

lemma acquire_all_grants:
  assumes wake: "\<forall>t w. t + w \<le> wake t w"
  shows "\<lbrakk>limiter_fits now L; since \<le> now; metered_limiter g c since G K L; list_all (\<lambda>q. unat (sr_bytes q) \<le> 2 ^ 63) qs\<rbrakk> \<Longrightarrow>
    \<exists>gs L'. acquire_all (Suc (Suc fuel)) wake qs now L = Some (gs, L') \<and> list_all2 served qs gs
      \<and> sorted (map sr_time (filter nonempty gs)) \<and> list_all (\<lambda>q. now \<le> sr_time q) (filter nonempty gs)
      \<and> all_within g c since G K gs"
proof (induction qs arbitrary: now L G K)
  case Nil
  then show ?case by simp
next
  case (Cons q qs)
  show ?case
  proof (cases "sr_bytes q = 0")
    case True
    obtain gs L' where gs: "acquire_all (Suc (Suc fuel)) wake qs now L = Some (gs, L')" "list_all2 served qs gs"
      "sorted (map sr_time (filter nonempty gs))" "list_all (\<lambda>q. now \<le> sr_time q) (filter nonempty gs)"
      "all_within g c since G K gs" using Cons.IH[OF Cons.prems(1-3)] Cons.prems(4) by auto
    have "need_of q = 0" "served q q" "\<not> nonempty q" by (simp_all add: need_of_def served_def nonempty_def True)
    then show ?thesis using gs True by (intro exI[of _ "q # gs"] exI[of _ L']) simp
  next
    case False
    let ?now = "max now (sr_time q)"
    have f: "limiter_fits ?now L" using Cons.prems(1) fits_later unfolding limiter_fits_def by (meson max.cobounded1)
    obtain t M where a: "acquire_loop (Suc (Suc fuel)) wake (sr_key q) (need_of q) ?now L = Some (Some t, granted (sr_key q) (need_of q) t M)"
      and M: "M = L \<and> t = ?now \<or> M = waited (sr_key q) (need_of q) ?now L \<and> ?now \<le> t"
      and fM: "limiter_fits t M" and z: "fst (wait_for (need_of q) t (lm_global M)) = Some 0"
      "fst (wait_for (need_of q) t (conn_bucket M (sr_key q) t)) = Some 0"
      using acquire_loop_grants[OF f wake, of fuel "sr_key q" "need_of q"] by (elim exE conjE) (rule that)
    have t: "now \<le> t" "sr_time q \<le> t" "since \<le> t" using M Cons.prems(2) by auto
    have mM: "metered_limiter g c since G K M"
      using M metered_waited[OF f Cons.prems(3), of "sr_key q" "need_of q"] Cons.prems(2,3) by (auto simp: le_max_iff_disj)
    have n: "0 \<le> need_of q" "need_of q \<le> 2 ^ 63"
    proof -
      have "(of_nat (unat (sr_bytes q)) :: rat) \<le> of_nat (2 ^ 63)" using Cons.prems(4) by (intro of_nat_mono) simp
      then show "0 \<le> need_of q" "need_of q \<le> 2 ^ 63" unfolding need_of_def by (simp_all only: of_nat_0_le_iff of_nat_power of_nat_numeral)
    qed
    obtain gs L' where gs: "acquire_all (Suc (Suc fuel)) wake qs t (granted (sr_key q) (need_of q) t M) = Some (gs, L')"
      "list_all2 served qs gs" "sorted (map sr_time (filter nonempty gs))" "list_all (\<lambda>q. t \<le> sr_time q) (filter nonempty gs)"
      "all_within g c since (G + need_of q) (K(sr_key q := K (sr_key q) + need_of q)) gs"
      using Cons.IH[OF granted_fits[OF fM n z] t(3) metered_granted[OF fM mM t(3)]] Cons.prems(4)
      by (auto simp del: fun_upd_apply)
    have "acquire (Suc (Suc fuel)) wake (sr_key q) (sr_bytes q) ?now L = Some (Some t, granted (sr_key q) (need_of q) t M)"
      using False a by (simp add: acquire_def need_of_def del: acquire_loop.simps)
    then have "acquire_all (Suc (Suc fuel)) wake (q # qs) now L = Some (q\<lparr>sr_time := t\<rparr> # gs, L')"
      using False gs(1) by simp
    moreover have "served q (q\<lparr>sr_time := t\<rparr>)" "nonempty (q\<lparr>sr_time := t\<rparr>)" using t False by (simp_all add: served_def nonempty_def)
    moreover have "list_all (\<lambda>q. now \<le> sr_time q) (filter nonempty gs)" using gs(4) t(1) by (auto simp: list_all_iff)
    moreover have "need_of (q\<lparr>sr_time := t\<rparr>) = need_of q" by (simp add: need_of_def)
    moreover note granted_within[OF fM mM t(3) z]
    ultimately show ?thesis using gs(2-5) t(1)
      by (intro exI[of _ "q\<lparr>sr_time := t\<rparr> # gs"] exI[of _ L'] conjI) (auto simp: list_all_iff)
  qed
qed

lemma new_limiter_grants:
  assumes "\<forall>t w. t + w \<le> wake t w" and "list_all (\<lambda>q. unat (sr_bytes q) \<le> 2 ^ 63) qs"
  shows "\<exists>gs L'. acquire_all (Suc (Suc fuel)) wake qs t0 (limiter_new g c t0) = Some (gs, L') \<and> list_all2 served qs gs
      \<and> sorted (map sr_time (filter nonempty gs)) \<and> list_all (\<lambda>q. t0 \<le> sr_time q) (filter nonempty gs)
      \<and> all_within g c t0 0 (\<lambda>key. 0) gs"
proof (rule acquire_all_grants[OF assms(1) _ order_refl _ assms(2)])
  show "limiter_fits t0 (limiter_new g c t0)" by (simp add: limiter_fits_def limiter_new_def fits_new)
  show "metered_limiter g c t0 0 (\<lambda>key. 0) (limiter_new g c t0)"
    using metered_new[OF order_refl, of g t0] by (simp add: metered_limiter_def limiter_new_def)
qed

section \<open>Properties\<close>


abbreviation example_requests :: "serve_request list" where
  "example_requests \<equiv> [\<lparr>sr_key = [1], sr_bytes = 10, sr_time = 0\<rparr>, \<lparr>sr_key = [1], sr_bytes = 30, sr_time = 0\<rparr>,
     \<lparr>sr_key = [2], sr_bytes = 5, sr_time = 0\<rparr>]"




end
