(* ===== verification/Download_Live.thy ===== *)
theory Download_Live
  imports Download
begin

text \<open>
  That an honest download succeeds: with holders that serve the resource, a download into memory,
  fresh or resumed from a checkpoint, returns success with exactly its bytes, whatever the window,
  the selector and the order in which the fetches finish. The other theories say what a success
  means; this one says when there is one.
\<close>

section \<open>Filling\<close>

lemma fill_loop_invariant:
  assumes "\<And>J i peer. \<lbrakk>P J; next_pending J = Some i; pick_from_plan D J sp i = Some peer;
      length (jb_inflight J) < max_concurrency (dp_config D)\<rbrakk> \<Longrightarrow> P (start_fetch i peer J)"
  shows "P J \<Longrightarrow> P (fill_loop D sp J)"
  using assms
proof (induction D sp J rule: fill_loop.induct)
  case (1 D sp J)
  then show ?case by (subst fill_loop.simps) (auto split: option.splits)
qed

lemma start_fetch_inflight [simp]: "jb_inflight (start_fetch i peer J) = jb_inflight J @ [fetch_future J i peer]"
  by (simp add: start_fetch_def)

lemma fill_loop_assigns:
  assumes "next_pending J = Some i" and "pick_from_plan D J sp i = Some peer"
    and "length (jb_inflight J) < max_concurrency (dp_config D)"
  shows "jb_inflight (fill_loop D sp J) \<noteq> []"
proof -
  have "fill_loop D sp J = fill_loop D sp (start_fetch i peer J)"
    using assms by (subst fill_loop.simps) simp
  then show ?thesis using fill_loop_invariant[of "\<lambda>K. jb_inflight K \<noteq> []" D sp "start_fetch i peer J"] by simp
qed

lemma start_fetch_done:
  "next_pending J = Some i \<Longrightarrow> done_set (jb_range_state (start_fetch i peer J)) = done_set (jb_range_state J)"
  by (auto simp: done_set_def start_fetch_def next_pending_def position_Some_iff nth_list_update)

lemma accept_range_succeeds:
  assumes "sk_write_at (dp_sink D) (r_offset r) bs (jb_sink J) = (Ok (), s)"
    and "ss_save (dp_store D) (mark_done i (jb_resume J)) (jb_store J) = (Ok (), t)"
  shows "\<exists>J'. accept_range D i peer el r bs J = (Ok (), J') \<and> jb_providers J' = jb_providers J
     \<and> jb_paused J' = jb_paused J \<and> jb_tracker J' = record_success peer (jb_tracker J)
     \<and> (\<exists>out. jb_world J' = sel_record (en_selector (dp_env D)) out (jb_world J))"
  using assms by (auto simp: accept_range_def Let_def report_outcome_def checkpoint_def emit_def)

section \<open>The resource in pieces\<close>

definition piece_at :: "bytes \<Rightarrow> range \<Rightarrow> u64 \<times> bytes" where
  "piece_at bs r = (r_offset r, slice bs (unat (r_offset r)) (unat (r_length r)))"

lemma piece_at_simps [simp]:
  "fst (piece_at bs r) = r_offset r" "snd (piece_at bs r) = slice bs (unat (r_offset r)) (unat (r_length r))"
  by (simp_all add: piece_at_def)

lemma contig_Cons: "contig p (t # ts) \<longleftrightarrow> unat (fst t) = p \<and> contig (p + length (snd t)) ts"
  by (cases t) simp

lemma tiles_end_total:
  assumes "tiles L i k rs" "r \<in> set rs"
  shows "unat (r_offset r) + unat (r_length r) \<le> sum_list (map unat (chunk_lens L))"
  using assms tiles_nth(6)[OF assms(1)] start_of_le_total by (fastforce simp: in_set_conv_nth)

lemma piece_length:
  assumes "tiles L i k rs" "r \<in> set rs" "length bs = sum_list (map unat (chunk_lens L))"
  shows "length (snd (piece_at bs r)) = unat (r_length r)"
  using tiles_end_total[OF assms(1,2)] assms(3) by (simp add: piece_at_def)

lemma pieces_concat:
  "\<lbrakk>length bs = sum_list (map unat (chunk_lens L)); tiles L i k rs; i \<le> chunk_count L\<rbrakk>
   \<Longrightarrow> concat (map (\<lambda>r. snd (piece_at bs r)) rs) = drop (start_of (chunk_lens L) i) bs"
proof (induction L i k rs rule: tiles.induct)
  case (1 L i k)
  then show ?case by (simp add: start_of_full chunk_count_def)
next
  case (2 L i k r rs)
  let ?s = "start_of (chunk_lens L) i"
  have e: "start_of (chunk_lens L) (chunk_end r) = ?s + unat (r_length r)" using 2(3) by auto
  have "concat (map (\<lambda>r. snd (piece_at bs r)) rs) = drop (?s + unat (r_length r)) bs"
    using 2(1)[OF 2(2)] 2(3) by (auto simp: e)
  moreover have "snd (piece_at bs r) = take (unat (r_length r)) (drop ?s bs)" using 2 by (simp add: piece_at_def slice_def)
  ultimately show ?case by (simp add: add.commute flip: drop_drop)
qed

lemma pieces_contig:
  "\<lbrakk>length bs = sum_list (map unat (chunk_lens L)); tiles L i k rs\<rbrakk>
   \<Longrightarrow> contig (start_of (chunk_lens L) i) (map (piece_at bs) rs)"
proof (induction L i k rs rule: tiles.induct)
  case (2 L i k r rs)
  have "length (snd (piece_at bs r)) = unat (r_length r)"
    using piece_length[OF 2(3) _ 2(2), of r] by simp
  moreover have "start_of (chunk_lens L) i + unat (r_length r) = start_of (chunk_lens L) (chunk_end r)"
    "unat (r_offset r) = start_of (chunk_lens L) i" using 2(3) by auto
  moreover have "contig (start_of (chunk_lens L) (chunk_end r)) (map (piece_at bs) rs)" using 2 by simp
  ultimately show ?case by (simp add: contig_Cons del: length_slice)
qed simp

lemma start_of_strict:
  assumes "0 \<notin> set lens" "i < j" "j \<le> length lens"
  shows "start_of lens i < start_of lens j"
proof -
  have "lens ! i \<noteq> 0" using assms by (metis less_le_trans nth_mem)
  then have "start_of lens i < start_of lens (Suc i)" using assms by (simp add: start_of_Suc unat_gt_0)
  also have "\<dots> \<le> start_of lens j" using assms(2) by (intro start_of_mono) simp
  finally show ?thesis .
qed

lemma tiles_distinct:
  assumes t: "tiles L i k rs" and p: "0 \<notin> set (chunk_lens L)"
  shows "distinct (map r_offset rs)"
proof -
  have pos: "0 < unat (r_length (rs ! m))" if "m < length rs" for m
  proof -
    have "start_of (chunk_lens L) (chunk_start (rs ! m)) < start_of (chunk_lens L) (chunk_end (rs ! m))"
      using start_of_strict[OF p] tiles_nth(3,4)[OF t that] by (simp add: chunk_count_def)
    then show ?thesis using tiles_nth(5,6)[OF t that] by simp
  qed
  have "r_offset (rs ! m) \<noteq> r_offset (rs ! n)" if "m < n" "n < length rs" for m n
    using tiles_apart[OF t that] pos[of m] that by auto
  then show ?thesis by (auto simp: distinct_conv_nth) (metis nat_neq_iff)
qed

lemma plan_pieces_ok:
  assumes "layout_ok L" "0 \<notin> set (chunk_lens L)" "length bs = sum_list (map unat (chunk_lens L))"
  shows "pieces_ok (map (piece_at bs) (plan_ranges L win))"
    and "concat (map (\<lambda>r. snd (piece_at bs r)) (plan_ranges L win)) = bs"
proof -
  note t = plan_ranges_tiles[OF assms(1), of win]
  show c: "concat (map (\<lambda>r. snd (piece_at bs r)) (plan_ranges L win)) = bs"
    using pieces_concat[OF assms(3) t] by simp
  have "contig 0 (map (piece_at bs) (plan_ranges L win))" using pieces_contig[OF assms(3) t] by simp
  moreover have "map fst (map (piece_at bs) (plan_ranges L win)) = map r_offset (plan_ranges L win)"
    by simp
  moreover have "pieces_len (map (piece_at bs) (plan_ranges L win)) < 2 ^ 64"
    using c layout_ok_bound[OF assms(1), of "chunk_count L"] assms(3)
    by (simp add: pieces_len_def start_of_full chunk_count_def comp_def)
  ultimately show "pieces_ok (map (piece_at bs) (plan_ranges L win))"
    using tiles_distinct[OF t assms(2)] by (simp only: pieces_ok_def)
qed

lemma tiles_cover:
  "\<lbrakk>tiles L i k rs; start_of (chunk_lens L) i \<le> q; q < sum_list (map unat (chunk_lens L))\<rbrakk>
   \<Longrightarrow> \<exists>r \<in> set rs. unat (r_offset r) \<le> q \<and> q < unat (r_offset r) + unat (r_length r)"
proof (induction L i k rs rule: tiles.induct)
  case (1 L i k)
  then show ?case by (simp add: start_of_full chunk_count_def)
next
  case (2 L i k r rs)
  show ?case
  proof (cases "q < unat (r_offset r) + unat (r_length r)")
    case True
    then show ?thesis using 2 by auto
  next
    case False
    then show ?thesis using 2 by auto
  qed
qed

lemma regions_cover:
  assumes "tiles L 0 0 rs" "q < sum_list (map unat (chunk_lens L))"
  shows "q \<in> regions rs {..< length rs}"
  using tiles_cover[OF assms(1) _ assms(2)] by (fastforce simp: regions_def region_def in_set_conv_nth)

section \<open>Honest holders\<close>

text \<open>
  The commitment \<open>C\<close> describes the bytes \<open>bs\<close> under the root of the content asked for: the layout is
  one the client accepts, with no empty chunk, and the proof check accepts the digest.
\<close>

definition honest_content ::
    "host \<Rightarrow> 'h hash_ops \<Rightarrow> proof_verifier \<Rightarrow> download_config \<Rightarrow> content_id \<Rightarrow> resource_commitment \<Rightarrow> bytes \<Rightarrow> bool" where
  "honest_content H HO PV cf c C bs \<longleftrightarrow>
     from_first_frame_bounded H (c_total_length C) (chunk_lens (c_layout C)) (c_root C) (c_inclusion_proof C)
       (max_resource_size cf) = Ok C
     \<and> chunk_lens (c_layout C) \<noteq> [] \<and> 0 \<notin> set (chunk_lens (c_layout C))
     \<and> length bs = unat (c_total_length C) \<and> PV (h_digest HO bs) (c_inclusion_proof C) (c_root C)
     \<and> check_declared_root (content_root_hex c) (c_root C) = Ok () \<and> (\<forall>s. c \<noteq> StoreContent s)"

definition in_time :: "download_config \<Rightarrow> nat \<Rightarrow> bool" where
  "in_time cf elapsed \<longleftrightarrow> (case range_timeout cf of None \<Rightarrow> True | Some l \<Rightarrow> elapsed \<le> l)"

definition declares :: "resource_commitment \<Rightarrow> range_meta \<Rightarrow> bool" where
  "declares C m \<longleftrightarrow> rm_total_length m = Some (c_total_length C) \<and> rm_chunk_lens m = Some (chunk_lens (c_layout C))
     \<and> rm_chunk_count m = Some (len64 (chunk_lens (c_layout C))) \<and> rm_root m = c_root C
     \<and> rm_inclusion_proof m = c_inclusion_proof C"

text \<open>A selector that chooses among what it is offered; \<open>W\<close> are the states of the world it keeps to.\<close>

definition picks_offered :: "('w \<Rightarrow> bool) \<Rightarrow> 'w selector_ops \<Rightarrow> bool" where
  "picks_offered W S \<longleftrightarrow>
     (\<forall>req w. W w \<longrightarrow> W (snd (sel_select S req w))
        \<and> (sr_candidates req \<noteq> [] \<longrightarrow>
             ordered (fst (sel_select S req w)) \<noteq> []
             \<and> set (ordered (fst (sel_select S req w))) \<subseteq> cr_peer_id ` set (sr_candidates req)
             \<and> (\<forall>i peer. map_of (assignments (fst (sel_select S req w))) i = Some peer \<longrightarrow> peer \<in> cr_peer_id ` set (sr_candidates req))))
     \<and> (\<forall>out w. W w \<longrightarrow> W (sel_record S out w))"

text \<open>
  In every state \<open>W\<close> of the world, and these are kept, the holders \<open>ps\<close> are found, confirm that they
  hold the content, and declare \<open>C\<close> when probed.
\<close>

definition honest_env ::
    "('w \<Rightarrow> bool) \<Rightarrow> 'w env \<Rightarrow> download_config \<Rightarrow> content_id \<Rightarrow> resource_commitment \<Rightarrow> provider_record list \<Rightarrow> bool" where
  "honest_env W E cf c C ps \<longleftrightarrow> ps \<noteq> []
     \<and> (\<forall>w. W w \<longrightarrow> fst (en_find_providers E c w) = Ok ps \<and> W (snd (en_find_providers E c w)))
     \<and> (\<forall>p item w. p \<in> set ps \<longrightarrow> W w \<longrightarrow>
          fst (en_availability E p [item] w) = Ok [True] \<and> W (snd (en_availability E p [item] w)))
     \<and> (\<forall>p req w. p \<in> set ps \<longrightarrow> range_request_for c 0 1 False = Ok req \<longrightarrow> W w \<longrightarrow>
          W (snd (en_fetch_range E p req w))
          \<and> (\<exists>elapsed f. fst (en_fetch_range E p req w) = (elapsed, Ok f)
               \<and> in_time cf elapsed \<and> declares C (fetched_meta f)))
     \<and> (\<forall>w. W w \<longrightarrow> W (snd (en_turn E w)))
     \<and> picks_offered W (en_selector E)"

text \<open>A turn in which one of the fetches in flight comes back with the bytes it asked for.\<close>

definition honest_turn :: "download_config \<Rightarrow> resource_commitment \<Rightarrow> bytes \<Rightarrow> turn \<Rightarrow> ('s, 't, 'h, 'w) job \<Rightarrow> bool" where
  "honest_turn cf C bs tn J \<longleftrightarrow>
     (case tn of
        FetchDone k elapsed (Ok f) \<Rightarrow> k < length (jb_inflight J) \<and> in_time cf elapsed
          \<and> fetched_bytes f = snd (piece_at bs (jb_ranges J ! fj_range (jb_inflight J ! k)))
          \<and> check_consistent C (rm_total_length (fetched_meta f)) (rm_chunk_lens (fetched_meta f)) (rm_root (fetched_meta f)) = Ok ()
      | _ \<Rightarrow> False)"

text \<open>The first \<open>n\<close> turns of the scheduler from \<open>J\<close> satisfy \<open>P\<close>.\<close>

fun turns_meet ::
    "(turn \<Rightarrow> ('s, 't, 'h, 'w) job \<Rightarrow> bool) \<Rightarrow> nat \<Rightarrow> ('s, 't, 'h, 'w) deps \<Rightarrow> ('s, 't, 'h, 'w) job \<Rightarrow> bool" where
  "turns_meet P 0 D J = True"
| "turns_meet P (Suc n) D J =
     (case loop_top D J of
        (Await wakeup, J1) \<Rightarrow>
          (case next_turn D J1 of
             (tn, J2) \<Rightarrow> P tn J2
               \<and> (case take_turn D wakeup tn J2 of (Ok _, J3) \<Rightarrow> turns_meet P n D J3 | _ \<Rightarrow> True))
      | _ \<Rightarrow> True)"

definition honest_turns :: "nat \<Rightarrow> ('s, 't, 'h, 'w) deps \<Rightarrow> resource_commitment \<Rightarrow> bytes \<Rightarrow> ('s, 't, 'h, 'w) job \<Rightarrow> bool" where
  "honest_turns n D C bs J = turns_meet (honest_turn (dp_config D) C bs) n D J"

text \<open>
  A checkpoint and a staging area to resume from. The staged bytes of a range the checkpoint claims
  are either not all there or right, unless the checkpoint is for another layout and is dropped.
\<close>

definition staged_truth :: "resource_commitment \<Rightarrow> u64 \<Rightarrow> bytes \<Rightarrow> nat set \<Rightarrow> bytes \<Rightarrow> bool" where
  "staged_truth C win bs M stg \<longleftrightarrow>
     (\<forall>i \<in> M. i < length (plan_ranges (c_layout C) win) \<longrightarrow>
        (let r = plan_ranges (c_layout C) win ! i
         in unat (r_offset r) + unat (r_length r) \<le> length stg
              \<longrightarrow> slice stg (unat (r_offset r)) (unat (r_length r)) = slice bs (unat (r_offset r)) (unat (r_length r))))"

definition resume_ok :: "host \<Rightarrow> resource_commitment \<Rightarrow> u64 \<Rightarrow> bytes \<Rightarrow> download_state \<Rightarrow> mem_sink \<Rightarrow> bool" where
  "resume_ok H C win bs st s \<longleftrightarrow> mem_valid H s
     \<and> (st_chunk_lens st \<in> {[], chunk_lens (c_layout C)} \<longrightarrow> staged_truth C win bs (st_done_ranges st) (buf s))"

section \<open>The scheduler among honest holders\<close>

locale honest_download = streaming_hash HO
  for HO :: "'h hash_ops" +
  fixes W :: "'w \<Rightarrow> bool" and H :: host and PV :: proof_verifier and E :: "'w env" and cf :: download_config and T :: "'t state_ops"
    and c :: content_id and C :: resource_commitment and bs :: bytes and ps :: "provider_record list"
  assumes content: "honest_content H HO PV cf c C bs"
    and env: "honest_env W E cf c C ps"
    and caps: "1 \<le> max_concurrency cf" "1 \<le> max_inflight_per_source cf"
    and fits: "unat (c_total_length C) \<le> usize_max H" "max_resource_chunk_count H \<le> usize_max H" "usize_max H < 2 ^ 64"
    and saves: "\<exists>t'. ss_save T st t = (Ok (), t')"
    and whole: "verify_whole_resource cf"
begin

definition D :: "(mem_sink, 't, 'h, 'w) deps" where
  "D = downloader_new (in_memory_sink H) T (with_proof_verifier H HO PV) HO E cf H"

lemma D_simps [simp]:
  "dp_sink D = in_memory_sink H" "dp_store D = T" "dp_verifier D = with_proof_verifier H HO PV"
  "dp_hash D = HO" "dp_env D = E" "dp_config D = cf" "dp_host D = H"
  by (simp_all add: D_def downloader_new_def)

definition plan :: "range list" where "plan = plan_ranges (c_layout C) (window cf)"

lemma layout: "layout_ok (c_layout C)" "length bs = sum_list (map unat (chunk_lens (c_layout C)))"
  "0 \<notin> set (chunk_lens (c_layout C))" "chunk_lens (c_layout C) \<noteq> []"
  "unat (c_total_length C) = sum_list (map unat (chunk_lens (c_layout C)))"
  "commitment_ok C"
  using content from_first_frame_OkD[of H "c_total_length C" "chunk_lens (c_layout C)" "c_root C" "c_inclusion_proof C"
      "max_resource_size cf" C] by (auto simp: honest_content_def commitment_ok_def)

lemma plan_tiles: "tiles (c_layout C) 0 0 plan"
  unfolding plan_def by (rule plan_ranges_tiles[OF layout(1)])

lemma plan_nonempty: "plan \<noteq> []"
proof
  assume "plan = []"
  then show False using plan_tiles layout(4) by (simp add: chunk_count_def)
qed

lemma plan_pieces: "pieces_ok (map (piece_at bs) plan)" "concat (map (\<lambda>r. snd (piece_at bs r)) plan) = bs"
  unfolding plan_def using plan_pieces_ok[OF layout(1,3,2)] by blast+

text \<open>What of the resource is staged and hashed: exactly the ranges that are done.\<close>

definition assembled :: "(mem_sink, 't, 'h, 'w) job \<Rightarrow> bool" where
  "assembled J \<longleftrightarrow>
     (\<exists>h. jb_hasher J = Some h
        \<and> settled HO (map (piece_at bs) plan) ((\<lambda>i. piece_at bs (plan ! i)) ` done_set (jb_range_state J)) h)
     \<and> mem_valid H (jb_sink J)
     \<and> (\<forall>q \<in> regions plan (done_set (jb_range_state J)). q < length (buf (jb_sink J)) \<and> buf (jb_sink J) ! q = bs ! q)"

text \<open>A fetch of a known holder that asks for the range as planned.\<close>

definition as_planned :: "nat \<Rightarrow> fetch_job \<Rightarrow> bool" where
  "as_planned i fj \<longleftrightarrow> (\<exists>p \<in> set ps. fj_provider fj = Some p)
     \<and> fj_request fj = range_request_for c (r_offset (plan ! i)) (r_length (plan ! i)) True"

definition untroubled :: "(mem_sink, 't, 'h, 'w) job \<Rightarrow> bool" where
  "untroubled J \<longleftrightarrow> W (jb_world J) \<and> jb_commitment J = Some C \<and> jb_content J = c \<and> jb_ranges J = plan \<and> jb_providers J = ps
     \<and> \<not> jb_paused J \<and> jb_total_failures J = 0 \<and> (\<forall>p now. is_available (jb_tracker J) p now)
     \<and> list_all (\<lambda>fj. as_planned (fj_range fj) fj) (jb_inflight J)"

definition live :: "(mem_sink, 't, 'h, 'w) job \<Rightarrow> bool" where
  "live J \<longleftrightarrow> book_ok D J \<and> untroubled J \<and> assembled J"

lemma assembled_cong:
  "\<lbrakk>jb_hasher J' = jb_hasher J; jb_sink J' = jb_sink J; done_set (jb_range_state J') = done_set (jb_range_state J)\<rbrakk>
   \<Longrightarrow> assembled J' = assembled J"
  by (simp add: assembled_def)

lemma live_same:
  "\<lbrakk>same_book J J'; same_data J J'; jb_providers J' = jb_providers J; jb_paused J' = jb_paused J; jb_tracker J' = jb_tracker J; W (jb_world J')\<rbrakk>
   \<Longrightarrow> live J \<Longrightarrow> live J'"
  using book_ok_same[of J J' D] assembled_cong[of J' J]
  by (simp add: live_def untroubled_def same_book_def same_data_def)

definition offers :: "select_plan \<Rightarrow> bool" where
  "offers sp \<longleftrightarrow> ordered sp \<noteq> [] \<and> set (ordered sp) \<subseteq> provider_peer_id ` set ps
     \<and> (\<forall>i peer. map_of (assignments sp) i = Some peer \<longrightarrow> peer \<in> provider_peer_id ` set ps)"

lemma ask_selector_live:
  assumes l: "live J" and a: "ask_selector D J = (sp, J1)" shows "live J1" "offers sp"
proof -
  have av: "filter (\<lambda>p. is_available (jb_tracker J) (provider_peer_id p) (en_now E (jb_world J))) ps = ps"
    using l by (simp add: live_def untroubled_def)
  define cs where "cs = map (\<lambda>p. candidate_ref_new (provider_peer_id p) (map (display_addr (en_ips E)) (addresses p))) ps"
  define req where "req = \<lparr>sr_content_key = jb_key J, sr_candidates = cs, sr_ranges_needed = pending_count J,
      sr_inflight = sum_list (map snd (jb_inflight_per_source J))\<rparr>"
  have "jb_providers J = ps" using l by (simp add: live_def untroubled_def)
  then have "ask_selector D J = (case sel_select (en_selector E) req (jb_world J) of (sp, w) \<Rightarrow> (sp, J\<lparr>jb_world := w\<rparr>))"
    using av by (simp add: ask_selector_def Let_def req_def cs_def)
  then have sp: "sp = fst (sel_select (en_selector E) req (jb_world J))"
    and J1: "J1 = J\<lparr>jb_world := snd (sel_select (en_selector E) req (jb_world J))\<rparr>" using a by (auto split: prod.splits)
  have w: "W (jb_world J)" "W (jb_world J1)"
    using l env by (simp_all add: J1 live_def untroubled_def honest_env_def picks_offered_def)
  then show "live J1" using l live_same[of J J1] by (simp add: J1 same_book_def same_data_def)
  have req: "cr_peer_id ` set (sr_candidates req) = provider_peer_id ` set ps" "sr_candidates req \<noteq> []"
    using env by (simp_all add: req_def cs_def candidate_ref_new_def image_image honest_env_def)
  show "offers sp" using env req w(1) unfolding sp honest_env_def picks_offered_def offers_def by metis
qed

lemma pick_offered: "offers sp \<Longrightarrow> pick_from_plan D J sp i = Some peer \<Longrightarrow> peer \<in> provider_peer_id ` set ps"
  by (auto simp: pick_from_plan_def offers_def find_Some_iff split: option.splits if_splits)

lemma request_ok: "is_ok (range_request_for c off n skip)"
  using content by (auto simp: range_request_for_def honest_content_def split: content_id.splits)

lemma fetch_future_honest:
  assumes "untroubled J" "peer \<in> provider_peer_id ` set ps"
  shows "fj_range (fetch_future J i peer) = i \<and> as_planned i (fetch_future J i peer)"
proof -
  have "find (\<lambda>p. provider_peer_id p = peer) ps \<noteq> None" using assms(2) by (auto simp: find_None_iff)
  then obtain p where p: "find (\<lambda>p. provider_peer_id p = peer) ps = Some p" by blast
  then have "p \<in> set ps" by (auto simp: find_Some_iff)
  then show ?thesis using assms(1) p by (simp add: fetch_future_def Let_def untroubled_def as_planned_def)
qed

lemma start_fetch_live:
  assumes l: "live J" and i: "next_pending J = Some i" and p: "pick_from_plan D J sp i = Some peer" "offers sp"
    and room: "length (jb_inflight J) < max_concurrency (dp_config D)"
  shows "live (start_fetch i peer J)"
proof -
  let ?J = "start_fetch i peer J"
  have "book_ok D ?J" using l start_fetch_book[OF _ i pick_under_cap[OF p(1)] room] by (simp add: live_def)
  moreover have "assembled ?J"
    using l assembled_cong[of ?J J] start_fetch_done[OF i] by (simp add: live_def start_fetch_def)
  moreover have u: "untroubled J" using l by (simp add: live_def)
  then have "untroubled ?J"
    using fetch_future_honest[OF u pick_offered[OF p(2,1)]] by (simp add: untroubled_def start_fetch_def)
  ultimately show ?thesis by (simp add: live_def)
qed

text \<open>Filling keeps the job live and, while a range is left, leaves a fetch in flight.\<close>

lemma fill_live:
  assumes "live J" shows "live (fill D J)" "done_set (jb_range_state (fill D J)) = done_set (jb_range_state J)"
    "jb_inflight (fill D J) = [] \<Longrightarrow> all_done (fill D J)"
proof -
  obtain sp J1 where a: "ask_selector D J = (sp, J1)" by fastforce
  note a1 = ask_selector_live[OF assms a]
  have f: "fill D J = fill_loop D sp J1" by (simp add: fill_def a)
  show K: "live (fill D J)" unfolding f
    by (rule fill_loop_invariant[where P = live]) (use a1 start_fetch_live in auto)
  have b: "book_ok D (fill D J)" "untroubled (fill D J)" using K by (simp_all add: live_def)
  have "\<not> jb_paused J" using assms by (simp add: live_def untroubled_def)
  then show "done_set (jb_range_state (fill D J)) = done_set (jb_range_state J)"
    using filled_book_data[of D J] by (simp add: filled_def)
  assume e: "jb_inflight (fill D J) = []"
  have nf: "next_pending J1 = None \<or> jb_inflight J1 \<noteq> []"
  proof (rule ccontr)
    assume c: "\<not> ?thesis"
    then obtain i where i: "next_pending J1 = Some i" "jb_inflight J1 = []" by auto
    have "under_cap D J1 peer" for peer
      using a1(1) i caps by (simp add: live_def book_ok_def under_cap_def in_flight_by_def)
    then have "pick_from_plan D J1 sp i \<noteq> None"
      using a1(2) by (cases "ordered sp") (simp_all add: pick_from_plan_def offers_def split: option.split)
    then obtain peer where "pick_from_plan D J1 sp i = Some peer" by blast
    then show False using fill_loop_assigns[OF i(1), of D sp peer] i caps e f by simp
  qed
  have "jb_inflight J1 \<noteq> [] \<Longrightarrow> jb_inflight (fill D J) \<noteq> []"
    unfolding f by (rule fill_loop_invariant) auto
  then have n: "next_pending J1 = None" "jb_inflight J1 = []" using nf e by auto
  then have J1: "fill D J = J1" unfolding f by (subst fill_loop.simps) simp
  have len: "length (jb_range_state J1) = length plan" using b by (simp add: J1 book_ok_def untroubled_def)
  have "jb_range_state J1 ! i = Done" if "i < length (jb_range_state J1)" for i
  proof (cases "jb_range_state J1 ! i")
    case Pending
    then show ?thesis using n(1) that by (auto simp: next_pending_def position_None_iff)
  next
    case (InFlight peer)
    then show ?thesis using b(1) n(2) that by (auto simp: J1 book_ok_def mirror_def)
  qed simp
  then show "all_done (fill D J)"
    using len plan_nonempty unfolding J1 all_done_def list_all_length by auto
qed

text \<open>The top of the loop returns when every range is done, and waits for a fetch otherwise.\<close>

lemma all_done_inflight: "live J \<Longrightarrow> all_done J \<Longrightarrow> jb_inflight J = []"
proof (rule ccontr)
  assume a: "live J" "all_done J" "jb_inflight J \<noteq> []"
  then obtain fj where fj: "fj \<in> set (jb_inflight J)" by (cases "jb_inflight J") auto
  have "mirror (jb_range_state J) (jb_inflight J)" using a by (simp add: live_def book_ok_def)
  then have "fj_range fj < length (jb_range_state J)" "jb_range_state J ! fj_range fj = InFlight (fj_peer fj)"
    using fj unfolding mirror_def by blast+
  then show False using a(2) by (simp add: all_done_def list_all_length)
qed

lemma loop_top_live:
  assumes "live J" and K: "K = fill D J"
  shows "loop_top D J = (if all_done K then (Return (Ok ()), K) else (Await None, K))"
proof -
  note f = fill_live[OF assms(1), folded K]
  have u: "\<not> jb_paused J" "jb_total_failures K = 0" using assms(1) f(1) by (simp_all add: live_def untroubled_def)
  then show ?thesis using all_done_inflight[OF f(1)] f(3) K by (auto simp: loop_top_def Let_def)
qed

lemma range_fits:
  assumes "i < length plan"
  shows "unat (r_offset (plan ! i)) + unat (r_length (plan ! i)) \<le> usize_max H"
    "length (snd (piece_at bs (plan ! i))) = unat (r_length (plan ! i))" "0 < unat (r_length (plan ! i))"
    "vec_ok (snd (piece_at bs (plan ! i)))"
proof -
  have m: "plan ! i \<in> set plan" using assms by simp
  show "unat (r_offset (plan ! i)) + unat (r_length (plan ! i)) \<le> usize_max H"
    using tiles_end_total[OF plan_tiles m] layout(5) fits(1) by simp
  show l: "length (snd (piece_at bs (plan ! i))) = unat (r_length (plan ! i))"
    by (rule piece_length[OF plan_tiles m layout(2)])
  show "vec_ok (snd (piece_at bs (plan ! i)))" unfolding l using unat_bound[of "r_length (plan ! i)"] by simp
  note t = tiles_nth[OF plan_tiles assms]
  show "0 < unat (r_length (plan ! i))"
    using start_of_strict[OF layout(3), of "chunk_start (plan ! i)" "chunk_end (plan ! i)"] t(3,4,6) t(5)
    by (simp add: chunk_count_def)
qed

text \<open>The bytes of a planned range pass every check, and are placed where the resource has them.\<close>

lemma honest_range_verified:
  assumes "i < length plan" "fetched_bytes f = snd (piece_at bs (plan ! i))"
    "check_consistent C (rm_total_length (fetched_meta f)) (rm_chunk_lens (fetched_meta f)) (rm_root (fetched_meta f)) = Ok ()"
  shows "verify_fetched D C (plan ! i) f = Ok (snd (piece_at bs (plan ! i)))"
proof -
  have "plan ! i \<in> set (plan_ranges (c_layout C) (window cf))" using assms(1) by (simp add: plan_def[symmetric])
  from planned_range_verifies[OF conjunct1[OF content[unfolded honest_content_def]] this range_fits(4)[OF assms(1)] fits(2,3)]
  show ?thesis using assms range_fits(2)[OF assms(1)]
    by (simp add: verify_fetched_def with_proof_verifier_def)
qed

lemma honest_write:
  assumes "i < length plan" "mem_valid H m"
  shows "\<exists>m'. sk_write_at (in_memory_sink H) (r_offset (plan ! i)) (snd (piece_at bs (plan ! i))) m = (Ok (), m')"
proof -
  have "read_back_bounds H (r_offset (plan ! i)) (len64 (snd (piece_at bs (plan ! i))))
      = Ok (unat (r_offset (plan ! i)), unat (r_offset (plan ! i)) + unat (r_length (plan ! i)))"
    using range_fits[OF assms(1)] fits(3) unfolding read_back_bounds_Ok_iff by (simp add: unat_len64)
  then show ?thesis by (simp add: mem_sink_defs)
qed

lemma piece_nth:
  assumes "i < length plan" "q \<in> region plan i"
  shows "snd (piece_at bs (plan ! i)) ! (q - unat (r_offset (plan ! i))) = bs ! q"
    "q < unat (r_offset (plan ! i)) + length (snd (piece_at bs (plan ! i)))" "unat (r_offset (plan ! i)) \<le> q"
proof -
  have "unat (r_offset (plan ! i)) + unat (r_length (plan ! i)) \<le> length bs"
    using tiles_end_total[OF plan_tiles, of "plan ! i"] assms(1) layout(2) by simp
  then show "snd (piece_at bs (plan ! i)) ! (q - unat (r_offset (plan ! i))) = bs ! q"
    using assms(2) by (auto simp: region_def nth_slice)
  show "q < unat (r_offset (plan ! i)) + length (snd (piece_at bs (plan ! i)))" "unat (r_offset (plan ! i)) \<le> q"
    using assms(2) range_fits(2)[OF assms(1)] by (auto simp: region_def)
qed

lemma saved: "\<exists>J1. checkpoint D J = (Ok (), J1) \<and> J1 = J\<lparr>jb_store := jb_store J1\<rparr>"
  using saves[of "jb_resume J" "jb_store J"] by (auto simp: checkpoint_def)

lemma accept_succeeds:
  assumes "i < length plan" "mem_valid H (jb_sink K)"
  shows "\<exists>K'. accept_range D i peer el (plan ! i) (snd (piece_at bs (plan ! i))) K = (Ok (), K')
     \<and> jb_providers K' = jb_providers K \<and> jb_paused K' = jb_paused K
     \<and> jb_tracker K' = record_success peer (jb_tracker K)
     \<and> (\<exists>out. jb_world K' = sel_record (en_selector E) out (jb_world K))"
  using honest_write[OF assms] saves[of "mark_done i (jb_resume K)" "jb_store K"]
    accept_range_succeeds[of D "plan ! i" "snd (piece_at bs (plan ! i))" K _ i _ peer el] by auto

lemma piece_eq_iff: "\<lbrakk>i < length plan; j < length plan\<rbrakk> \<Longrightarrow> piece_at bs (plan ! i) = piece_at bs (plan ! j) \<longleftrightarrow> i = j"
  using tiles_distinct[OF plan_tiles layout(3)] by (auto simp: distinct_conv_nth piece_at_def)

lemma accept_assembled:
  assumes K: "assembled K" "length (jb_range_state K) = length plan" and i: "i < length plan" "jb_range_state K ! i \<noteq> Done"
    and a: "accept_range D i peer el (plan ! i) (snd (piece_at bs (plan ! i))) K = (Ok u, K')"
  shows "assembled K'" "done_set (jb_range_state K') = insert i (done_set (jb_range_state K))"
proof -
  let ?p = "piece_at bs (plan ! i)" and ?M = "done_set (jb_range_state K)" and ?o = "unat (r_offset (plan ! i))"
  note e = accept_range_effect[OF a] and fit = range_fits[OF i(1)]
  show M': "done_set (jb_range_state K') = insert i ?M" using i K(2) e(1) by (auto simp: done_set_def nth_list_update)
  obtain h where h: "jb_hasher K = Some h" "settled HO (map (piece_at bs) plan) ((\<lambda>i. piece_at bs (plan ! i)) ` ?M) h"
    using K(1) by (auto simp: assembled_def)
  have new: "?p \<notin> (\<lambda>i. piece_at bs (plan ! i)) ` ?M"
    using piece_eq_iff[OF i(1)] i(2) K(2) by (auto simp: done_set_def)
  have "settled HO (map (piece_at bs) plan) (insert ?p ((\<lambda>i. piece_at bs (plan ! i)) ` ?M)) (feed HO (fst ?p) (snd ?p) h)"
    by (rule feed_settled[OF plan_pieces(1) h(2), of "fst ?p" "snd ?p", unfolded prod.collapse])
      (use new i(1) in simp_all)
  then have h': "\<exists>h. jb_hasher K' = Some h
      \<and> settled HO (map (piece_at bs) plan) ((\<lambda>i. piece_at bs (plan ! i)) ` done_set (jb_range_state K')) h"
    using e(8) h(1) by (simp add: M' piece_at_def)
  have v: "mem_valid H (jb_sink K)" using K(1) by (simp add: assembled_def)
  have w: "sk_write_at (in_memory_sink H) (r_offset (plan ! i)) (snd ?p) (jb_sink K) = (Ok (), jb_sink K')"
    using e(9) by simp
  have "0 < length (snd ?p)" unfolding fit(2) by (rule fit(3))
  then have "snd ?p \<noteq> []" by blast
  then have b: "buf (jb_sink K') = place ?o (snd ?p) (buf (jb_sink K))" using mem.write_places[OF v w _ fit(4)] by blast
  have "q < length (buf (jb_sink K')) \<and> buf (jb_sink K') ! q = bs ! q" if "q \<in> region plan i" for q
    using piece_nth[OF i(1) that] by (simp add: b nth_place)
  moreover have "q < length (buf (jb_sink K')) \<and> buf (jb_sink K') ! q = bs ! q" if q: "q \<in> regions plan ?M" for q
  proof -
    have "region plan i \<inter> regions plan ?M = {}"
      by (rule regions_disjoint[OF plan_tiles i(1)]) (use i K(2) in \<open>auto simp: done_set_def\<close>)
    then have "q \<notin> region plan i" using q by blast
    then have "q < ?o \<or> ?o + length (snd ?p) \<le> q" unfolding fit(2) by (simp add: region_def not_le) linarith
    moreover have "q < length (buf (jb_sink K)) \<and> buf (jb_sink K) ! q = bs ! q" using K(1) q by (simp add: assembled_def)
    ultimately show ?thesis by (auto simp: b nth_place)
  qed
  moreover have "mem_valid H (jb_sink K')" using mem.write_frame[OF v w fit(4)] by blast
  ultimately show "assembled K'" using h' by (auto simp: assembled_def M')
qed

lemma record_success_available: "\<forall>p now. is_available tr p now \<Longrightarrow> \<forall>p now. is_available (record_success peer tr) p now"
  by (auto simp: is_available_def record_success_def Let_def update_conv')

text \<open>An honest turn completes one more range.\<close>

lemma turn_live:
  assumes l: "live J" and h: "honest_turn cf C bs tn J"
  shows "\<exists>J'. take_turn D wk tn J = (Ok (), J') \<and> live J'
    \<and> (\<exists>i. i \<notin> done_set (jb_range_state J) \<and> done_set (jb_range_state J') = insert i (done_set (jb_range_state J)))"
proof -
  have b: "book_ok D J" and u: "untroubled J" and as: "assembled J" using l by (simp_all add: live_def)
  obtain k el f where tn: "tn = FetchDone k el (Ok f)" and k: "k < length (jb_inflight J)" and el: "in_time cf el"
    using h by (auto simp: honest_turn_def split: turn.splits sum.splits)
  define fj where "fj = jb_inflight J ! k"
  define i where "i = fj_range fj"
  define K where "K = release_source (fj_peer fj) (take_fetch k J)"
  have "(i, fj_peer fj) \<in> (\<lambda>fj. (fj_range fj, fj_peer fj)) ` set (jb_inflight J)" using k by (auto simp: i_def fj_def)
  moreover have "mirror (jb_range_state J) (jb_inflight J)" "length (jb_range_state J) = length plan"
    using b u by (simp_all add: book_ok_def untroubled_def)
  ultimately have i: "i < length plan" "jb_range_state J ! i = InFlight (fj_peer fj)" "length (jb_range_state J) = length plan"
    unfolding mirror_def by (metis, metis, simp)
  have "fetch_output cf fj el (Ok f) = Ok f"
    using u el k request_ok[of "r_offset (plan ! i)" "r_length (plan ! i)" True]
    by (auto simp: fetch_output_def timed_result_def in_time_def fj_def i_def untroubled_def list_all_length as_planned_def
        is_ok_def split: option.splits sum.splits)
  moreover have "verify_fetched D C (plan ! i) f = Ok (snd (piece_at bs (plan ! i)))"
    using h u tn by (intro honest_range_verified i(1)) (simp_all add: honest_turn_def untroubled_def i_def fj_def)
  ultimately have t: "take_turn D wk tn J = accept_range D i (fj_peer fj) el (plan ! i) (snd (piece_at bs (plan ! i))) K"
    using u k unfolding tn take_turn_def
    by (simp add: Let_def handle_result_def K_def i_def fj_def take_fetch_def without_nth_def untroubled_def)
  have same: "jb_providers K = jb_providers J" "jb_paused K = jb_paused J" "jb_tracker K = jb_tracker J"
    "jb_inflight K = without_nth k (jb_inflight J)" "jb_range_state K = jb_range_state J" "jb_world K = jb_world J"
    by (simp_all add: K_def release_source_def take_fetch_def split: option.split)
  have "assembled K" by (rule iffD2[OF assembled_cong as]) (simp_all add: K_def)
  moreover have "untroubled K" "jb_ranges K = plan"
    using u same by (auto simp: untroubled_def K_def without_nth_def list_all_iff dest: in_set_takeD in_set_dropD)
  ultimately have K: "jb_range_state K = jb_range_state J" "assembled K" "untroubled K" "jb_ranges K = plan"
    using same(5) by blast+
  have valid: "mem_valid H (jb_sink K)" using K(2) by (simp add: assembled_def)
  obtain J' where J': "take_turn D wk tn J = (Ok (), J')" "jb_providers J' = jb_providers K" "jb_paused J' = jb_paused K"
      "jb_tracker J' = record_success (fj_peer fj) (jb_tracker K)"
      "\<exists>out. jb_world J' = sel_record (en_selector E) out (jb_world K)"
    using accept_succeeds[OF i(1) valid] unfolding t by blast
  note a = J'(1)[unfolded t] and e = accept_range_effect[OF J'(1)[unfolded t]]
  have st: "length (jb_range_state K) = length plan" "jb_range_state K ! i \<noteq> Done" using i K(1) by simp_all
  note as' = accept_assembled[OF K(2) st(1) i(1) st(2) a]
  have "W (jb_world J')"
    using K(3) J'(5) env by (auto simp: untroubled_def honest_env_def picks_offered_def)
  then have "untroubled J'" using K(3) record_success_available[of "jb_tracker K" "fj_peer fj"]
    unfolding untroubled_def J'(2-4) e(2,3,5,6,11) by blast
  then have "live J'" using as'(1) take_turn_book[OF b J'(1)] by (simp add: live_def)
  moreover have "i \<notin> done_set (jb_range_state J)" by (simp add: done_set_def i(2))
  ultimately show ?thesis using J'(1) as'(2)[unfolded K(1)] by blast
qed

text \<open>Enough honest turns complete the plan.\<close>

lemma all_done_iff: "live J \<Longrightarrow> all_done J \<longleftrightarrow> done_set (jb_range_state J) = {..< length plan}"
  using plan_nonempty by (auto simp: all_done_def done_set_def list_all_length live_def book_ok_def untroubled_def)

lemma next_turn_live:
  assumes l: "live K" and n: "next_turn D K = (tn, J2)" shows "live J2"
proof -
  have "W (jb_world K)" using l by (simp add: live_def untroubled_def)
  then have "W (snd (en_turn E (jb_world K)))" using env by (simp add: honest_env_def)
  then have "jb_providers J2 = jb_providers K \<and> jb_paused J2 = jb_paused K \<and> jb_tracker J2 = jb_tracker K \<and> W (jb_world J2)"
    using n by (auto simp: next_turn_def split: prod.splits)
  then show ?thesis using live_same[of K J2] next_turn_same[OF n] l by blast
qed

lemma honest_turns_finish:
  "\<lbrakk>live J; honest_turns n D C bs J; length plan \<le> card (done_set (jb_range_state J)) + n\<rbrakk>
   \<Longrightarrow> \<exists>J'. schedule_loop (Suc n) D J = Some (Ok (), J') \<and> live J' \<and> all_done J'"
proof (induction n arbitrary: J)
  case 0
  define K where "K = fill D J"
  note f = fill_live[OF 0(1), folded K_def]
  have sub: "done_set (jb_range_state K) \<subseteq> {..< length plan}"
    using f(1) by (auto simp: done_set_def live_def book_ok_def untroubled_def)
  have "done_set (jb_range_state K) = {..< length plan}"
    by (rule card_subset_eq[OF _ sub]) (use 0(3) f(2) card_mono[OF _ sub] in simp_all)
  then have "all_done K" using all_done_iff[OF f(1)] by blast
  then show ?case using loop_top_live[OF 0(1) K_def] f(1) by simp
next
  case (Suc n)
  define K where "K = fill D J"
  note f = fill_live[OF Suc(2), folded K_def] and top = loop_top_live[OF Suc(2) K_def]
  show ?case
  proof (cases "all_done K")
    case True
    then show ?thesis using top f(1) by simp
  next
    case False
    obtain tn J2 where n: "next_turn D K = (tn, J2)" by fastforce
    note s = next_turn_same[OF n]
    have l2: "live J2" by (rule next_turn_live[OF f(1) n])
    have h: "honest_turn cf C bs tn J2" using Suc(3) top False n by (simp add: honest_turns_def)
    from turn_live[OF l2 this, of None] obtain J3 i where
      J3: "take_turn D None tn J2 = (Ok (), J3)" "live J3" "i \<notin> done_set (jb_range_state J2)"
        "done_set (jb_range_state J3) = insert i (done_set (jb_range_state J2))" by blast
    have d2: "done_set (jb_range_state J2) = done_set (jb_range_state J)" using s f(2) by (simp add: same_book_def)
    have "finite (done_set (jb_range_state J))" by (simp add: done_set_def)
    then have "card (done_set (jb_range_state J3)) = Suc (card (done_set (jb_range_state J)))" using J3 d2 by simp
    moreover have "honest_turns n D C bs J3" using Suc(3) top False n J3(1) by (simp add: honest_turns_def)
    ultimately obtain J' where "schedule_loop (Suc n) D J3 = Some (Ok (), J')" "live J'" "all_done J'"
      using Suc.IH[OF J3(2)] Suc(4) by auto
    moreover have "schedule_loop (Suc (Suc n)) D J = schedule_loop (Suc n) D J3"
      by (subst schedule_loop.simps(2)) (use top False n J3(1) in simp)
    ultimately show ?thesis by metis
  qed
qed

section \<open>The whole run\<close>

lemma confirm_honest:
  "\<lbrakk>set qs \<subseteq> set ps; W w\<rbrakk> \<Longrightarrow> fst (confirm_holders E item qs w) = qs \<and> W (snd (confirm_holders E item qs w))"
proof (induction qs arbitrary: w)
  case (Cons p qs)
  have "fst (en_availability E p [item] w) = Ok [True] \<and> W (snd (en_availability E p [item] w))"
    using env Cons(2,3) by (simp add: honest_env_def)
  then obtain w' where "en_availability E p [item] w = (Ok [True], w')" "W w'"
    by (cases "en_availability E p [item] w") simp
  then show ?case using Cons.IH[of w'] Cons(2) by (auto split: prod.split)
qed simp

lemma adopt_honest: "declares C (fetched_meta f) \<Longrightarrow> adopt_layout D c p f = Ok C"
  using content from_first_frame_OkD[of H "c_total_length C" "chunk_lens (c_layout C)" "c_root C" "c_inclusion_proof C"
      "max_resource_size cf" C]
  by (simp add: adopt_layout_def declares_def honest_content_def Let_def)

lemma probe_honest: "W w \<Longrightarrow> \<exists>w'. probe_holders D c ps [] w = (Ok (Some C, []), w') \<and> W w'"
proof -
  assume W: "W w"
  obtain p qs where ps: "ps = p # qs" using env by (cases ps) (auto simp: honest_env_def)
  obtain req where req: "range_request_for c 0 1 False = Ok req"
    using content by (cases c) (auto simp: range_request_for_def honest_content_def)
  have "W (snd (en_fetch_range E p req w)) \<and> (\<exists>el f. fst (en_fetch_range E p req w) = (el, Ok f)
      \<and> in_time cf el \<and> declares C (fetched_meta f))"
    using env W req unfolding honest_env_def ps by simp
  then obtain el f w' where f: "en_fetch_range E p req w = ((el, Ok f), w')" "in_time cf el"
      "declares C (fetched_meta f)" "W w'"
    by (cases "en_fetch_range E p req w") auto
  have "probe_metadata D p req w = (Ok f, w')"
    using f by (auto simp: probe_metadata_def timed_result_def in_time_def split: option.splits)
  then show ?thesis using adopt_honest[OF f(3), of p] f(4) by (simp add: ps req)
qed

text \<open>A job this process has done nothing for, with what an earlier one left.\<close>

definition unstarted :: "(mem_sink, 't, 'h, 'w) job \<Rightarrow> bool" where
  "unstarted J \<longleftrightarrow> W (jb_world J) \<and> jb_content J = c \<and> idle J
     \<and> resume_ok H C (window cf) bs (jb_resume J) (jb_sink J) \<and> \<not> jb_paused J \<and> jb_total_failures J = 0
     \<and> (\<forall>p now. is_available (jb_tracker J) p now)"

lemma locate_honest:
  assumes "jb_content J = c" "W (jb_world J)"
  shows "\<exists>w. locate_and_confirm D J = (Ok ps, J\<lparr>jb_world := w\<rparr>) \<and> W w"
proof -
  obtain item where item: "availability_item c = Ok item"
    using content by (cases c) (auto simp: availability_item_def honest_content_def)
  have "fst (en_find_providers E c (jb_world J)) = Ok ps \<and> W (snd (en_find_providers E c (jb_world J)))"
    using env assms(2) by (simp add: honest_env_def)
  then obtain w where w: "en_find_providers E c (jb_world J) = (Ok ps, w)" "W w"
    by (cases "en_find_providers E c (jb_world J)") simp
  obtain w' where "confirm_holders E item ps w = (ps, w')" "W w'"
    using confirm_honest[of ps w item] w(2) by (cases "confirm_holders E item ps w") simp
  then show ?thesis using assms(1) item w by (auto simp: locate_and_confirm_def)
qed

lemma discard_keeps_truth:
  assumes "jb_commitment J = Some C" "resume_ok H C (window cf) bs (jb_resume J) (jb_sink J)"
  shows "\<exists>R t s. discard_bytes_staged_for_another_plan D J = J\<lparr>jb_resume := R, jb_store := t, jb_sink := s\<rparr>
    \<and> mem_valid H s \<and> staged_truth C (window cf) bs (st_done_ranges R) (buf s)"
proof (cases "st_chunk_lens (jb_resume J) \<in> {[], chunk_lens (c_layout C)}")
  case True
  then have "discard_bytes_staged_for_another_plan D J = J\<lparr>jb_resume := jb_resume J, jb_store := jb_store J, jb_sink := jb_sink J\<rparr>"
    using assms(1) by (auto simp: discard_bytes_staged_for_another_plan_def)
  then show ?thesis using assms(2) True unfolding resume_ok_def by blast
next
  case False
  have v: "mem_valid H (jb_sink J)" using assms(2) by (simp add: resume_ok_def)
  obtain r t where t: "ss_clear T (jb_key J) (jb_store J) = (r, t)" by fastforce
  obtain y s where s: "sk_truncate (in_memory_sink H) 0 (jb_sink J) = (y, s)" by fastforce
  have "discard_bytes_staged_for_another_plan D J
      = J\<lparr>jb_resume := (jb_resume J)\<lparr>st_done_ranges := {}\<rparr>, jb_store := t, jb_sink := s\<rparr>"
    using False assms(1) t s
    by (auto simp: discard_bytes_staged_for_another_plan_def clear_checkpoint_def truncate_staging_def)
  moreover have "mem_valid H s" using mem.truncate_frame[OF v s] by simp
  moreover have "staged_truth C (window cf) bs (st_done_ranges ((jb_resume J)\<lparr>st_done_ranges := {}\<rparr>)) (buf s)"
    by (simp add: staged_truth_def)
  ultimately show ?thesis by blast
qed

lemma prepare_honest:
  assumes u: "unstarted J" and n: "jb_commitment J \<in> {None, Some C}"
  shows "\<exists>J1. prepare_job D J = (Ok C, J1) \<and> W (jb_world J1) \<and> jb_commitment J1 = Some C \<and> jb_providers J1 = ps
    \<and> jb_content J1 = c \<and> idle J1 \<and> mem_valid H (jb_sink J1) \<and> staged_truth C (window cf) bs (st_done_ranges (jb_resume J1)) (buf (jb_sink J1))
    \<and> \<not> jb_paused J1 \<and> jb_total_failures J1 = 0 \<and> (\<forall>p now. is_available (jb_tracker J1) p now)"
proof -
  have j: "jb_content J = c" and W: "W (jb_world J)" using u by (simp_all add: unstarted_def)
  obtain item where item: "availability_item c = Ok item"
    using content by (cases c) (auto simp: availability_item_def honest_content_def)
  obtain w where l: "locate_and_confirm D J = (Ok ps, J\<lparr>jb_world := w\<rparr>)" "W w" using locate_honest[OF j W] by blast
  define K where "K = J\<lparr>jb_world := w, jb_providers := ps\<rparr>"
  have "\<exists>w'. (if jb_commitment K = None then establish_commitment D K else (Ok (), K))
      = (Ok (), K\<lparr>jb_world := w', jb_commitment := Some C\<rparr>) \<and> W w'"
  proof (cases "jb_commitment J")
    case None
    obtain w' where "probe_holders D c ps [] w = (Ok (Some C, []), w')" "W w'" using probe_honest[OF l(2)] by blast
    then show ?thesis using j None by (auto simp: establish_commitment_def K_def)
  next
    case (Some C')
    then have "(if jb_commitment K = None then establish_commitment D K else (Ok (), K))
        = (Ok (), K\<lparr>jb_world := w, jb_commitment := Some C\<rparr>)" using n by (auto simp: K_def)
    then show ?thesis using l(2) by blast
  qed
  then obtain w' where e: "(if jb_commitment K = None then establish_commitment D K else (Ok (), K))
      = (Ok (), K\<lparr>jb_world := w', jb_commitment := Some C\<rparr>)" "W w'" by blast
  define J2 where "J2 = K\<lparr>jb_world := w', jb_commitment := Some C\<rparr>"
  have "resume_ok H C (window cf) bs (jb_resume J2) (jb_sink J2)" using u by (simp add: J2_def K_def unstarted_def)
  moreover have "jb_commitment J2 = Some C" by (simp add: J2_def)
  ultimately obtain R t s where d: "discard_bytes_staged_for_another_plan D J2 = J2\<lparr>jb_resume := R, jb_store := t, jb_sink := s\<rparr>"
    "mem_valid H s" "staged_truth C (window cf) bs (st_done_ranges R) (buf s)"
    using discard_keeps_truth by blast
  define R' where "R' = R\<lparr>st_total_length := c_total_length C, st_chunk_lens := chunk_lens (c_layout C),
      st_root := c_root C, st_inclusion_proof := c_inclusion_proof C\<rparr>"
  obtain t' where "ss_save T R' t = (Ok (), t')" using saves by blast
  then have pc: "persist_commitment D (J2\<lparr>jb_resume := R, jb_store := t, jb_sink := s\<rparr>)
      = (Ok (), J2\<lparr>jb_resume := R', jb_store := t', jb_sink := s\<rparr>)"
    by (simp add: persist_commitment_def checkpoint_def J2_def R'_def)
  have "ps \<noteq> []" using env by (simp add: honest_env_def)
  then have "prepare_job D J =
      (case (if jb_commitment K = None then establish_commitment D K else (Ok (), K)) of
         (Err e, J3) \<Rightarrow> (Err e, J3)
       | (Ok _, J3) \<Rightarrow>
           (case persist_commitment D (discard_bytes_staged_for_another_plan D J3) of
              (Err e, J4) \<Rightarrow> (Err e, J4)
            | (Ok _, J4) \<Rightarrow> (Ok (the (jb_commitment J4)), J4)))"
    using j item l(1) by (simp add: prepare_job_def Let_def K_def)
  also have "\<dots> = (Ok C, J2\<lparr>jb_resume := R', jb_store := t', jb_sink := s\<rparr>)"
    unfolding e(1) J2_def[symmetric] by (simp add: d(1) pc) (simp add: J2_def)
  finally have "prepare_job D J = (Ok C, J2\<lparr>jb_resume := R', jb_store := t', jb_sink := s\<rparr>)" .
  then show ?thesis using u e(2) d(2,3) j by (auto simp: unstarted_def J2_def K_def R'_def idle_def)
qed

text \<open>
  Taking over what an earlier run has staged. While the ranges \<open>R\<close> are still to be read back, the
  other ranges done are hashed, and right in the buffer.
\<close>

definition kept :: "mem_sink \<Rightarrow> (mem_sink, 't, 'h, 'w) job \<Rightarrow> nat set \<Rightarrow> bool" where
  "kept s K R \<longleftrightarrow> length (jb_range_state K) = length plan \<and> jb_sink K = s
     \<and> (\<exists>h. jb_hasher K = Some h
          \<and> settled HO (map (piece_at bs) plan) ((\<lambda>i. piece_at bs (plan ! i)) ` (done_set (jb_range_state K) - R)) h)
     \<and> (\<forall>i \<in> done_set (jb_range_state K) - R. unat (r_offset (plan ! i)) + unat (r_length (plan ! i)) \<le> length (buf s)
          \<and> slice (buf s) (unat (r_offset (plan ! i))) (unat (r_length (plan ! i))) = snd (piece_at bs (plan ! i)))"

lemma rehydrate_kept:
  assumes k: "kept s K R" and i: "i \<in> R" "i < length plan" "i \<in> done_set (jb_range_state K)"
    and t: "staged_truth C (window cf) bs {i} (buf s)" and s: "mem_valid H s"
  shows "kept s (rehydrate_range D C (plan ! i) K) (R - {i})"
    "done_set (jb_range_state K) - {i} \<subseteq> done_set (jb_range_state (rehydrate_range D C (plan ! i) K))"
proof -
  let ?r = "plan ! i" and ?K = "rehydrate_range D C (plan ! i) K" and ?M = "done_set (jb_range_state K)"
  have ix: "r_index ?r = i" using tiles_nth(1)[OF plan_tiles i(2)] by simp
  have sink: "jb_sink K = s" using k by (simp add: kept_def)
  have rd: "s' = s \<and> (\<forall>xs. x = Ok xs \<longrightarrow> unat (r_offset ?r) + unat (r_length ?r) \<le> length (buf s)
      \<and> xs = slice (buf s) (unat (r_offset ?r)) (unat (r_length ?r)))"
    if "sk_read_at (in_memory_sink H) (r_offset ?r) (r_length ?r) s = (x, s')" for x s'
    using that by (auto simp: in_memory_sink_def mem_read_at_def read_back_bounds_Ok_iff split: sum.splits if_splits)
  have "kept s ?K (R - {i}) \<and> ?M - {i} \<subseteq> done_set (jb_range_state ?K)"
  proof (rule rehydrate_range_cases[OF refl, where D = D and C = C and r = ?r and J = K])
    fix xs u
    assume f: "sk_read_at (dp_sink D) (r_offset ?r) (r_length ?r) (jb_sink K) = (Ok xs, jb_sink ?K)"
      "jb_hasher ?K = map_option (feed (dp_hash D) (r_offset ?r) xs) (jb_hasher K)" "jb_range_state ?K = jb_range_state K"
    have x: "jb_sink ?K = s" "unat (r_offset ?r) + unat (r_length ?r) \<le> length (buf s)"
      "xs = slice (buf s) (unat (r_offset ?r)) (unat (r_length ?r))" using rd f(1) sink by auto
    then have xs: "xs = snd (piece_at bs ?r)" using t i(2) by (simp add: staged_truth_def Let_def plan_def)
    obtain h where h: "jb_hasher K = Some h" "settled HO (map (piece_at bs) plan) ((\<lambda>i. piece_at bs (plan ! i)) ` (?M - R)) h"
      using k by (auto simp: kept_def)
    have lt: "j < length plan" if "j \<in> ?M" for j using that k by (auto simp: done_set_def kept_def)
    have "piece_at bs ?r \<notin> (\<lambda>i. piece_at bs (plan ! i)) ` (?M - R)" using piece_eq_iff[OF i(2) lt] i(1) by auto
    then have "settled HO (map (piece_at bs) plan) (insert (piece_at bs ?r) ((\<lambda>i. piece_at bs (plan ! i)) ` (?M - R)))
        (feed HO (r_offset ?r) xs h)"
      using feed_settled[OF plan_pieces(1) h(2), of "r_offset ?r" xs] i(2) xs by (simp add: piece_at_def)
    moreover have M: "?M - (R - {i}) = insert i (?M - R)" using i(1,3) by blast
    ultimately have "\<exists>h. jb_hasher ?K = Some h
        \<and> settled HO (map (piece_at bs) plan) ((\<lambda>i. piece_at bs (plan ! i)) ` (?M - (R - {i}))) h"
      using f(2) h(1) unfolding M image_insert by simp
    moreover have "\<forall>j \<in> ?M - (R - {i}). unat (r_offset (plan ! j)) + unat (r_length (plan ! j)) \<le> length (buf s)
        \<and> slice (buf s) (unat (r_offset (plan ! j))) (unat (r_length (plan ! j))) = snd (piece_at bs (plan ! j))"
      using k x(2,3) xs unfolding M kept_def by blast
    ultimately show ?thesis using k f(3) x(1) unfolding kept_def by (simp only:) blast
  next
    assume f: "jb_hasher ?K = jb_hasher K" "jb_range_state ?K = (jb_range_state K)[r_index ?r := Pending]"
      "jb_sink ?K = jb_sink K \<or> (\<exists>x. sk_read_at (dp_sink D) (r_offset ?r) (r_length ?r) (jb_sink K) = (x, jb_sink ?K))"
    have "jb_sink ?K = s" using f(3) rd sink by auto
    moreover have M: "done_set (jb_range_state ?K) = ?M - {i}"
      using f(2) ix i(2) k by (auto simp: done_set_def nth_list_update kept_def)
    moreover have "?M - {i} - (R - {i}) = ?M - R" using i(1) by blast
    ultimately show ?thesis using k f(1,2) unfolding kept_def M by simp
  qed
  then show "kept s ?K (R - {i})" "?M - {i} \<subseteq> done_set (jb_range_state ?K)" by blast+
qed

lemma fold_rehydrate_kept:
  "\<lbrakk>kept s K (set ks); distinct ks; \<forall>i \<in> set ks. i < length plan; set ks \<subseteq> done_set (jb_range_state K);
      staged_truth C (window cf) bs (set ks) (buf s); mem_valid H s\<rbrakk>
   \<Longrightarrow> kept s (fold (rehydrate_range D C) (map ((!) plan) ks) K) {}"
proof (induction ks arbitrary: K)
  case Nil
  then show ?case by simp
next
  case (Cons i js)
  have t: "staged_truth C (window cf) bs {i} (buf s)" "staged_truth C (window cf) bs (set js) (buf s)"
    using Cons.prems(5) by (simp_all add: staged_truth_def)
  note r = rehydrate_kept[OF Cons.prems(1) _ _ _ t(1) Cons.prems(6)]
  have "set (i # js) - {i} = set js" using Cons.prems(2) by auto
  then have "kept s (rehydrate_range D C (plan ! i) K) (set js)" using r(1) Cons.prems(3,4) by simp
  moreover have "set js \<subseteq> done_set (jb_range_state (rehydrate_range D C (plan ! i) K))"
    using r(2) Cons.prems(2-4) by fastforce
  ultimately show ?case using Cons.IH Cons.prems(2,3,6) t(2) by simp
qed

lemma kept_assembled: "kept s K {} \<Longrightarrow> mem_valid H s \<Longrightarrow> assembled K"
proof -
  assume k: "kept s K {}" and v: "mem_valid H s"
  have "q < length (buf s) \<and> buf s ! q = bs ! q" if q: "q \<in> regions plan (done_set (jb_range_state K))" for q
  proof -
    obtain i where i: "i \<in> done_set (jb_range_state K)" "q \<in> region plan i" using q by (auto simp: regions_def)
    have lt: "i < length plan" using i(1) k by (auto simp: done_set_def kept_def)
    have f: "unat (r_offset (plan ! i)) + unat (r_length (plan ! i)) \<le> length (buf s)"
      "slice (buf s) (unat (r_offset (plan ! i))) (unat (r_length (plan ! i))) = snd (piece_at bs (plan ! i))"
      using k i(1) unfolding kept_def by blast+
    then have "slice (buf s) (unat (r_offset (plan ! i))) (unat (r_length (plan ! i))) ! (q - unat (r_offset (plan ! i))) = bs ! q"
      using piece_nth(1)[OF lt i(2)] by metis
    then show ?thesis using f(1) i(2) by (auto simp: region_def nth_slice)
  qed
  then show ?thesis using k v unfolding assembled_def kept_def by auto
qed

lemma rehydrate_range_others [simp]:
  "jb_providers (rehydrate_range D' C' r J) = jb_providers J" "jb_paused (rehydrate_range D' C' r J) = jb_paused J"
  "jb_total_failures (rehydrate_range D' C' r J) = jb_total_failures J" "jb_tracker (rehydrate_range D' C' r J) = jb_tracker J"
  "jb_world (rehydrate_range D' C' r J) = jb_world J"
  by (simp_all add: rehydrate_range_def Let_def split: option.splits prod.splits sum.splits)

lemma fold_rehydrate_others [simp]:
  "jb_providers (fold (rehydrate_range D' C') rl J) = jb_providers J" "jb_paused (fold (rehydrate_range D' C') rl J) = jb_paused J"
  "jb_total_failures (fold (rehydrate_range D' C') rl J) = jb_total_failures J"
  "jb_tracker (fold (rehydrate_range D' C') rl J) = jb_tracker J" "jb_world (fold (rehydrate_range D' C') rl J) = jb_world J"
  by (induction rl arbitrary: J) simp_all

lemma plan_live:
  assumes W: "W (jb_world J)" and C: "jb_commitment J = Some C" and J: "jb_providers J = ps" "jb_content J = c" "idle J" "mem_valid H (jb_sink J)"
    "staged_truth C (window cf) bs (st_done_ranges (jb_resume J)) (buf (jb_sink J))" "\<not> jb_paused J" "jb_total_failures J = 0"
    "\<forall>p now. is_available (jb_tracker J) p now"
  shows "live (plan_job D C J)"
proof -
  let ?P = "planned D C J"
  define js where "js = filter (\<lambda>i. is_done (jb_resume J) i) [0 ..< length plan]"
  have ix: "r_index (plan ! i) = i" if "i < length plan" for i using tiles_nth(1)[OF plan_tiles that] by simp
  have p: "jb_ranges ?P = plan" "jb_range_state ?P = map (\<lambda>r. if is_done (jb_resume J) (r_index r) then Done else Pending) plan"
    "jb_sink ?P = jb_sink J" "jb_hasher ?P = Some (resource_hasher_new HO)"
    using whole by (simp_all add: planned_def plan_def Let_def)
  have d: "done_set (jb_range_state ?P) = set js" using ix by (auto simp: p(2) js_def done_set_def split: if_splits)
  have "filter (\<lambda>r. jb_range_state ?P ! r_index r = Done) plan
      = map ((!) plan) (filter (\<lambda>i. jb_range_state ?P ! r_index (plan ! i) = Done) [0 ..< length plan])"
    using filter_map[of "\<lambda>r. jb_range_state ?P ! r_index r = Done" "(!) plan" "[0 ..< length plan]"] by (simp add: map_nth comp_def)
  also have "filter (\<lambda>i. jb_range_state ?P ! r_index (plan ! i) = Done) [0 ..< length plan] = js"
    unfolding js_def by (rule filter_cong) (auto simp: p(2) ix)
  finally have F: "plan_job D C J = emit (Planned (length plan) (c_total_length C)) (fold (rehydrate_range D C) (map ((!) plan) js) ?P)"
    by (simp add: plan_job_planned rehydrate_resumed_ranges_def Let_def p(1))
  have "kept (jb_sink J) ?P (set js)"
    using p d settled_new[of HO "map (piece_at bs) plan"] by (simp add: kept_def)
  then have "kept (jb_sink J) (fold (rehydrate_range D C) (map ((!) plan) js) ?P) {}"
    by (rule fold_rehydrate_kept) (use J(4,5) d in \<open>auto simp: js_def staged_truth_def is_done_def\<close>)
  then have "assembled (plan_job D C J)"
    using kept_assembled[OF _ J(4)] assembled_cong[of "plan_job D C J" "fold (rehydrate_range D C) (map ((!) plan) js) ?P"]
    unfolding F by (simp add: emit_def)
  moreover have "untroubled (plan_job D C J)"
    using W C J plan_job_ready[OF layout(1) J(3), of D] unfolding untroubled_def F
    by (simp add: emit_def p(1)) (simp add: planned_def Let_def ready_def idle_def emit_def)
  moreover have "book_ok D (plan_job D C J)" by (rule ready_book[OF plan_job_ready[OF layout(1) J(3)]])
  ultimately show ?thesis by (simp add: live_def)
qed

text \<open>When every range is done, the hasher has digested the resource and the buffer begins with it.\<close>

lemma complete_live:
  assumes l: "live J" and d: "all_done J"
  shows "\<exists>h. jb_hasher J = Some h \<and> hasher_finalize HO h = h_digest HO bs \<and> hashed_len h = c_total_length C"
    and "mem_valid H (jb_sink J)" and "length bs \<le> length (buf (jb_sink J)) \<and> take (length bs) (buf (jb_sink J)) = bs"
proof -
  have as: "assembled J" using l by (simp add: live_def)
  have M: "done_set (jb_range_state J) = {..< length plan}" using all_done_iff[OF l] d by simp
  have "(\<lambda>i. piece_at bs (plan ! i)) ` {..< length plan} = set (map (piece_at bs) plan)"
    by (auto simp: in_set_conv_nth image_iff) (metis nth_mem)
  then obtain h where h: "jb_hasher J = Some h" "settled HO (map (piece_at bs) plan) (set (map (piece_at bs) plan)) h"
    using as by (auto simp: assembled_def M)
  note s = settled_all[OF plan_pieces(1) h(2)]
  have "map snd (map (piece_at bs) plan) = map (\<lambda>r. snd (piece_at bs r)) plan" by simp
  then have c: "concat (map snd (map (piece_at bs) plan)) = bs" using plan_pieces(2) by metis
  then have "hasher_finalize HO h = h_digest HO bs"
    unfolding hasher_finalize_def s(1) using finalize_absorb by metis
  moreover have "unat (hashed_len h) = length bs" unfolding s(2) pieces_len_def c ..
  then have "hashed_len h = c_total_length C" using content by (simp add: honest_content_def word_unat_eq_iff)
  ultimately show "\<exists>h. jb_hasher J = Some h \<and> hasher_finalize HO h = h_digest HO bs \<and> hashed_len h = c_total_length C"
    using h(1) by blast
  show "mem_valid H (jb_sink J)" using as by (simp add: assembled_def)
  have q: "q < length (buf (jb_sink J)) \<and> buf (jb_sink J) ! q = bs ! q" if "q < length bs" for q
    using as regions_cover[OF plan_tiles, of q] that layout(2) by (simp add: assembled_def M)
  have len: "length bs \<le> length (buf (jb_sink J))" using q by (meson leI less_irrefl)
  then show "length bs \<le> length (buf (jb_sink J)) \<and> take (length bs) (buf (jb_sink J)) = bs"
    using q by (auto intro: nth_equalityI)
qed

lemma finish_live:
  assumes l: "live J" and d: "all_done J"
  shows "\<exists>J1 J2. backstop D C J = (Ok (), J1) \<and> promote_job D C J1 = (Ok (c_total_length C), J2)
    \<and> mem_artifact (jb_sink J2) = Some bs"
proof -
  note c = complete_live[OF l d]
  obtain h where h: "jb_hasher J = Some h" "hasher_finalize HO h = h_digest HO bs" "hashed_len h = c_total_length C"
    using c(1) by blast
  have n: "unat (c_total_length C) = length bs" "PV (h_digest HO bs) (c_inclusion_proof C) (c_root C)"
    using content by (simp_all add: honest_content_def)
  then have b: "backstop D C J = (Ok (), J\<lparr>jb_hasher := None\<rparr>)"
    using h by (simp add: backstop_def Let_def with_proof_verifier_def merkle_verify_resource_leaf_def)
  obtain x s where p: "promote_verified (in_memory_sink H) (c_total_length C) (jb_sink J) = (x, s)" by fastforce
  then obtain u where x: "x = Ok u"
    using memory_promotes[OF c(2), of "c_total_length C"] c(3) n by (cases x) auto
  have "mem_artifact s = Some bs" using mem.promote_ok(2)[OF c(2) p[unfolded x]] c(3) n by simp
  then have "\<exists>J2. promote_job D C (J\<lparr>jb_hasher := None\<rparr>) = (Ok (c_total_length C), J2) \<and> mem_artifact (jb_sink J2) = Some bs"
    using p x by (simp add: promote_job_def clear_checkpoint_def emit_def split: prod.split)
  then show ?thesis using b by blast
qed

text \<open>From a job not yet started, to the bytes.\<close>

lemma run_inner_honest:
  assumes u: "unstarted J" and n: "jb_commitment J \<in> {None, Some C}"
  shows "\<exists>J1. prepare_job D J = (Ok C, J1) \<and> live (plan_job D C J1)
    \<and> (honest_turns (length plan) D C bs (plan_job D C J1) \<longrightarrow>
        (\<exists>J'. run_inner (Suc (length plan)) D J = Some (Ok (c_total_length C), J') \<and> mem_artifact (jb_sink J') = Some bs))"
proof -
  obtain J1 where p: "prepare_job D J = (Ok C, J1)" and J1: "W (jb_world J1)" "jb_commitment J1 = Some C" "jb_providers J1 = ps"
      "jb_content J1 = c" "idle J1" "mem_valid H (jb_sink J1)" "staged_truth C (window cf) bs (st_done_ranges (jb_resume J1)) (buf (jb_sink J1))"
      "\<not> jb_paused J1" "jb_total_failures J1 = 0" "\<forall>p now. is_available (jb_tracker J1) p now"
    using prepare_honest[OF assms] by blast
  note pl = plan_live[OF J1]
  have "\<exists>J'. run_inner (Suc (length plan)) D J = Some (Ok (c_total_length C), J') \<and> mem_artifact (jb_sink J') = Some bs"
    if h: "honest_turns (length plan) D C bs (plan_job D C J1)"
  proof -
    obtain J2 where J2: "schedule_loop (Suc (length plan)) D (plan_job D C J1) = Some (Ok (), J2)" "live J2" "all_done J2"
      using honest_turns_finish[OF pl h] by auto
    obtain J3 J4 where "backstop D C J2 = (Ok (), J3)" "promote_job D C J3 = (Ok (c_total_length C), J4)"
        "mem_artifact (jb_sink J4) = Some bs"
      using finish_live[OF J2(2,3)] by blast
    then show ?thesis using p J2(1) by (simp add: run_inner_def del: schedule_loop.simps)
  qed
  then show ?thesis using p pl by blast
qed

lemma run_job_resumed:
  assumes W: "W w" and J: "J = job_new D c opts s t R w" and o: "\<not> start_paused opts"
    and load: "ss_load T (jb_key J) t = (Ok found, t1)"
    and st: "st = (case found of Some st \<Rightarrow> st | None \<Rightarrow> download_state_new (jb_key J))"
    and resume: "resumed_commitment D st \<in> {None, Some C}" "resume_ok H C (window cf) bs st s"
    and J0: "J0 = J\<lparr>jb_store := t1, jb_resume := st, jb_commitment := resumed_commitment D st\<rparr>"
  shows "\<exists>J1. prepare_job D J0 = (Ok C, J1) \<and> live (plan_job D C J1)
    \<and> (honest_turns (length plan) D C bs (plan_job D C J1) \<longrightarrow>
        (\<exists>J'. run_job (Suc (length plan)) D J = Some (Ok (c_total_length C), J') \<and> mem_artifact (jb_sink J') = Some bs))"
proof -
  have "unstarted J0"
    using o W resume(2) by (simp add: J0 J job_new_def unstarted_def idle_def source_tracker_new_def is_available_def)
  moreover have "jb_commitment J0 \<in> {None, Some C}" using resume(1) by (simp add: J0)
  moreover have "run_job n D J = run_inner n D J0" for n
  proof -
    have "jb_store J = t" "sk_staging_path (in_memory_sink H) x = None" for x
      by (simp_all add: J job_new_def in_memory_sink_def default_sink_def)
    then show ?thesis using load by (simp add: run_job_def J0 st Let_def)
  qed
  ultimately show ?thesis using run_inner_honest[of J0] by simp
qed

lemma run_job_honest:
  assumes W: "W w" and J: "J = job_new D c opts mem_sink_new t R w" and o: "\<not> start_paused opts"
    and fresh: "ss_load T (jb_key J) t = (Ok None, t1)"
    and J0: "J0 = J\<lparr>jb_store := t1, jb_resume := download_state_new (jb_key J), jb_commitment := None\<rparr>"
  shows "\<exists>J1. prepare_job D J0 = (Ok C, J1) \<and> live (plan_job D C J1)
    \<and> (honest_turns (length plan) D C bs (plan_job D C J1) \<longrightarrow>
        (\<exists>J'. run_job (Suc (length plan)) D J = Some (Ok (c_total_length C), J') \<and> mem_artifact (jb_sink J') = Some bs))"
proof -
  let ?st = "download_state_new (jb_key J)"
  have r: "resumed_commitment D ?st = None" "resume_ok H C (window cf) bs ?st mem_sink_new"
    by (simp_all add: resumed_commitment_def download_state_new_def resume_ok_def staged_truth_def mem_valid_def mem_sink_new_def)
  show ?thesis by (rule run_job_resumed[OF W J o fresh, of ?st]) (use r J0 in auto)
qed

end

section \<open>An honest download, in memory\<close>

definition memory_example :: "(mem_sink, mem_store, bytes, nat) deps" where
  "memory_example = downloader_new (in_memory_sink example_host) in_memory_state_store
     (with_proof_verifier example_host (buffering_hash (\<lambda>bs. bs)) example_proof) (buffering_hash (\<lambda>bs. bs))
     example_env example_config example_host"

text \<open>An earlier run has left the second range staged, behind a hole, and a checkpoint that says so.\<close>

definition example_left :: download_state where
  "example_left = (download_state_new [107])\<lparr>st_total_length := 3, st_chunk_lens := [2, 1], st_root := Some (hex_of [2]),
     st_done_ranges := {1}\<rparr>"

definition example_stage :: mem_sink where
  "example_stage = mem_sink_new\<lparr>buf := [0, 0, 9]\<rparr>"

definition example_start :: "(mem_sink, mem_store, bytes, nat) job" where
  "example_start = job_new memory_example (RootContent [1] [2]) \<lparr>start_paused = False, resume_key = Some [107]\<rparr> example_stage
     \<lparr>ms_inner = [([107], example_left)], ms_reputation = [], ms_now = 0\<rparr> active_downloads_new 1"

definition example_loaded :: "(mem_sink, mem_store, bytes, nat) job" where
  "example_loaded = example_start\<lparr>jb_store := jb_store example_start, jb_resume := example_left,
     jb_commitment := resumed_commitment memory_example example_left\<rparr>"

lemma example_content_honest:
  "honest_content example_host (buffering_hash (\<lambda>bs. bs)) example_proof example_config (RootContent [1] [2])
     example_commitment [7, 8, 9]"
  by (simp add: honest_content_def example_inputs preparing example_commitment_def buffering_hash_def)

lemma example_env_honest:
  "honest_env (\<lambda>w. True) example_env example_config (RootContent [1] [2]) example_commitment [example_provider]"
  by (simp add: honest_env_def example_env_def in_time_def declares_def example_inputs example_commitment_def
      picks_offered_def select_plan_ordered_def len64_def default_range_timeout_def)

interpretation honest_memory: honest_download "buffering_hash (\<lambda>bs. bs)" "\<lambda>w. True" example_host example_proof example_env
  example_config in_memory_state_store "RootContent [1] [2]" example_commitment "[7, 8, 9]" "[example_provider]"
  by (unfold_locales, rule example_content_honest, rule example_env_honest)
    (simp_all add: example_inputs in_memory_state_store_def mem_save_def example_commitment_def)

lemma example_resumes:
  "resumed_commitment memory_example example_left = Some example_commitment"
  "resume_ok example_host example_commitment (window example_config) [7, 8, 9] example_left example_stage"
  by (simp_all add: resumed_commitment_def memory_example_def example_left_def download_state_new_def example_inputs preparing
      planning example_commitment_def resume_ok_def staged_truth_def mem_valid_def example_stage_def mem_sink_new_def slice_def)

lemma example_resumed_plan: "plan_ranges \<lparr>chunk_lens = [2, 1], offsets = [0, 2, 3]\<rparr> 2 =
    [\<lparr>r_index = 0, r_offset = 0, r_length = 2, chunk_start = 0, chunk_end = 1\<rparr>,
     \<lparr>r_index = 1, r_offset = 2, r_length = 1, chunk_start = 1, chunk_end = 2\<rparr>]"
  by (simp add: planning preparing)

lemma rehydrate_range_feeds:
  "\<lbrakk>jb_hasher J = Some h; sk_read_at (dp_sink D) (r_offset r) (r_length r) (jb_sink J) = (Ok bs, s);
     v_range (dp_verifier D) C (of_nat (chunk_start r)) (r_length r) bs = Ok u\<rbrakk>
   \<Longrightarrow> rehydrate_range D C r J = J\<lparr>jb_sink := s, jb_hasher := Some (feed (dp_hash D) (r_offset r) bs h)\<rparr>"
  by (simp add: rehydrate_range_def)

lemma example_range_verified: "v_range (with_proof_verifier \<lparr>usize_max = 18446744073709551615, reserve_refusal = \<lambda>n. None, max_resource_chunk_count = 1048576\<rparr> (buffering_hash (\<lambda>bs. bs)) PV)
   \<lparr>c_layout = \<lparr>chunk_lens = [2, 1], offsets = [0, 2, 3]\<rparr>, c_total_length = 3, c_root = r, c_inclusion_proof = p\<rparr> 1 1 [9] = Ok ()"
  by (simp add: with_proof_verifier_def merkle_verify_range_def try_usize_def planning preparing chunks_for_range_def)

lemmas resuming = memory_example_def example_start_def example_left_def example_stage_def example_inputs preparing
  example_commitment_def mem_sink_new_def in_memory_sink_def default_sink_def

lemma example_turns_honest:
  "honest_turns (Suc (Suc 0)) memory_example example_commitment [7, 8, 9]
     (plan_job memory_example example_commitment (snd (prepare_job memory_example example_loaded)))"
  by (simp add: example_loaded_def example_resumes(1),
      simp add: resuming,
      simp add: plan_job_def example_resumed_plan is_done_def emit_def Let_def resource_hasher_new_def,
      simp add: rehydrate_resumed_ranges_def,
      simp add: rehydrate_range_feeds example_range_verified mem_read_at_def read_back_bounds_def try_usize_def
        checked_add_def slice_def to_nat Let_def,
      simp add: honest_turns_def scheduling,
      simp add: scheduling emit_def honest_turn_def in_time_def preparing piece_at_def slice_def,
      simp add: scheduling completing planning preparing example_meta_def declaring_layout_def declaring_anchor_def
        range_meta_default_def mem_sink_defs read_back_bounds_def)

section \<open>A checkpoint taken with another window\<close>

text \<open>
  A checkpoint counts the ranges of the window it was taken with, and is dropped only when the chunk
  lengths differ. Here the first and the third byte were staged, right, with a window of one. Resumed
  with a window of two, the first range is taken for done although its second byte is a hole.
\<close>

definition three_chunks :: resource_commitment where
  "three_chunks = \<lparr>c_layout = \<lparr>chunk_lens = [1, 1, 1], offsets = [0, 1, 2, 3]\<rparr>, c_total_length = 3,
     c_root = Some (hex_of [2]), c_inclusion_proof = None\<rparr>"

definition rewindowed :: "(mem_sink, mem_store, bytes, nat) job" where
  "rewindowed = example_start\<lparr>jb_commitment := Some three_chunks, jb_sink := mem_sink_new\<lparr>buf := [7, 0, 9]\<rparr>,
     jb_resume := (download_state_new [107])\<lparr>st_total_length := 3, st_chunk_lens := [1, 1, 1],
       st_root := Some (hex_of [2]), st_done_ranges := {0, 2}\<rparr>\<rparr>"

lemma three_chunks_plans:
  "plan_ranges \<lparr>chunk_lens = [1, 1, 1], offsets = [0, 1, 2, 3]\<rparr> 1 =
    [\<lparr>r_index = 0, r_offset = 0, r_length = 1, chunk_start = 0, chunk_end = 1\<rparr>,
     \<lparr>r_index = 1, r_offset = 1, r_length = 1, chunk_start = 1, chunk_end = 2\<rparr>,
     \<lparr>r_index = 2, r_offset = 2, r_length = 1, chunk_start = 2, chunk_end = 3\<rparr>]"
  "plan_ranges \<lparr>chunk_lens = [1, 1, 1], offsets = [0, 1, 2, 3]\<rparr> 2 =
    [\<lparr>r_index = 0, r_offset = 0, r_length = 2, chunk_start = 0, chunk_end = 2\<rparr>,
     \<lparr>r_index = 1, r_offset = 2, r_length = 1, chunk_start = 2, chunk_end = 3\<rparr>]"
  by (simp_all add: planning preparing)

lemma three_chunks_verified:
  "v_range (with_proof_verifier \<lparr>usize_max = 18446744073709551615, reserve_refusal = \<lambda>n. None, max_resource_chunk_count = 1048576\<rparr>
      (buffering_hash (\<lambda>bs. bs)) PV) three_chunks 0 2 [7, 0] = Ok ()"
  by (simp add: three_chunks_def with_proof_verifier_def merkle_verify_range_def try_usize_def planning preparing
      chunks_for_range_def)

lemma other_window_taken_over:
  "staged_truth three_chunks 1 [7, 8, 9] {0, 2} [7, 0, 9]"
  "discard_bytes_staged_for_another_plan memory_example rewindowed = rewindowed"
  "jb_range_state (plan_job memory_example three_chunks rewindowed) = [Done, Pending]"
proof -
  show "staged_truth three_chunks 1 [7, 8, 9] {0, 2} [7, 0, 9]"
    by (simp add: staged_truth_def three_chunks_def three_chunks_plans slice_def)
  show "discard_bytes_staged_for_another_plan memory_example rewindowed = rewindowed"
    by (simp add: rewindowed_def discard_bytes_staged_for_another_plan_def three_chunks_def)
  have c: "c_layout three_chunks = \<lparr>chunk_lens = [1, 1, 1], offsets = [0, 1, 2, 3]\<rparr>" by (simp add: three_chunks_def)
  show "jb_range_state (plan_job memory_example three_chunks rewindowed) = [Done, Pending]"
    by (simp add: rewindowed_def resuming,
        simp add: plan_job_def c three_chunks_plans is_done_def emit_def Let_def resource_hasher_new_def,
        simp add: rehydrate_resumed_ranges_def,
        simp add: rehydrate_range_feeds three_chunks_verified mem_read_at_def read_back_bounds_def try_usize_def
          checked_add_def slice_def to_nat Let_def)
qed

section \<open>Properties\<close>

text \<open>
  C4: a download into memory among honest holders succeeds, whether it is fresh or resumed. It may
  find a checkpoint that commits to this resource, or one that commits to nothing usable, whose
  ranges are dropped when its layout is not the agreed one. Each range the checkpoint claims for
  this layout is either not wholly staged, and then it is fetched again, or staged with the right
  bytes; the other staged bytes may be anything. When the holders that discovery finds confirm
  the content and declare a layout the client accepts, and the fetches in flight come back, in
  whatever order and from whatever holder the selector picks, with the bytes of their ranges, then
  after as many turns as the plan has ranges the task returns the resource's length and the buffer
  holds exactly the resource.
\<close>

theorem honest_download_succeeds:
  assumes "streaming_hash HO" and "honest_content H HO PV cf c C bs" and "honest_env W E cf c C ps" and "W w"
    and "verify_whole_resource cf" and "1 \<le> max_concurrency cf" and "1 \<le> max_inflight_per_source cf"
    and "unat (c_total_length C) \<le> usize_max H" and "max_resource_chunk_count H \<le> usize_max H" and "usize_max H < 2 ^ 64"
    and "\<And>st t. \<exists>t'. ss_save T st t = (Ok (), t')"
    and "D = downloader_new (in_memory_sink H) T (with_proof_verifier H HO PV) HO E cf H"
    and "J = job_new D c opts s t R w" and "\<not> start_paused opts"
    and "ss_load T (jb_key J) t = (Ok found, t1)"
    and "st = (case found of Some st \<Rightarrow> st | None \<Rightarrow> download_state_new (jb_key J))"
    and "resumed_commitment D st \<in> {None, Some C}" and "resume_ok H C (window cf) bs st s"
    and "J0 = J\<lparr>jb_store := t1, jb_resume := st, jb_commitment := resumed_commitment D st\<rparr>"
    and "n = length (plan_ranges (c_layout C) (window cf))"
  shows "\<exists>J1. prepare_job D J0 = (Ok C, J1)
    \<and> (honest_turns n D C bs (plan_job D C J1) \<longrightarrow>
        (\<exists>J'. run_job (Suc n) D J = Some (Ok (c_total_length C), J') \<and> mem_artifact (jb_sink J') = Some bs))"
proof -
  have L: "honest_download HO W H PV E cf T c C bs ps"
    using assms(1-3,5-11) by (intro honest_download.intro honest_download_axioms.intro)
  have D: "D = honest_download.D HO H PV E cf T"
    by (simp add: honest_download.D_def[OF L] assms(12))
  from honest_download.run_job_resumed[OF L assms(4) assms(13)[unfolded D] assms(14-16) assms(17)[unfolded D] assms(18) assms(19)[unfolded D]]
  show ?thesis unfolding D assms(20) by (simp add: honest_download.plan_def[OF L]) blast
qed

theorem honest_download_succeeds_witness:
  "\<exists>J'. run_job (Suc (Suc (Suc 0))) memory_example example_start = Some (Ok 3, J') \<and> mem_artifact (jb_sink J') = Some [7, 8, 9]"
proof -
  have turns: "Suc (Suc 0) = length (plan_ranges (c_layout example_commitment) (window example_config))"
    by (simp add: example_commitment_def example_config_def planning)
  have load: "ss_load in_memory_state_store (jb_key example_start) \<lparr>ms_inner = [([107], example_left)], ms_reputation = [], ms_now = 0\<rparr>
      = (Ok (Some example_left), jb_store example_start)"
    by (simp add: in_memory_state_store_def mem_load_def example_start_def job_new_def)
  have len: "c_total_length example_commitment = 3" by (simp add: example_commitment_def)
  show ?thesis
    using honest_download_succeeds[OF buffering.streaming_hash_axioms honest_memory.content honest_memory.env TrueI
        honest_memory.whole honest_memory.caps honest_memory.fits honest_memory.saves memory_example_def example_start_def
        _ load _ _ example_resumes(2) example_loaded_def turns] example_resumes(1) example_turns_honest len by auto
qed

end
