(* ===== verification/Mock_Transport.thy ===== *)
theory Mock_Transport
  imports Module_Plan Download_Live
begin

text \<open>
  The in-memory network a download is tested over (\<^verbatim>\<open>src/src/testkit.rs\<close>): the content a mock
  holder serves, the ways it may misbehave, the transport, the locator and the selector, with the
  state each records.

  The doubles are models of holders, so the questions about them are the two a test relies on: that
  an honest double is an honest holder, and that each misbehaviour is caught by the check it is
  meant to exercise. An operation that panics (a failed assertion, an index out of range, an
  overflow in a test build) is \<open>None\<close>.
\<close>

section \<open>The content\<close>

record mock_content =
  mk_bytes :: bytes
  mk_chunk_lens :: "u64 list"
  mk_root :: rstring
  mk_inclusion_proof :: "rstring option"
  mk_offsets :: "u64 list"
  mk_declared_layout :: "(u64 \<times> u64 list) option"

definition repeat_str :: "nat \<Rightarrow> rstring \<Rightarrow> rstring" where
  "repeat_str n s = concat (replicate n s)"

fun running_offsets :: "u64 \<Rightarrow> u64 list \<Rightarrow> u64 list" where
  "running_offsets acc [] = [acc]"
| "running_offsets acc (l # ls) = acc # running_offsets (acc + l) ls"

definition mock_content_new :: "bytes \<Rightarrow> u64 list \<Rightarrow> mock_content option" where
  "mock_content_new bs lens =
     (case try_sum 0 lens of
        None \<Rightarrow> None
      | Some tot \<Rightarrow>
          if len64 bs \<noteq> tot then None
          else Some \<lparr>mk_bytes = bs, mk_chunk_lens = lens, mk_root = repeat_str 32 (lit ''ab''),
                     mk_inclusion_proof = Some (lit ''mock-proof''), mk_offsets = running_offsets 0 lens,
                     mk_declared_layout = None\<rparr>)"

definition declaring :: "u64 \<Rightarrow> u64 list \<Rightarrow> mock_content \<Rightarrow> mock_content" where
  "declaring tot lens K = K\<lparr>mk_declared_layout := Some (tot, lens)\<rparr>"

definition even_content :: "nat \<Rightarrow> nat \<Rightarrow> mock_content option" where
  "even_content n chunks0 =
     (let chunks = max chunks0 1;
          base = n div chunks;
          lens = replicate chunks (of_nat base :: u64);
          last_len = of_nat base + of_nat (n - chunks * base);
          bs = map (\<lambda>i. of_nat (i mod 251)) [0 ..< n]
      in mock_content_new bs (lens[chunks - 1 := last_len]))"

definition chunk_index_at :: "mock_content \<Rightarrow> u64 \<Rightarrow> u64" where
  "chunk_index_at K off = (case position (\<lambda>q. q = off) (mk_offsets K) of Some i \<Rightarrow> of_nat i | None \<Rightarrow> 0)"

definition content_meta :: "mock_content \<Rightarrow> u64 \<Rightarrow> range_meta" where
  "content_meta K off =
     (case (case mk_declared_layout K of
              Some (tot, lens) \<Rightarrow> (tot, lens)
            | None \<Rightarrow> (len64 (mk_bytes K), mk_chunk_lens K)) of
        (tot, lens) \<Rightarrow>
          declaring_chunk_index (chunk_index_at K off)
            (declaring_anchor (mk_root K) (mk_inclusion_proof K)
              (declaring_layout tot lens (len64 lens) range_meta_default)))"

section \<open>Behaviours\<close>

datatype availability_claim = ClaimHonest | ClaimOwnShortShape | ClaimSilent

datatype behavior =
    BHonest
  | BCorrupt
  | BTruncate
  | BShortAligned
  | BUnavailable
  | BDropAfter nat
  | BAlwaysFail
  | BWrongRoot
  | BShortLayout u64 "u64 list" availability_claim
  | BUnderDeliveredPrologue u64
  | BNoRoot
  | BAvailableThenRefuses

record mock_transport =
  mt_content :: mock_content
  mt_behaviors :: "(rstring \<times> behavior) list"
  mt_provider_attempts :: "(rstring \<times> nat) list"
  mt_offset_attempts :: "(u64 \<times> nat) list"
  mt_probe_count :: nat
  mt_delay :: "nat option"
  mt_delay_probes :: bool

definition mock_transport_new :: "mock_content \<Rightarrow> mock_transport" where
  "mock_transport_new K =
     \<lparr>mt_content = K, mt_behaviors = [], mt_provider_attempts = [], mt_offset_attempts = [],
      mt_probe_count = 0, mt_delay = None, mt_delay_probes = True\<rparr>"

definition set_delay :: "nat \<Rightarrow> mock_transport \<Rightarrow> mock_transport" where
  "set_delay d M = M\<lparr>mt_delay := Some d, mt_delay_probes := True\<rparr>"

definition set_range_delay :: "nat \<Rightarrow> mock_transport \<Rightarrow> mock_transport" where
  "set_range_delay d M = M\<lparr>mt_delay := Some d, mt_delay_probes := False\<rparr>"

definition set_behavior :: "rstring \<Rightarrow> behavior \<Rightarrow> mock_transport \<Rightarrow> mock_transport" where
  "set_behavior peer b M = M\<lparr>mt_behaviors := AList.update peer b (mt_behaviors M)\<rparr>"

definition count_of :: "('k \<times> nat) list \<Rightarrow> 'k \<Rightarrow> nat" where
  "count_of al k = (case map_of al k of Some n \<Rightarrow> n | None \<Rightarrow> 0)"

definition attempts_for :: "mock_transport \<Rightarrow> rstring \<Rightarrow> nat" where
  "attempts_for M peer = count_of (mt_provider_attempts M) peer"

definition metadata_probes :: "mock_transport \<Rightarrow> nat" where
  "metadata_probes M = mt_probe_count M"

definition attempts_at :: "mock_transport \<Rightarrow> u64 \<Rightarrow> nat" where
  "attempts_at M off = count_of (mt_offset_attempts M) off"

definition behavior_of :: "mock_transport \<Rightarrow> rstring \<Rightarrow> behavior" where
  "behavior_of M peer = (case map_of (mt_behaviors M) peer of Some b \<Rightarrow> b | None \<Rightarrow> BHonest)"

section \<open>The transport\<close>

text \<open>An availability answer of the wire crate, by the fields its builder sets.\<close>

record availability_answer =
  aa_available :: bool
  aa_roots :: "rstring list"
  aa_complete :: bool
  aa_total_length :: "u64 option"
  aa_chunk_count :: "u64 option"

definition claimed_shape :: "mock_content \<Rightarrow> behavior \<Rightarrow> (u64 \<times> u64) option" where
  "claimed_shape K b =
     (case b of
        BShortLayout tot lens ClaimSilent \<Rightarrow> None
      | BShortLayout tot lens ClaimOwnShortShape \<Rightarrow> Some (tot, len64 lens)
      | _ \<Rightarrow> Some (len64 (mk_bytes K), len64 (mk_chunk_lens K)))"

definition mock_query_availability ::
    "provider_record \<Rightarrow> availability_item list \<Rightarrow> mock_transport \<Rightarrow> download_error + availability_answer list" where
  "mock_query_availability p items M =
     (let b = behavior_of M (provider_peer_id p);
          held = (b \<noteq> BUnavailable \<and> b \<noteq> BAlwaysFail);
          claimed = claimed_shape (mt_content M) b
      in Ok (map (\<lambda>item. \<lparr>aa_available = held, aa_roots = [mk_root (mt_content M)], aa_complete = True,
                          aa_total_length = map_option fst claimed, aa_chunk_count = map_option snd claimed\<rparr>) items))"

text \<open>What the bytes of a range become, and what its metadata becomes.\<close>

definition misserve :: "mock_content \<Rightarrow> behavior \<Rightarrow> u64 \<Rightarrow> bytes \<Rightarrow> bytes" where
  "misserve K b off bs =
     (case b of
        BTruncate \<Rightarrow> butlast bs
      | BCorrupt \<Rightarrow> map (\<lambda>x. xor x 255) bs
      | BShortAligned \<Rightarrow>
          (case get_opt (mk_chunk_lens K) (unat (chunk_index_at K off)) of
             Some first_len \<Rightarrow>
               (let keep = min (unat first_len) (length bs)
                in if keep < length bs then take keep bs else bs)
           | None \<Rightarrow> bs)
      | _ \<Rightarrow> bs)"

definition misdeclare :: "behavior \<Rightarrow> range_meta \<Rightarrow> range_meta" where
  "misdeclare b m =
     (case b of
        BWrongRoot \<Rightarrow> m\<lparr>rm_root := Some (repeat_str 32 (lit ''cd''))\<rparr>
      | BShortLayout tot lens claimed \<Rightarrow> declaring_layout tot lens (len64 lens) m
      | BUnderDeliveredPrologue declared \<Rightarrow> m\<lparr>rm_chunk_count := Some declared\<rparr>
      | BNoRoot \<Rightarrow> m\<lparr>rm_root := None\<rparr>
      | _ \<Rightarrow> m)"

definition refuses :: "behavior \<Rightarrow> nat \<Rightarrow> bool" where
  "refuses b attempts =
     (case b of
        BUnavailable \<Rightarrow> True
      | BAlwaysFail \<Rightarrow> True
      | BAvailableThenRefuses \<Rightarrow> True
      | BDropAfter n \<Rightarrow> n < attempts
      | _ \<Rightarrow> False)"

text \<open>The counters are written before anything can fail.\<close>

definition note_fetch :: "rstring \<Rightarrow> range_request \<Rightarrow> mock_transport \<Rightarrow> mock_transport" where
  "note_fetch peer req M =
     M\<lparr>mt_provider_attempts := AList.update peer (attempts_for M peer + 1) (mt_provider_attempts M),
       mt_offset_attempts := AList.update (rq_offset req) (attempts_at M (rq_offset req) + 1) (mt_offset_attempts M),
       mt_probe_count := (if rq_length req = 1 then mt_probe_count M + 1 else mt_probe_count M)\<rparr>"

definition fetch_delay :: "mock_transport \<Rightarrow> range_request \<Rightarrow> nat" where
  "fetch_delay M req =
     (case mt_delay M of
        Some d \<Rightarrow> if rq_length req \<noteq> 1 \<or> mt_delay_probes M then d else 0
      | None \<Rightarrow> 0)"

text \<open>
  The answer: the time it takes and the result. The end of the requested range is computed with an
  addition that overflows in a test build, and a range that starts past the end cannot be sliced.
\<close>

definition mock_fetch_range ::
    "provider_record \<Rightarrow> range_request \<Rightarrow> mock_transport
     \<Rightarrow> (nat \<times> (download_error + fetched_range)) option \<times> mock_transport" where
  "mock_fetch_range p req M0 =
     (let peer = provider_peer_id p;
          M = note_fetch peer req M0;
          K = mt_content M;
          b = behavior_of M peer;
          elapsed = fetch_delay M req
      in if refuses b (attempts_for M peer)
         then (Some (elapsed, Err (Transport peer (lit ''mock: source failed''))), M)
         else
           (case checked_add (rq_offset req) (rq_length req) of
              None \<Rightarrow> (None, M)
            | Some stop0 \<Rightarrow>
                (let start = unat (rq_offset req);
                     stop = min (unat stop0) (length (mk_bytes K))
                 in if stop < start then (None, M)
                    else (Some (elapsed, Ok \<lparr>request_offset = rq_offset req,
                             fetched_bytes = misserve K b (rq_offset req) (slice (mk_bytes K) start (stop - start)),
                             fetched_meta = misdeclare b (content_meta K (rq_offset req))\<rparr>), M))))"

section \<open>The locator\<close>

record mock_locator =
  ml_batches :: "provider_record list list"
  ml_calls :: nat

definition locator_fixed :: "provider_record list \<Rightarrow> mock_locator" where
  "locator_fixed ps = \<lparr>ml_batches = [ps], ml_calls = 0\<rparr>"

definition locator_scripted :: "provider_record list list \<Rightarrow> mock_locator" where
  "locator_scripted batches = \<lparr>ml_batches = (if batches = [] then [[]] else batches), ml_calls = 0\<rparr>"

definition call_count :: "mock_locator \<Rightarrow> nat" where
  "call_count L = ml_calls L"

definition mock_find_providers ::
    "content_id \<Rightarrow> mock_locator \<Rightarrow> (download_error + provider_record list) \<times> mock_locator" where
  "mock_find_providers c L =
     (Ok (ml_batches L ! min (ml_calls L) (length (ml_batches L) - 1)), L\<lparr>ml_calls := ml_calls L + 1\<rparr>)"

section \<open>The selector\<close>

record mock_selector =
  mx_select_calls :: nat
  mx_recorded :: "range_outcome list"
  mx_forced_order :: "rstring list option"

definition mock_selector_new :: mock_selector where
  "mock_selector_new = \<lparr>mx_select_calls = 0, mx_recorded = [], mx_forced_order = None\<rparr>"

definition mock_selector_with_order :: "rstring list \<Rightarrow> mock_selector" where
  "mock_selector_with_order order = mock_selector_new\<lparr>mx_forced_order := Some order\<rparr>"

definition select_call_count :: "mock_selector \<Rightarrow> nat" where
  "select_call_count X = mx_select_calls X"

definition outcomes :: "mock_selector \<Rightarrow> range_outcome list" where
  "outcomes X = mx_recorded X"

fun append_missing :: "rstring list \<Rightarrow> rstring list \<Rightarrow> rstring list" where
  "append_missing plan [] = plan"
| "append_missing plan (p # ps) = append_missing (if p \<in> set plan then plan else plan @ [p]) ps"

definition mock_select :: "select_request \<Rightarrow> mock_selector \<Rightarrow> select_plan \<times> mock_selector" where
  "mock_select req X =
     (let X1 = X\<lparr>mx_select_calls := mx_select_calls X + 1\<rparr>;
          offered = map cr_peer_id (sr_candidates req)
      in (select_plan_ordered
            (case mx_forced_order X of
               Some order \<Rightarrow> append_missing (filter (\<lambda>p. p \<in> set offered) order) offered
             | None \<Rightarrow> offered), X1))"

definition mock_record :: "range_outcome \<Rightarrow> mock_selector \<Rightarrow> mock_selector" where
  "mock_record out X = X\<lparr>mx_recorded := mx_recorded X @ [out]\<rparr>"

section \<open>Mock providers\<close>

definition mock_peer_hex :: "u8 \<Rightarrow> rstring" where
  "mock_peer_hex n = hex_of (replicate 32 n)"

definition mock_provider :: "u8 \<Rightarrow> content_id \<Rightarrow> provider_record" where
  "mock_provider n c =
     \<lparr>provider_peer_id = hex_of (replicate 32 n),
      addresses = [\<lparr>host_text = lit ''10.0.0.'' @ dec (unat n), port = 9444, dialable = True\<rparr>]\<rparr>"

definition mock_provider_with_peer_id :: "rstring \<Rightarrow> content_id \<Rightarrow> provider_record" where
  "mock_provider_with_peer_id peer c = (mock_provider 1 c)\<lparr>provider_peer_id := peer\<rparr>"

definition mock_content_id :: content_id where
  "mock_content_id = ResourceContent (replicate 32 1) (replicate 32 0xAB) (replicate 32 3)"

definition mock_providers :: "u8 \<Rightarrow> content_id \<Rightarrow> provider_record list" where
  "mock_providers n c = map (\<lambda>i. mock_provider (of_nat i) c) [1 ..< unat n + 1]"

section \<open>The network as the environment of a download\<close>

text \<open>
  The world a download runs in: the transport, the locator, the selector, the clock and the number of
  turns taken. Which fetch finishes when is the runtime's choice, a function \<open>sched\<close> of the world.
  A probe asks for the first byte, which never panics; the task of a panic is gone.
\<close>

record mock_world =
  mw_transport :: mock_transport
  mw_locator :: mock_locator
  mw_selector :: mock_selector
  mw_now :: nat
  mw_step :: nat

definition mock_selector_ops :: "mock_world selector_ops" where
  "mock_selector_ops =
     \<lparr>sel_select = (\<lambda>req w. case mock_select req (mw_selector w) of (plan, X) \<Rightarrow> (plan, w\<lparr>mw_selector := X\<rparr>)),
      sel_record = (\<lambda>out w. w\<lparr>mw_selector := mock_record out (mw_selector w)\<rparr>)\<rparr>"

definition mock_env :: "ip_ops \<Rightarrow> (mock_world \<Rightarrow> turn) \<Rightarrow> mock_world env" where
  "mock_env I sched =
     \<lparr>en_find_providers = (\<lambda>c w. case mock_find_providers c (mw_locator w) of (r, L) \<Rightarrow> (r, w\<lparr>mw_locator := L\<rparr>)),
      en_availability = (\<lambda>p items w.
        (and_then (mock_query_availability p items (mw_transport w)) (\<lambda>as. Ok (map aa_available as)), w)),
      en_fetch_range = (\<lambda>p req w.
        (case mock_fetch_range p req (mw_transport w) of
           (Some answer, M) \<Rightarrow> (answer, w\<lparr>mw_transport := M\<rparr>)
         | (None, M) \<Rightarrow> ((0, Err TaskEnded), w\<lparr>mw_transport := M\<rparr>))),
      en_now = mw_now,
      en_turn = (\<lambda>w. (sched w, w\<lparr>mw_step := mw_step w + 1\<rparr>)),
      en_selector = mock_selector_ops,
      en_ips = I,
      en_show_content = (\<lambda>c. []),
      en_content_key = (\<lambda>c. [])\<rparr>"

text \<open>A fetch in flight comes back with what the transport \<open>M\<close> answers to its request.\<close>

definition mock_answers :: "mock_transport \<Rightarrow> turn \<Rightarrow> ('s, 't, 'h, 'w) job \<Rightarrow> bool" where
  "mock_answers M tn J \<longleftrightarrow>
     (case tn of
        FetchDone k elapsed raw \<Rightarrow>
          k < length (jb_inflight J)
          \<and> (case (fj_provider (jb_inflight J ! k), fj_request (jb_inflight J ! k)) of
               (Some p, Ok req) \<Rightarrow> fst (mock_fetch_range p req M) = Some (elapsed, raw)
             | _ \<Rightarrow> False)
      | _ \<Rightarrow> False)"

definition all_honest :: "mock_transport \<Rightarrow> bool" where
  "all_honest M \<longleftrightarrow> (\<forall>peer. behavior_of M peer = BHonest)"

section \<open>What the transport serves\<close>

lemma note_fetch_fields [simp]:
  "mt_content (note_fetch peer req M) = mt_content M" "mt_behaviors (note_fetch peer req M) = mt_behaviors M"
  "mt_delay (note_fetch peer req M) = mt_delay M" "mt_delay_probes (note_fetch peer req M) = mt_delay_probes M"
  "attempts_for (note_fetch peer req M) peer = attempts_for M peer + 1"
  by (simp_all add: note_fetch_def attempts_for_def count_of_def update_conv')

lemma note_fetch_derived [simp]:
  "behavior_of (note_fetch peer req M) = behavior_of M" "fetch_delay (note_fetch peer req M) = fetch_delay M"
  "all_honest (note_fetch peer req M) = all_honest M"
  by (simp_all add: fun_eq_iff behavior_of_def fetch_delay_def all_honest_def split: option.split)

lemma mock_content_newD:
  assumes "mock_content_new bs lens = Some K"
  shows "mk_bytes K = bs" "mk_chunk_lens K = lens" "mk_root K = repeat_str 32 (lit ''ab'')" "mk_declared_layout K = None"
    "mk_offsets K = running_offsets 0 lens" "mk_inclusion_proof K = Some (lit ''mock-proof'')"
  using assms by (auto simp: mock_content_new_def split: option.splits if_splits)

text \<open>A request inside the content is answered, with the bytes and the metadata of the behaviour.\<close>

lemma mock_fetch_inside:
  assumes "unat (rq_offset req) + unat (rq_length req) \<le> length (mk_bytes (mt_content M))" "vec_ok (mk_bytes (mt_content M))"
  shows "mock_fetch_range p req M =
    (Some (fetch_delay M req,
       if refuses (behavior_of M (provider_peer_id p)) (attempts_for M (provider_peer_id p) + 1)
       then Err (Transport (provider_peer_id p) (lit ''mock: source failed''))
       else Ok \<lparr>request_offset = rq_offset req,
              fetched_bytes = misserve (mt_content M) (behavior_of M (provider_peer_id p)) (rq_offset req)
                (slice (mk_bytes (mt_content M)) (unat (rq_offset req)) (unat (rq_length req))),
              fetched_meta = misdeclare (behavior_of M (provider_peer_id p)) (content_meta (mt_content M) (rq_offset req))\<rparr>),
     note_fetch (provider_peer_id p) req M)"
proof -
  obtain e where e: "checked_add (rq_offset req) (rq_length req) = Some e"
    using assms checked_add_None_iff[of "rq_offset req" "rq_length req"] by (cases "checked_add (rq_offset req) (rq_length req)") auto
  then have "unat e = unat (rq_offset req) + unat (rq_length req)" by (rule checked_add_SomeD)
  then show ?thesis using assms e by (simp add: mock_fetch_range_def Let_def)
qed

lemma honest_serves [simp]: "misserve K BHonest off bs = bs" "misdeclare BHonest m = m" "\<not> refuses BHonest n"
  by (simp_all add: misserve_def misdeclare_def refuses_def)


section \<open>Honest doubles are honest holders\<close>

text \<open>The states of the world in which the holders \<open>ps\<close> serve the content \<open>K\<close>, each fetch after \<open>d\<close>.\<close>

definition mock_network :: "mock_content \<Rightarrow> provider_record list \<Rightarrow> nat option \<Rightarrow> mock_world \<Rightarrow> bool" where
  "mock_network K ps d w \<longleftrightarrow> mt_content (mw_transport w) = K \<and> all_honest (mw_transport w)
     \<and> mt_delay (mw_transport w) = d \<and> ml_batches (mw_locator w) = [ps]"

lemma fetch_delay_le: "fetch_delay M req \<le> (case mt_delay M of Some d \<Rightarrow> d | None \<Rightarrow> 0)"
  by (simp add: fetch_delay_def split: option.split)

lemma set_append_missing: "set (append_missing plan ps) = set plan \<union> set ps"
  by (induction plan ps rule: append_missing.induct) auto

lemma mock_selector_offered:
  "set (ordered (fst (mock_select req X))) = cr_peer_id ` set (sr_candidates req)"
  "assignments (fst (mock_select req X)) = []"
  by (auto simp: mock_select_def select_plan_ordered_def Let_def set_append_missing split: option.split)

lemma mock_picks_offered: "picks_offered (mock_network K ps d) mock_selector_ops"
proof -
  have "ordered (fst (mock_select req X)) \<noteq> []" if "sr_candidates req \<noteq> []" for req X
    using mock_selector_offered(1)[of req X] that by auto
  then show ?thesis
    using mock_selector_offered by (auto simp: picks_offered_def mock_selector_ops_def mock_network_def case_prod_beta)
qed

lemma declares_honest:
  assumes "mock_content_new bs lens = Some K"
    and "from_first_frame_bounded H (len64 bs) lens (Some (mk_root K)) (mk_inclusion_proof K) mx = Ok C"
  shows "declares C (content_meta K off)"
  using mock_content_newD[OF assms(1)] from_first_frame_OkD[OF assms(2)]
  by (simp add: declares_def content_meta_def declaring_chunk_index_def declaring_anchor_def declaring_layout_def)

lemma mock_env_honest:
  assumes K: "mock_content_new bs lens = Some K"
    and C: "from_first_frame_bounded H (len64 bs) lens (Some (mk_root K)) (mk_inclusion_proof K) mx = Ok C"
    and bs: "bs \<noteq> []" "vec_ok bs" and ps: "ps \<noteq> []" and d: "in_time cf (case d of Some d \<Rightarrow> d | None \<Rightarrow> 0)"
  shows "honest_env (mock_network K ps d) (mock_env I sched) cf mock_content_id C ps"
proof -
  have answered: "fst (en_availability (mock_env I sched) p [item] w) = Ok [True]" if "mock_network K ps d w" for p item w
    using that by (simp add: mock_env_def mock_query_availability_def mock_network_def all_honest_def Let_def)
  have probed: "mock_network K ps d (snd (en_fetch_range (mock_env I sched) p req w))
      \<and> (\<exists>el f. fst (en_fetch_range (mock_env I sched) p req w) = (el, Ok f) \<and> in_time cf el \<and> declares C (fetched_meta f))"
    if w: "mock_network K ps d w" and r: "range_request_for mock_content_id 0 1 False = Ok req" for p req w
  proof -
    have rq: "rq_offset req = 0" "rq_length req = 1" using r by (auto simp: range_request_for_def mock_content_id_def)
    have len: "unat (rq_offset req) + unat (rq_length req) \<le> length (mk_bytes (mt_content (mw_transport w)))"
      using w bs(1) mock_content_newD(1)[OF K] rq by (cases bs) (simp_all add: mock_network_def)
    have v: "vec_ok (mk_bytes (mt_content (mw_transport w)))"
      using w bs(2) mock_content_newD(1)[OF K] by (simp add: mock_network_def)
    have "in_time cf (fetch_delay (mw_transport w) req)"
      using d fetch_delay_le[of "mw_transport w" req] w by (auto simp: in_time_def mock_network_def split: option.splits)
    then show ?thesis
      using w mock_fetch_inside[OF len v, of p] declares_honest[OF K C]
      by (simp add: mock_env_def mock_network_def all_honest_def)
  qed
  show ?thesis unfolding honest_env_def
  proof (intro conjI allI impI)
    fix p req w
    assume "mock_network K ps d w" "range_request_for mock_content_id 0 1 False = Ok req"
    from probed[OF this, of p] show "mock_network K ps d (snd (en_fetch_range (mock_env I sched) p req w))"
      "\<exists>el f. fst (en_fetch_range (mock_env I sched) p req w) = (el, Ok f) \<and> in_time cf el \<and> declares C (fetched_meta f)"
      by blast+
  qed (use ps mock_picks_offered answered in
      \<open>auto simp: mock_env_def mock_find_providers_def mock_network_def\<close>)
qed


context honest_download
begin

lemma mock_turn_honest:
  assumes l: "live J" and a: "mock_answers M tn J"
    and M: "all_honest M" "mk_bytes (mt_content M) = bs" "\<And>off. declares C (content_meta (mt_content M) off)"
    and d: "in_time cf (case mt_delay M of Some d \<Rightarrow> d | None \<Rightarrow> 0)"
  shows "honest_turn cf C bs tn J"
proof -
  obtain k el raw where tn: "tn = FetchDone k el raw" and k: "k < length (jb_inflight J)"
    using a by (auto simp: mock_answers_def split: turn.splits)
  define i where "i = fj_range (jb_inflight J ! k)"
  have u: "untroubled J" and b: "book_ok D J" using l by (simp_all add: live_def)
  have "as_planned i (jb_inflight J ! k)" using u k by (simp add: untroubled_def list_all_length i_def)
  then obtain p req where f: "fj_provider (jb_inflight J ! k) = Some p" "fj_request (jb_inflight J ! k) = Ok req"
      "rq_offset req = r_offset (plan ! i)" "rq_length req = r_length (plan ! i)"
    using content
    by (auto simp: as_planned_def range_request_for_def honest_content_def split: content_id.splits)
  have "(i, fj_peer (jb_inflight J ! k)) \<in> (\<lambda>fj. (fj_range fj, fj_peer fj)) ` set (jb_inflight J)"
    using k by (auto simp: i_def)
  moreover have "mirror (jb_range_state J) (jb_inflight J)" "length (jb_range_state J) = length plan"
    using b u by (simp_all add: book_ok_def untroubled_def)
  ultimately have i: "i < length plan" unfolding mirror_def by metis
  have inside: "unat (rq_offset req) + unat (rq_length req) \<le> length (mk_bytes (mt_content M))"
    using tiles_end_total[OF plan_tiles, of "plan ! i"] i layout(2) M(2) f by simp
  have "length bs = unat (c_total_length C)" using content by (simp add: honest_content_def)
  then have vec: "vec_ok (mk_bytes (mt_content M))" using M(2) unat_bound[of "c_total_length C"] by simp
  have "mock_fetch_range p req M = (Some (fetch_delay M req, Ok \<lparr>request_offset = rq_offset req,
      fetched_bytes = snd (piece_at bs (plan ! i)), fetched_meta = content_meta (mt_content M) (rq_offset req)\<rparr>),
      note_fetch (provider_peer_id p) req M)"
    using mock_fetch_inside[OF inside vec, of p] M(1,2) f by (simp add: all_honest_def)
  then have r: "raw = Ok \<lparr>request_offset = rq_offset req, fetched_bytes = snd (piece_at bs (plan ! i)),
      fetched_meta = content_meta (mt_content M) (rq_offset req)\<rparr>" "el = fetch_delay M req"
    using a f by (simp_all add: mock_answers_def tn)
  have "in_time cf (fetch_delay M req)"
    using d fetch_delay_le[of M req] by (auto simp: in_time_def split: option.splits)
  moreover have "check_consistent C (rm_total_length m) (rm_chunk_lens m) (rm_root m) = Ok ()" if "declares C m" for m
    using that by (simp add: check_consistent_iff declares_def)
  ultimately show ?thesis
    using k u M(3) by (simp add: honest_turn_def tn r i_def untroubled_def)
qed

lemma turns_honest:
  assumes "\<And>J tn. live J \<Longrightarrow> P tn J \<Longrightarrow> honest_turn cf C bs tn J"
  shows "live J \<Longrightarrow> turns_meet P n D J \<Longrightarrow> honest_turns n D C bs J"
proof (induction n arbitrary: J)
  case 0
  then show ?case by (simp add: honest_turns_def)
next
  case (Suc n)
  define K where "K = fill D J"
  note f = fill_live[OF Suc(2), folded K_def] and top = loop_top_live[OF Suc(2) K_def]
  show ?case
  proof (cases "all_done K")
    case True
    then show ?thesis using top by (simp add: honest_turns_def)
  next
    case False
    obtain tn J2 where n: "next_turn D K = (tn, J2)" by fastforce
    have l2: "live J2" by (rule next_turn_live[OF f(1) n])
    have p: "P tn J2" using Suc(3) top False n by simp
    have h: "honest_turn cf C bs tn J2" by (rule assms[OF l2 p])
    from turn_live[OF l2 h, of None] obtain J3 where J3: "take_turn D None tn J2 = (Ok (), J3)" "live J3" by blast
    have "turns_meet P n D J3" using Suc(3) top False n J3(1) by simp
    from Suc.IH[OF J3(2) this] show ?thesis using top False n J3(1) h by (simp add: honest_turns_def)
  qed
qed

end


section \<open>Properties\<close>

lemma hex_of_repeated: "hex_of (replicate n x) = repeat_str n (hex_of [x])"
  by (induction n) (simp_all add: hex_of_def repeat_str_def)

lemma mock_root: "hex_of (replicate 32 0xAB) = repeat_str 32 (lit ''ab'')"
  by (simp add: hex_of_repeated) (simp add: hex_of_def hex_digit_def lit_def)

lemma mock_content_honest:
  assumes K: "mock_content_new bs lens = Some K"
    and C: "from_first_frame_bounded H (len64 bs) lens (Some (mk_root K)) (mk_inclusion_proof K) (max_resource_size cf) = Ok C"
    and lens: "lens \<noteq> []" "0 \<notin> set lens" and bs: "vec_ok bs"
    and PV: "PV (h_digest HO bs) (mk_inclusion_proof K) (Some (mk_root K))"
  shows "honest_content H HO PV cf mock_content_id C bs"
  using from_first_frame_OkD[OF C] C lens PV mock_content_newD(3)[OF K] mock_root bs
  by (simp add: honest_content_def mock_content_id_def content_root_hex_def check_declared_root_def unat_len64)

text \<open>
  A download of a mock content over the mock network, every holder honest and the fetches
  answered by the mock transport in any order, returns success with exactly the content's bytes.
\<close>

theorem mock_download_succeeds:
  assumes "streaming_hash HO" and "mock_content_new bs lens = Some K"
    and "from_first_frame_bounded H (len64 bs) lens (Some (mk_root K)) (mk_inclusion_proof K) (max_resource_size cf) = Ok C"
    and "lens \<noteq> []" and "0 \<notin> set lens" and "bs \<noteq> []" and "length bs \<le> usize_max H"
    and "PV (h_digest HO bs) (mk_inclusion_proof K) (Some (mk_root K))"
    and "ps \<noteq> []" and "mock_network K ps d w" and "in_time cf (case d of Some d \<Rightarrow> d | None \<Rightarrow> 0)"
    and "verify_whole_resource cf" and "1 \<le> max_concurrency cf" and "1 \<le> max_inflight_per_source cf"
    and "max_resource_chunk_count H \<le> usize_max H" and "usize_max H < 2 ^ 64"
    and "\<And>st t. \<exists>t'. ss_save T st t = (Ok (), t')"
    and "D = downloader_new (in_memory_sink H) T (with_proof_verifier H HO PV) HO (mock_env I sched) cf H"
    and "J = job_new D mock_content_id opts mem_sink_new t R w" and "\<not> start_paused opts"
    and "ss_load T (jb_key J) t = (Ok None, t1)"
    and "J0 = J\<lparr>jb_store := t1, jb_resume := download_state_new (jb_key J), jb_commitment := None\<rparr>"
    and "n = length (plan_ranges (c_layout C) (window cf))"
  shows "\<exists>J1. prepare_job D J0 = (Ok C, J1)
    \<and> (turns_meet (mock_answers (mw_transport w)) n D (plan_job D C J1) \<longrightarrow>
        (\<exists>J'. run_job (Suc n) D J = Some (Ok (len64 bs), J') \<and> mem_artifact (jb_sink J') = Some bs))"
proof -
  have vec: "vec_ok bs" using assms(7,16) by simp
  have len: "c_total_length C = len64 bs" using from_first_frame_OkD(3)[OF assms(3)] .
  have L: "honest_download HO (mock_network K ps d) H PV (mock_env I sched) cf T mock_content_id C bs ps"
    by (intro honest_download.intro honest_download_axioms.intro assms(1) assms(12-17)
        mock_content_honest[where PV = PV and HO = HO, OF assms(2-5) vec assms(8)] mock_env_honest[OF assms(2,3,6) vec assms(9,11)])
      (use assms(7) vec in \<open>simp add: len unat_len64\<close>)
  have D: "D = honest_download.D HO H PV (mock_env I sched) cf T"
    by (simp add: honest_download.D_def[OF L] assms(18))
  note pl = honest_download.plan_def[OF L]
  obtain J1 where J1: "prepare_job D J0 = (Ok C, J1)"
      "honest_download.live HO (mock_network K ps d) H PV (mock_env I sched) cf T mock_content_id C bs ps (plan_job D C J1)"
      "honest_turns n D C bs (plan_job D C J1) \<longrightarrow>
        (\<exists>J'. run_job (Suc n) D J = Some (Ok (len64 bs), J') \<and> mem_artifact (jb_sink J') = Some bs)"
    using honest_download.run_job_honest[OF L assms(10), of J opts t R t1 J0] assms(19-23) len unfolding D pl by auto
  have w: "mt_content (mw_transport w) = K" "all_honest (mw_transport w)" "mt_delay (mw_transport w) = d"
    using assms(10) by (simp_all add: mock_network_def)
  have "honest_turns n D C bs (plan_job D C J1)" if "turns_meet (mock_answers (mw_transport w)) n D (plan_job D C J1)"
    unfolding D
  proof (rule honest_download.turns_honest[OF L _ J1(2)[unfolded D] that[unfolded D]])
    fix J tn
    assume "honest_download.live HO (mock_network K ps d) H PV (mock_env I sched) cf T mock_content_id C bs ps J"
      "mock_answers (mw_transport w) tn J"
    then show "honest_turn cf C bs tn J"
      by (rule honest_download.mock_turn_honest[OF L])
        (use w assms(11) mock_content_newD(1)[OF assms(2)] declares_honest[OF assms(2,3)] in auto)
  qed
  then show ?thesis using J1(1,3) by blast
qed


text \<open>Three bytes in two chunks, served by one double; the second range comes back first.\<close>

definition mock_example :: mock_content where
  "mock_example = the (mock_content_new [7, 8, 9] [2, 1])"

definition mock_example_sched :: "mock_world \<Rightarrow> turn" where
  "mock_example_sched w =
     (if mw_step w = 0
      then FetchDone 1 0 (Ok \<lparr>request_offset = 2, fetched_bytes = [9], fetched_meta = content_meta mock_example 2\<rparr>)
      else FetchDone 0 0 (Ok \<lparr>request_offset = 0, fetched_bytes = [7, 8], fetched_meta = content_meta mock_example 0\<rparr>))"

definition mock_example_world :: mock_world where
  "mock_example_world =
     \<lparr>mw_transport = mock_transport_new mock_example,
      mw_locator = locator_fixed [mock_provider_with_peer_id [1] mock_content_id],
      mw_selector = mock_selector_new, mw_now = 0, mw_step = 0\<rparr>"

definition mock_example_proof :: proof_verifier where
  "mock_example_proof leaf prf rt = (leaf = [7, 8, 9] \<and> prf = Some (lit ''mock-proof''))"

definition mock_example_deps :: "(mem_sink, mem_store, bytes, mock_world) deps" where
  "mock_example_deps = downloader_new (in_memory_sink example_host) in_memory_state_store
     (with_proof_verifier example_host (buffering_hash (\<lambda>bs. bs)) mock_example_proof) (buffering_hash (\<lambda>bs. bs))
     (mock_env example_ips mock_example_sched) example_config example_host"

definition mock_example_start :: "(mem_sink, mem_store, bytes, mock_world) job" where
  "mock_example_start = job_new mock_example_deps mock_content_id \<lparr>start_paused = False, resume_key = None\<rparr> mem_sink_new
     \<lparr>ms_inner = [], ms_reputation = [], ms_now = 0\<rparr> active_downloads_new mock_example_world"

definition mock_example_loaded :: "(mem_sink, mem_store, bytes, mock_world) job" where
  "mock_example_loaded = mock_example_start\<lparr>jb_store := jb_store mock_example_start,
     jb_resume := download_state_new (jb_key mock_example_start), jb_commitment := None\<rparr>"

definition mock_example_commitment :: resource_commitment where
  "mock_example_commitment = \<lparr>c_layout = \<lparr>chunk_lens = [2, 1], offsets = [0, 2, 3]\<rparr>, c_total_length = 3,
     c_root = Some (repeat_str 32 (lit ''ab'')), c_inclusion_proof = Some (lit ''mock-proof'')\<rparr>"

lemma mock_example_new: "mock_content_new [7, 8, 9] [2, 1] = Some mock_example"
  by (simp add: mock_example_def mock_content_new_def try_sum.simps checked_add_def len64_def)

lemma mock_example_first_frame:
  "from_first_frame_bounded example_host (len64 [7, 8, 9 :: u8]) [2, 1] (Some (mk_root mock_example))
     (mk_inclusion_proof mock_example) (max_resource_size example_config) = Ok mock_example_commitment"
  by (simp add: mock_content_newD[OF mock_example_new] mock_example_commitment_def example_inputs preparing)

lemma mock_example_network:
  "mock_network mock_example [mock_provider_with_peer_id [1] mock_content_id] None mock_example_world"
  by (simp add: mock_network_def mock_example_world_def mock_transport_new_def all_honest_def behavior_of_def locator_fixed_def)

lemmas mocking = mock_env_def mock_selector_ops_def mock_find_providers_def mock_query_availability_def mock_fetch_range_def
  mock_select_def mock_record_def mock_provider_with_peer_id_def mock_provider_def mock_transport_new_def locator_fixed_def
  mock_selector_new_def note_fetch_def behavior_of_def refuses_def misserve_def misdeclare_def fetch_delay_def
  attempts_for_def attempts_at_def count_of_def content_meta_def declaring_chunk_index_def chunk_index_at_def

lemma mock_example_turns:
  "turns_meet (mock_answers (mock_transport_new mock_example)) (Suc (Suc 0)) mock_example_deps
     (plan_job mock_example_deps mock_example_commitment (snd (prepare_job mock_example_deps mock_example_loaded)))"
  using mock_content_newD[OF mock_example_new] mock_root
  by (simp add: mock_example_loaded_def mock_example_start_def mock_example_deps_def mock_example_world_def
      mock_example_sched_def mock_example_proof_def mock_content_id_def mock_example_commitment_def mocking
      download_key_def example_inputs preparing planning scheduling completing running mem_sink_defs mem_sink_new_def
      read_back_bounds_def place_def try_usize_def mock_answers_def slice_def checked_add_def)


interpretation mock_memory: honest_download "buffering_hash (\<lambda>bs. bs)"
  "mock_network mock_example [mock_provider_with_peer_id [1] mock_content_id] None" example_host mock_example_proof
  "mock_env example_ips mock_example_sched" example_config in_memory_state_store mock_content_id mock_example_commitment
  "[7, 8, 9]" "[mock_provider_with_peer_id [1] mock_content_id]"
proof -
  have "mock_example_proof (h_digest (buffering_hash (\<lambda>bs. bs)) [7, 8, 9]) (mk_inclusion_proof mock_example)
      (Some (mk_root mock_example))"
    by (simp add: mock_example_proof_def buffering_hash_def mock_content_newD[OF mock_example_new])
  then have c: "honest_content example_host (buffering_hash (\<lambda>bs. bs)) mock_example_proof example_config mock_content_id
      mock_example_commitment [7, 8, 9]"
    by (intro mock_content_honest[OF mock_example_new mock_example_first_frame]) simp_all
  have e: "honest_env (mock_network mock_example [mock_provider_with_peer_id [1] mock_content_id] None)
      (mock_env example_ips mock_example_sched) example_config mock_content_id mock_example_commitment
      [mock_provider_with_peer_id [1] mock_content_id]"
    by (rule mock_env_honest[OF mock_example_new mock_example_first_frame]) (simp_all add: in_time_def split: option.split)
  show "honest_download (buffering_hash (\<lambda>bs. bs)) (mock_network mock_example [mock_provider_with_peer_id [1] mock_content_id] None)
      example_host mock_example_proof (mock_env example_ips mock_example_sched) example_config in_memory_state_store
      mock_content_id mock_example_commitment [7, 8, 9] [mock_provider_with_peer_id [1] mock_content_id]"
    by (intro honest_download.intro honest_download_axioms.intro buffering.streaming_hash_axioms c e honest_memory.caps
        honest_memory.saves honest_memory.whole honest_memory.fits(2,3))
      (simp add: mock_example_commitment_def example_host_def)
qed

theorem mock_download_succeeds_witness:
  "\<exists>J'. run_job (Suc (Suc (Suc 0))) mock_example_deps mock_example_start = Some (Ok 3, J')
     \<and> mem_artifact (jb_sink J') = Some [7, 8, 9]"
proof -
  have turns: "Suc (Suc 0) = length (plan_ranges (c_layout mock_example_commitment) (window example_config))"
    by (simp add: mock_example_commitment_def example_config_def planning)
  have load: "ss_load in_memory_state_store (jb_key mock_example_start) \<lparr>ms_inner = [], ms_reputation = [], ms_now = 0\<rparr>
      = (Ok None, jb_store mock_example_start)"
    by (simp add: in_memory_state_store_def mem_load_def mock_example_start_def job_new_def)
  have pf: "mock_example_proof (h_digest (buffering_hash (\<lambda>bs. bs)) [7, 8, 9]) (mk_inclusion_proof mock_example)
      (Some (mk_root mock_example))"
    by (simp add: mock_example_proof_def buffering_hash_def mock_content_newD[OF mock_example_new])
  have small: "length [7, 8, 9 :: u8] \<le> usize_max example_host" by (simp add: example_host_def)
  have time: "in_time example_config (case None of Some d \<Rightarrow> d | None \<Rightarrow> 0)" by (simp add: in_time_def split: option.split)
  have three: "len64 [7, 8, 9 :: u8] = 3" by (simp add: len64_def)
  have transport: "mw_transport mock_example_world = mock_transport_new mock_example" by (simp add: mock_example_world_def)
  show ?thesis
    using mock_download_succeeds[OF buffering.streaming_hash_axioms mock_example_new mock_example_first_frame _ _ _ small
        pf _ mock_example_network time honest_memory.whole honest_memory.caps honest_memory.fits(2,3)
        honest_memory.saves mock_example_deps_def mock_example_start_def _ load mock_example_loaded_def turns]
      mock_example_turns three transport by auto
qed

end
