(* ===== verification/Mock_Verdicts.thy ===== *)
theory Mock_Verdicts
  imports Mock_Transport
begin

text \<open>
  Which check catches which misbehaviour of a mock holder (\<^verbatim>\<open>src/src/testkit.rs\<close> against the gates of
  \<^verbatim>\<open>src/src/orchestrator.rs\<close> and \<^verbatim>\<open>src/src/verify.rs\<close>): the adoption of a layout when a holder is
  probed, and the check of one fetched range.
\<close>

section \<open>Where a range starts\<close>

lemma running_offsets_nth:
  "\<lbrakk>unat a + sum_list (map unat ls) < 2 ^ 64; i \<le> length ls\<rbrakk> \<Longrightarrow> unat (running_offsets a ls ! i) = unat a + start_of ls i"
proof (induction a ls arbitrary: i rule: running_offsets.induct)
  case (1 a)
  then show ?case by simp
next
  case (2 a l ls)
  have a: "unat (a + l) = unat a + unat l" using 2(2) by (simp add: unat_word_ariths)
  show ?case
  proof (cases i)
    case 0
    then show ?thesis by simp
  next
    case (Suc j)
    then show ?thesis using 2(1)[of j] 2(2,3) a by (simp add: start_of_def)
  qed
qed

lemma length_running_offsets [simp]: "length (running_offsets a ls) = Suc (length ls)"
  by (induction a ls rule: running_offsets.induct) simp_all

text \<open>Among non-empty chunks, the first boundary at the offset of a planned range is its first chunk.\<close>

lemma chunk_index_planned:
  assumes K: "mock_content_new bs lens = Some K" and L: "layout_ok L" "chunk_lens L = lens" "0 \<notin> set lens"
    and r: "r \<in> set (plan_ranges L win)" and small: "length lens < 2 ^ 64"
  shows "unat (chunk_index_at K (r_offset r)) = chunk_start r"
proof -
  obtain m where m: "m < length (plan_ranges L win)" "plan_ranges L win ! m = r" using r by (auto simp: in_set_conv_nth)
  note t = tiles_nth[OF plan_ranges_tiles[OF L(1)] m(1), unfolded m(2) L(2)]
  have c: "chunk_start r < length lens" using t(3,4) L(2) by (simp add: chunk_count_def)
  have total: "unat (0 :: u64) + sum_list (map unat lens) < 2 ^ 64"
    using layout_ok_bound[OF L(1), of "length lens"] L(2) by (simp add: start_of_full)
  note at = running_offsets_nth[OF total]
  have "running_offsets 0 lens ! chunk_start r = r_offset r" using at[of "chunk_start r"] t(5) c by (simp add: word_unat_eq_iff)
  moreover have "running_offsets 0 lens ! j \<noteq> r_offset r" if "j < chunk_start r" for j
    using at[of j] start_of_strict[OF L(3) that] t(5) c that by (auto simp: word_unat_eq_iff)
  ultimately have "position (\<lambda>q. q = r_offset r) (mk_offsets K) = Some (chunk_start r)"
    using c by (simp add: mock_content_newD(5)[OF K] position_Some_iff)
  then show ?thesis using c small by (simp add: chunk_index_at_def unat_of_nat)
qed

section \<open>The verdict on a fetched range\<close>

definition range_refused :: "resource_commitment \<Rightarrow> range \<Rightarrow> behavior \<Rightarrow> bool" where
  "range_refused C r b \<longleftrightarrow>
     (case b of
        BTruncate \<Rightarrow> True
      | BShortAligned \<Rightarrow> chunk_end r \<noteq> Suc (chunk_start r)
      | BWrongRoot \<Rightarrow> True
      | BShortLayout tot lens claimed \<Rightarrow> tot \<noteq> c_total_length C \<or> lens \<noteq> chunk_lens (c_layout C)
      | _ \<Rightarrow> False)"

text \<open>How long the answer to a planned range is.\<close>

lemma misserve_length:
  assumes K: "mock_content_new bs lens = Some K" and L: "layout_ok L" "chunk_lens L = lens" "0 \<notin> set lens"
    and r: "r \<in> set (plan_ranges L win)" and small: "length lens < 2 ^ 64" and n: "length xs = unat (r_length r)"
  shows "length (misserve K b (r_offset r) xs) = unat (r_length r) \<longleftrightarrow>
     \<not> (b = BTruncate \<or> b = BShortAligned \<and> chunk_end r \<noteq> Suc (chunk_start r))"
proof -
  obtain m where m: "m < length (plan_ranges L win)" "plan_ranges L win ! m = r" using r by (auto simp: in_set_conv_nth)
  note t = tiles_nth[OF plan_ranges_tiles[OF L(1)] m(1), unfolded m(2) L(2)]
  have c: "chunk_start r < length lens" "chunk_end r \<le> length lens" using t(3,4) L(2) by (simp_all add: chunk_count_def)
  have first: "start_of lens (Suc (chunk_start r)) = start_of lens (chunk_start r) + unat (lens ! chunk_start r)"
    using c by (simp add: start_of_Suc)
  have pos: "start_of lens (chunk_start r) < start_of lens (chunk_end r)"
    using start_of_strict[OF L(3) t(3) c(2)] .
  have short: "unat (lens ! chunk_start r) < unat (r_length r) \<longleftrightarrow> chunk_end r \<noteq> Suc (chunk_start r)"
  proof (cases "chunk_end r = Suc (chunk_start r)")
    case True
    then show ?thesis using t(5,6) first by simp
  next
    case False
    then have "start_of lens (Suc (chunk_start r)) < start_of lens (chunk_end r)"
      using start_of_strict[OF L(3), of "Suc (chunk_start r)"] t(3) c(2) by simp
    then show ?thesis using False t(5,6) first by simp
  qed
  have i: "get_opt lens (unat (chunk_index_at K (r_offset r))) = Some (lens ! chunk_start r)"
    using chunk_index_planned[OF K L r small] c by simp
  have aligned: "misserve K BShortAligned (r_offset r) xs
      = (if unat (lens ! chunk_start r) < length xs then take (unat (lens ! chunk_start r)) xs else xs)"
    by (simp add: misserve_def mock_content_newD(2)[OF K] i Let_def)
  have "0 < unat (r_length r)" using pos t(5,6) by simp
  show ?thesis
  proof (cases "b = BShortAligned")
    case True
    then show ?thesis using n short by (auto simp: aligned)
  next
    case False
    then show ?thesis using n \<open>0 < unat (r_length r)\<close> by (cases b) (simp_all add: misserve_def)
  qed
qed

lemma misserve_shrinks: "length (misserve K b off xs) \<le> length xs"
  by (auto simp: misserve_def Let_def split: behavior.split option.split)

lemma misserve_whole: "length (misserve K BShortAligned off xs) = length xs \<Longrightarrow> misserve K BShortAligned off xs = xs"
  by (auto simp: misserve_def Let_def split: option.splits if_splits)

lemma foreign_root: "repeat_str 32 (lit ''cd'') \<noteq> repeat_str 32 (lit ''ab'')"
proof -
  have "repeat_str (Suc n) s = s @ repeat_str n s" for n s by (simp add: repeat_str_def)
  from this[of 31] show ?thesis by (simp add: lit_def)
qed

text \<open>
  C17: what becomes of a mock holder's answer to a planned range. A holder that refuses is a
  transport error; a truncated, a boundary-aligned short and a foreign-root answer are rejected, and
  so is a layout other than the committed one; every other answer is accepted, with the bytes it
  carried: the true ones, except that a corrupting holder's flipped bytes pass, which only the check
  of the whole resource can tell.
\<close>

theorem mock_range_verdicts:
  assumes K: "mock_content_new bs lens = Some K" and M: "mt_content M = K" and v: "vec_ok bs"
    and C: "from_first_frame_bounded H (len64 bs) lens (Some (mk_root K)) (mk_inclusion_proof K) mx = Ok C"
    and lens: "0 \<notin> set lens" and r: "r \<in> set (plan_ranges (c_layout C) win)"
    and D: "dp_verifier D = with_proof_verifier H HO PV"
    and fits: "max_resource_chunk_count H \<le> usize_max H" "usize_max H < 2 ^ 64"
    and req: "range_request_for mock_content_id (r_offset r) (r_length r) True = Ok req"
    and a: "mock_fetch_range p req M = (Some (elapsed, answer), M')"
    and b: "b = behavior_of M (provider_peer_id p)"
  shows "if refuses b (attempts_for M (provider_peer_id p) + 1)
    then answer = Err (Transport (provider_peer_id p) (lit ''mock: source failed''))
    else if range_refused C r b then \<exists>e. and_then answer (verify_fetched D C r) = Err (Verify e)
    else and_then answer (verify_fetched D C r)
      = Ok (if b = BCorrupt then map (\<lambda>x. xor x 255) (snd (piece_at bs r)) else snd (piece_at bs r))"
proof -
  let ?L = "c_layout C" and ?x = "snd (piece_at bs r)"
  note f = from_first_frame_OkD[OF C]
  have L: "layout_ok ?L" "chunk_lens ?L = lens" using f by (simp_all add: commitment_ok_def)
  have small: "length lens < 2 ^ 64" using try_new_OkD(3)[OF f(7)] fits by simp
  have rq: "rq_offset req = r_offset r" "rq_length req = r_length r"
    using req by (auto simp: range_request_for_def mock_content_id_def)
  have total: "length bs = sum_list (map unat (chunk_lens ?L))" using f(8) v by (simp add: L(2) unat_len64)
  have n: "length ?x = unat (r_length r)" by (rule piece_length[OF plan_ranges_tiles[OF L(1)] r total])
  have inside: "unat (rq_offset req) + unat (rq_length req) \<le> length (mk_bytes (mt_content M))"
    using tiles_end_total[OF plan_ranges_tiles[OF L(1)] r] total M rq mock_content_newD(1)[OF K] by simp
  have vec: "vec_ok (mk_bytes (mt_content M))" using v M mock_content_newD(1)[OF K] by simp
  let ?y = "misserve K b (r_offset r) ?x" and ?m = "misdeclare b (content_meta K (r_offset r))"
  have ans: "answer = (if refuses b (attempts_for M (provider_peer_id p) + 1)
      then Err (Transport (provider_peer_id p) (lit ''mock: source failed''))
      else Ok \<lparr>request_offset = r_offset r, fetched_bytes = ?y, fetched_meta = ?m\<rparr>)"
    using a mock_fetch_inside[OF inside vec, of p] M rq b mock_content_newD(1)[OF K] by (auto simp: piece_at_def)
  have meta: "check_consistent C (rm_total_length ?m) (rm_chunk_lens ?m) (rm_root ?m) = Ok () \<longleftrightarrow>
      b \<noteq> BWrongRoot \<and> (\<forall>tot ls cl. b = BShortLayout tot ls cl \<longrightarrow> tot = c_total_length C \<and> ls = lens)"
    using f(2,3,5) mock_content_newD[OF K]
    by (cases b) (auto simp: check_consistent_iff misdeclare_def content_meta_def declaring_layout_def declaring_anchor_def
        declaring_chunk_index_def range_meta_default_def foreign_root)
  have len: "length ?y = unat (r_length r) \<longleftrightarrow> \<not> (b = BTruncate \<or> b = BShortAligned \<and> chunk_end r \<noteq> Suc (chunk_start r))"
    by (rule misserve_length[OF K L(1,2) lens r small n])
  have vy: "vec_ok ?y" using misserve_shrinks[of K b "r_offset r" ?x] n unat_bound[of "r_length r"] by simp
  note pv = planned_range_verifies[OF C r vy fits]
  have range: "map_err Verify (v_range (dp_verifier D) C (of_nat (chunk_start r)) (r_length r) ?y)
      = (if length ?y = unat (r_length r) then Ok () else Err (Verify (LengthMismatch (r_length r) (len64 ?y))))"
    unfolding D with_proof_verifier_def verifier_ops.simps pv by simp
  show ?thesis
  proof (cases "refuses b (attempts_for M (provider_peer_id p) + 1)")
    case True
    then show ?thesis by (simp add: ans)
  next
    case False
    let ?v = "verify_fetched D C r \<lparr>request_offset = r_offset r, fetched_bytes = ?y, fetched_meta = ?m\<rparr>"
    have v: "?v = and_then (map_err Verify (check_consistent C (rm_total_length ?m) (rm_chunk_lens ?m) (rm_root ?m)))
        (\<lambda>_. if length ?y = unat (r_length r) then Ok ?y else Err (Verify (LengthMismatch (r_length r) (len64 ?y))))"
      unfolding verify_fetched_def fetched_range.simps range
      by (cases "length ?y = unat (r_length r)") (simp_all del: piece_at_simps)
    have refused: "range_refused C r b \<longleftrightarrow>
        check_consistent C (rm_total_length ?m) (rm_chunk_lens ?m) (rm_root ?m) \<noteq> Ok () \<or> length ?y \<noteq> unat (r_length r)"
      unfolding meta len by (cases b) (auto simp: range_refused_def L(2))
    have kept: "\<not> range_refused C r b \<Longrightarrow> ?y = (if b = BCorrupt then map (\<lambda>x. xor x 255) ?x else ?x)"
      using refused len misserve_whole[of K "r_offset r" ?x] n by (cases b) (auto simp: misserve_def range_refused_def)
    show ?thesis
    proof (cases "range_refused C r b")
      case True
      then have "\<exists>e. ?v = Err (Verify e)"
        using refused unfolding v
        by (cases "check_consistent C (rm_total_length ?m) (rm_chunk_lens ?m) (rm_root ?m)") auto
      then show ?thesis using False True by (simp add: ans)
    next
      case False
      then have "?v = Ok ?y" using refused unfolding v by simp
      then show ?thesis using False \<open>\<not> refuses b (attempts_for M (provider_peer_id p) + 1)\<close> kept by (simp add: ans)
    qed
  qed
qed

definition short_mock :: mock_transport where
  "short_mock = set_behavior [1] BShortAligned (mock_transport_new mock_example)"

theorem mock_range_verdicts_witness:
  "\<exists>e answer M'. mock_fetch_range (mock_provider_with_peer_id [1] mock_content_id)
       \<lparr>rq_store_id = hex_of (replicate 32 1), rq_retrieval_key = Some (hex_of (replicate 32 3)), rq_offset = 0, rq_length = 3,
        rq_root = Some (hex_of (replicate 32 0xAB)), rq_skip_layout = True\<rparr> short_mock = (Some (0, answer), M')
     \<and> and_then answer (verify_fetched mock_example_deps mock_example_commitment
         \<lparr>r_index = 0, r_offset = 0, r_length = 3, chunk_start = 0, chunk_end = 2\<rparr>) = Err (Verify e)"
proof -
  let ?r = "\<lparr>r_index = 0, r_offset = 0, r_length = 3, chunk_start = 0, chunk_end = 2\<rparr>"
    and ?p = "mock_provider_with_peer_id [1] mock_content_id"
    and ?q = "\<lparr>rq_store_id = hex_of (replicate 32 1), rq_retrieval_key = Some (hex_of (replicate 32 3)), rq_offset = 0,
      rq_length = 3, rq_root = Some (hex_of (replicate 32 0xAB)), rq_skip_layout = True\<rparr>"
  have K: "mt_content short_mock = mock_example" by (simp add: short_mock_def set_behavior_def mock_transport_new_def)
  have b: "BShortAligned = behavior_of short_mock (provider_peer_id (mock_provider_with_peer_id [1] mock_content_id))"
    by (simp add: short_mock_def set_behavior_def mock_transport_new_def behavior_of_def mock_provider_with_peer_id_def update_conv')
  have r: "?r \<in> set (plan_ranges (c_layout mock_example_commitment) 3)"
    by (simp add: mock_example_commitment_def planning to_nat)
  have req: "range_request_for mock_content_id (r_offset ?r) (r_length ?r) True = Ok ?q"
    by (simp add: range_request_for_def mock_content_id_def)
  have vec: "vec_ok [7, 8, 9 :: u8]" by simp
  have inside: "unat (rq_offset ?q) + unat (rq_length ?q) \<le> length (mk_bytes (mt_content short_mock))"
    "vec_ok (mk_bytes (mt_content short_mock))"
    unfolding K by (simp_all add: mock_content_newD(1)[OF mock_example_new])
  have D: "dp_verifier mock_example_deps = with_proof_verifier example_host (buffering_hash (\<lambda>bs. bs)) mock_example_proof"
    by (simp add: mock_example_deps_def downloader_new_def)
  have "fetch_delay short_mock ?q = 0" by (simp add: fetch_delay_def short_mock_def set_behavior_def mock_transport_new_def)
  then obtain answer M' where f: "mock_fetch_range ?p ?q short_mock = (Some (0, answer), M')"
    using mock_fetch_inside[OF inside, of ?p] by auto
  from mock_range_verdicts[OF mock_example_new K vec mock_example_first_frame _ r D honest_memory.fits(2,3) req f b]
  have "\<exists>e. and_then answer (verify_fetched mock_example_deps mock_example_commitment ?r) = Err (Verify e)"
    by (simp add: refuses_def range_refused_def)
  then show ?thesis using f by blast
qed

text \<open>
  The layout a probed mock holder declares is adopted exactly when it states the root asked
  for and delivers the chunk lengths it counts: the true layout is, a wrong or a missing root and an
  under-delivered prologue are not; a short layout that is consistent with itself is adopted, under
  the same bounds as a true one.
\<close>

theorem mock_adoption:
  assumes K: "mock_content_new bs lens = Some K" and M: "mt_content M = K" and bs: "bs \<noteq> []" "vec_ok bs"
    and C: "from_first_frame_bounded (dp_host D) (len64 bs) lens (Some (mk_root K)) (mk_inclusion_proof K)
      (max_resource_size (dp_config D)) = Ok C"
    and req: "range_request_for mock_content_id 0 1 False = Ok req"
    and a: "mock_fetch_range p req M = (Some (elapsed, Ok f), M')"
    and b: "b = behavior_of M (provider_peer_id p)"
  shows "adopt_layout D mock_content_id p f = Ok C' \<longleftrightarrow>
     (case b of
        BWrongRoot \<Rightarrow> False
      | BNoRoot \<Rightarrow> False
      | BUnderDeliveredPrologue n \<Rightarrow> n = len64 lens \<and> C' = C
      | BShortLayout tot ls claimed \<Rightarrow>
          from_first_frame_bounded (dp_host D) tot ls (Some (mk_root K)) (mk_inclusion_proof K)
            (max_resource_size (dp_config D)) = Ok C'
      | _ \<Rightarrow> C' = C)"
proof -
  have rq: "rq_offset req = 0" "rq_length req = 1" using req by (auto simp: range_request_for_def mock_content_id_def)
  note k = mock_content_newD[OF K]
  have inside: "unat (rq_offset req) + unat (rq_length req) \<le> length (mk_bytes (mt_content M))"
    using bs M rq k(1) by (cases bs) simp_all
  have vec: "vec_ok (mk_bytes (mt_content M))" using bs(2) M k(1) by simp
  have f: "fetched_meta f = misdeclare b (content_meta K 0)"
    using a mock_fetch_inside[OF inside vec, of p] M rq b by (auto split: if_splits)
  have root: "content_root_hex mock_content_id = Some (mk_root K)"
    using mock_root by (simp add: content_root_hex_def mock_content_id_def k(3))
  have meta: "rm_root (content_meta K 0) = Some (mk_root K)" "rm_total_length (content_meta K 0) = Some (len64 bs)"
    "rm_chunk_lens (content_meta K 0) = Some lens" "rm_chunk_count (content_meta K 0) = Some (len64 lens)"
    "rm_inclusion_proof (content_meta K 0) = mk_inclusion_proof K"
    by (simp_all add: content_meta_def k declaring_layout_def declaring_anchor_def declaring_chunk_index_def)
  show ?thesis
    using C meta foreign_root k(3)
    by (cases b) (auto simp: adopt_layout_def Let_def f root misdeclare_def check_declared_root_def declaring_layout_def
        split: sum.splits)
qed

definition sybil_mock :: mock_transport where
  "sybil_mock = set_behavior [1] (BShortLayout 2 [2] ClaimSilent) (mock_transport_new mock_example)"

theorem mock_adoption_witness:
  "\<exists>f M'. mock_fetch_range (mock_provider_with_peer_id [1] mock_content_id)
       \<lparr>rq_store_id = hex_of (replicate 32 1), rq_retrieval_key = Some (hex_of (replicate 32 3)), rq_offset = 0, rq_length = 1,
        rq_root = Some (hex_of (replicate 32 0xAB)), rq_skip_layout = False\<rparr> sybil_mock = (Some (0, Ok f), M')
     \<and> adopt_layout mock_example_deps mock_content_id (mock_provider_with_peer_id [1] mock_content_id) f
       = Ok (mock_example_commitment\<lparr>c_layout := \<lparr>chunk_lens = [2], offsets = [0, 2]\<rparr>, c_total_length := 2\<rparr>)"
proof -
  let ?p = "mock_provider_with_peer_id [1] mock_content_id"
    and ?q = "\<lparr>rq_store_id = hex_of (replicate 32 1), rq_retrieval_key = Some (hex_of (replicate 32 3)), rq_offset = 0,
      rq_length = 1, rq_root = Some (hex_of (replicate 32 0xAB)), rq_skip_layout = False\<rparr>"
  have K: "mt_content sybil_mock = mock_example" by (simp add: sybil_mock_def set_behavior_def mock_transport_new_def)
  have b: "BShortLayout 2 [2] ClaimSilent = behavior_of sybil_mock (provider_peer_id ?p)"
    by (simp add: sybil_mock_def set_behavior_def mock_transport_new_def behavior_of_def mock_provider_with_peer_id_def update_conv')
  have req: "range_request_for mock_content_id 0 1 False = Ok ?q"
    by (simp add: range_request_for_def mock_content_id_def)
  have inside: "unat (rq_offset ?q) + unat (rq_length ?q) \<le> length (mk_bytes (mt_content sybil_mock))"
    "vec_ok (mk_bytes (mt_content sybil_mock))"
    unfolding K by (simp_all add: mock_content_newD(1)[OF mock_example_new])
  have "fetch_delay sybil_mock ?q = 0" by (simp add: fetch_delay_def sybil_mock_def set_behavior_def mock_transport_new_def)
  then obtain f M' where f: "mock_fetch_range ?p ?q sybil_mock = (Some (0, Ok f), M')"
    using mock_fetch_inside[OF inside, of ?p] b[symmetric] by (simp add: refuses_def)
  have C: "from_first_frame_bounded (dp_host mock_example_deps) (len64 [7, 8, 9 :: u8]) [2, 1] (Some (mk_root mock_example))
      (mk_inclusion_proof mock_example) (max_resource_size (dp_config mock_example_deps)) = Ok mock_example_commitment"
    using mock_example_first_frame by (simp add: mock_example_deps_def downloader_new_def)
  have "from_first_frame_bounded (dp_host mock_example_deps) 2 [2] (Some (mk_root mock_example))
      (mk_inclusion_proof mock_example) (max_resource_size (dp_config mock_example_deps))
      = Ok (mock_example_commitment\<lparr>c_layout := \<lparr>chunk_lens = [2], offsets = [0, 2]\<rparr>, c_total_length := 2\<rparr>)"
    by (simp add: mock_example_deps_def downloader_new_def mock_content_newD[OF mock_example_new] mock_example_commitment_def
        example_inputs preparing)
  then show ?thesis using mock_adoption[OF mock_example_new K _ _ C req f b] f by auto
qed

end
