(* ===== verification/Mock_Module.thy ===== *)
theory Mock_Module
  imports Module_Honest Mock_Transport
begin

text \<open>
  The in-memory holders a whole-module pull is tested over (\<^verbatim>\<open>src/src/testkit.rs\<close>): the module
  transport with its misbehaviours, and the anchor verifiers that accept one module, none, or
  cannot tell.

  What a transport is built with is a record that never changes; what its calls record or use up is
  its state. A call that panics is \<open>None\<close>.
\<close>

section \<open>The transport\<close>

record mock_module =
  mm_store_id :: rstring
  mm_root :: rstring
  mm_blob :: bytes
  mm_chunk_size :: nat
  mm_tamper_peer :: "rstring option"
  mm_corrupt_module_hash :: bool
  mm_overserve :: bool
  mm_declared_total_size :: "u64 option"
  mm_inflating_peer :: "(rstring \<times> u64) option"
  mm_wrong_descriptor_for :: "rstring option"
  mm_alternate_module_for :: "(rstring \<times> bytes) option"
  mm_fabricated_chunk_hashes_for :: "rstring option"
  mm_one_byte_liar :: "rstring option"
  mm_budget :: bool
  mm_severed_beyond :: "u64 option"
  mm_info_failures :: bool

text \<open>The atomic counters of the budget and of the failing asks are here, with the two logs.\<close>

record mock_module_log =
  ml_budget_left :: nat
  ml_info_failures_left :: nat
  ml_fetches :: "(rstring \<times> u64) list"
  ml_info_calls :: "rstring list"

definition log_new :: mock_module_log where
  "log_new = \<lparr>ml_budget_left = 0, ml_info_failures_left = 0, ml_fetches = [], ml_info_calls = []\<rparr>"

definition serving_module :: "rstring \<Rightarrow> rstring \<Rightarrow> bytes \<Rightarrow> nat \<Rightarrow> mock_module" where
  "serving_module sid rt blob chunk_size =
     \<lparr>mm_store_id = sid, mm_root = rt, mm_blob = blob, mm_chunk_size = chunk_size, mm_tamper_peer = None,
      mm_corrupt_module_hash = False, mm_overserve = False, mm_declared_total_size = None,
      mm_inflating_peer = None, mm_wrong_descriptor_for = None, mm_alternate_module_for = None,
      mm_fabricated_chunk_hashes_for = None, mm_one_byte_liar = None, mm_budget = False,
      mm_severed_beyond = None, mm_info_failures = False\<rparr>"

definition overserving :: "mock_module \<Rightarrow> mock_module" where
  "overserving B = B\<lparr>mm_overserve := True\<rparr>"

definition declaring_total_size :: "u64 \<Rightarrow> mock_module \<Rightarrow> mock_module" where
  "declaring_total_size n B = B\<lparr>mm_declared_total_size := Some n\<rparr>"

definition inflating_total_size_from :: "rstring \<Rightarrow> u64 \<Rightarrow> mock_module \<Rightarrow> mock_module" where
  "inflating_total_size_from peer n B = B\<lparr>mm_inflating_peer := Some (peer, n)\<rparr>"

definition tampering :: "rstring \<Rightarrow> mock_module \<Rightarrow> mock_module" where
  "tampering peer B = B\<lparr>mm_tamper_peer := Some peer\<rparr>"

definition with_corrupt_module_hash :: "mock_module \<Rightarrow> mock_module" where
  "with_corrupt_module_hash B = B\<lparr>mm_corrupt_module_hash := True\<rparr>"

definition lying_descriptor_from :: "rstring \<Rightarrow> mock_module \<Rightarrow> mock_module" where
  "lying_descriptor_from peer B = B\<lparr>mm_wrong_descriptor_for := Some peer\<rparr>"

definition serving_alternate_module_from :: "rstring \<Rightarrow> bytes \<Rightarrow> mock_module \<Rightarrow> mock_module" where
  "serving_alternate_module_from peer m B = B\<lparr>mm_alternate_module_for := Some (peer, m)\<rparr>"

definition fabricating_chunk_hashes_from :: "rstring \<Rightarrow> mock_module \<Rightarrow> mock_module" where
  "fabricating_chunk_hashes_from peer B = B\<lparr>mm_fabricated_chunk_hashes_for := Some peer\<rparr>"

definition serving_one_byte_then_refusing_from :: "rstring \<Rightarrow> mock_module \<Rightarrow> mock_module" where
  "serving_one_byte_then_refusing_from peer B = B\<lparr>mm_one_byte_liar := Some peer\<rparr>"

definition with_success_budget :: "nat \<Rightarrow> mock_module \<times> mock_module_log \<Rightarrow> mock_module \<times> mock_module_log" where
  "with_success_budget n BL = ((fst BL)\<lparr>mm_budget := True\<rparr>, (snd BL)\<lparr>ml_budget_left := n\<rparr>)"

definition severing_beyond :: "u64 \<Rightarrow> mock_module \<Rightarrow> mock_module" where
  "severing_beyond off B = B\<lparr>mm_severed_beyond := Some off\<rparr>"

definition failing_the_first_info_asks :: "nat \<Rightarrow> mock_module \<times> mock_module_log \<Rightarrow> mock_module \<times> mock_module_log" where
  "failing_the_first_info_asks n BL = ((fst BL)\<lparr>mm_info_failures := True\<rparr>, (snd BL)\<lparr>ml_info_failures_left := n\<rparr>)"

text \<open>What a test reads back.\<close>

definition fetches :: "mock_module_log \<Rightarrow> (rstring \<times> u64) list" where
  "fetches G = ml_fetches G"

definition module_info_calls :: "mock_module_log \<Rightarrow> rstring list" where
  "module_info_calls G = ml_info_calls G"

section \<open>Descriptors\<close>

text \<open>\<open>slice::chunks\<close>, for a chunk size of at least one.\<close>

function chunks_of :: "nat \<Rightarrow> bytes \<Rightarrow> bytes list" where
  "chunks_of n bs = (if bs = [] \<or> n = 0 then [] else take n bs # chunks_of n (drop n bs))"
  by pat_completeness auto
termination by (relation "measure (\<lambda>(n, bs). length bs)") auto

declare chunks_of.simps [simp del]

definition descriptor_of :: "'h hash_ops \<Rightarrow> mock_module \<Rightarrow> bytes \<Rightarrow> module_info" where
  "descriptor_of HO B m =
     (let chunks = chunks_of (max (mm_chunk_size B) 1) m
      in \<lparr>mi_total_size = len64 m, mi_module_hash = sha256_hex HO m,
          mi_chunk_hashes = map (sha256_hex HO) chunks, mi_chunk_lens = map len64 chunks\<rparr>)"

text \<open>The last length grown by \<open>d\<close>; \<open>None\<close> when the sum overflows.\<close>

definition grow_last :: "u64 \<Rightarrow> u64 list \<Rightarrow> u64 list option" where
  "grow_last d lens = map_option (\<lambda>l. butlast lens @ [l]) (checked_add (last lens) d)"

definition mock_descriptor :: "'h hash_ops \<Rightarrow> mock_module \<Rightarrow> module_info option" where
  "mock_descriptor HO B =
     (let info = descriptor_of HO B (mm_blob B);
          info1 = info\<lparr>mi_module_hash := (if mm_corrupt_module_hash B then repeat_str 64 (lit ''0'') else mi_module_hash info)\<rparr>
      in case mm_declared_total_size B of
           None \<Rightarrow> Some info1
         | Some inflated \<Rightarrow>
             if mi_chunk_lens info = [] then None
             else map_option (\<lambda>lens. info1\<lparr>mi_total_size := inflated, mi_chunk_lens := lens\<rparr>)
                    (grow_last (saturating_sub inflated (len64 (mm_blob B))) (mi_chunk_lens info)))"

definition descriptor_inflated_to :: "'h hash_ops \<Rightarrow> mock_module \<Rightarrow> u64 \<Rightarrow> module_info option" where
  "descriptor_inflated_to HO B inflated =
     (case mock_descriptor HO B of
        None \<Rightarrow> None
      | Some info \<Rightarrow>
          if mi_chunk_lens info = [] then Some (info\<lparr>mi_total_size := inflated\<rparr>)
          else map_option (\<lambda>lens. info\<lparr>mi_total_size := inflated, mi_chunk_lens := lens\<rparr>)
                 (grow_last (saturating_sub inflated (mi_total_size info)) (mi_chunk_lens info)))"

definition lying_descriptor :: "'h hash_ops \<Rightarrow> mock_module \<Rightarrow> module_info option" where
  "lying_descriptor HO B =
     map_option (\<lambda>info. info\<lparr>mi_module_hash := repeat_str 64 (lit ''0'')\<rparr>) (mock_descriptor HO B)"

definition fabricated_chunk_hash_descriptor :: "'h hash_ops \<Rightarrow> mock_module \<Rightarrow> module_info option" where
  "fabricated_chunk_hash_descriptor HO B =
     map_option (\<lambda>info. info\<lparr>mi_chunk_hashes :=
         map (\<lambda>i. sha256_hex HO (as_bytes (lit ''fabricated-chunk-'' @ dec i))) [0 ..< length (mi_chunk_hashes info)]\<rparr>)
       (mock_descriptor HO B)"

definition one_byte_then_unsatisfiable_descriptor :: "'h hash_ops \<Rightarrow> mock_module \<Rightarrow> module_info option" where
  "one_byte_then_unsatisfiable_descriptor HO B =
     (if mm_blob B = [] then None
      else Some \<lparr>mi_total_size = len64 (mm_blob B), mi_module_hash = sha256_hex HO (mm_blob B),
             mi_chunk_hashes = [sha256_hex HO (take 1 (mm_blob B)), sha256_hex HO (as_bytes (lit ''fabricated-second-chunk''))],
             mi_chunk_lens = [1, of_nat (length (mm_blob B) - 1)]\<rparr>)"

definition served_blob :: "mock_module \<Rightarrow> rstring \<Rightarrow> bytes" where
  "served_blob B peer =
     (case mm_alternate_module_for B of
        Some (liar, m) \<Rightarrow> if liar = peer then m else mm_blob B
      | None \<Rightarrow> mm_blob B)"

section \<open>The two calls\<close>

definition mock_get_module_info ::
    "'h hash_ops \<Rightarrow> mock_module \<Rightarrow> rstring \<Rightarrow> rstring \<Rightarrow> rstring \<Rightarrow> mock_module_log
     \<Rightarrow> (download_error + module_info) option \<times> mock_module_log" where
  "mock_get_module_info HO B peer sid rt G0 =
     (let G = G0\<lparr>ml_info_calls := ml_info_calls G0 @ [peer]\<rparr>
      in if mm_info_failures B \<and> ml_info_failures_left G \<noteq> 0
         then (Some (Err (Transport peer (lit ''descriptor ask timed out''))),
               G\<lparr>ml_info_failures_left := ml_info_failures_left G - 1\<rparr>)
         else if sid \<noteq> mm_store_id B \<or> rt \<noteq> mm_root B
         then (Some (Err (Transport peer (lit ''unknown (store_id, root)''))), G)
         else
           (map_option Ok
              (if mm_wrong_descriptor_for B = Some peer then lying_descriptor HO B
               else if mm_fabricated_chunk_hashes_for B = Some peer then fabricated_chunk_hash_descriptor HO B
               else if map_option fst (mm_alternate_module_for B) = Some peer
               then Some (descriptor_of HO B (snd (the (mm_alternate_module_for B))))
               else if mm_one_byte_liar B = Some peer then one_byte_then_unsatisfiable_descriptor HO B
               else if map_option fst (mm_inflating_peer B) = Some peer
               then descriptor_inflated_to HO B (snd (the (mm_inflating_peer B)))
               else mock_descriptor HO B), G))"

text \<open>The bytes of a window: clamped to the blob, longer when overserving, its first byte flipped by a tamperer.\<close>

definition window_bytes :: "host \<Rightarrow> mock_module \<Rightarrow> rstring \<Rightarrow> u64 \<Rightarrow> u64 \<Rightarrow> bytes option" where
  "window_bytes H B peer off len =
     (let blob = served_blob B peer;
          start = min (as_usize H off) (length blob);
          wide = as_usize H len + (if mm_overserve B then max (mm_chunk_size B) 1 else 0)
      in if usize_max H < wide \<or> usize_max H < start + wide then None
         else
           (let bs = slice blob start (min (start + wide) (length blob) - start)
            in Some (if mm_tamper_peer B = Some peer \<and> bs \<noteq> [] then xor (hd bs) 255 # tl bs else bs)))"

definition mock_fetch_module_range ::
    "host \<Rightarrow> mock_module \<Rightarrow> rstring \<Rightarrow> rstring \<Rightarrow> rstring \<Rightarrow> u64 \<Rightarrow> u64 \<Rightarrow> mock_module_log
     \<Rightarrow> (download_error + bytes) option \<times> mock_module_log" where
  "mock_fetch_module_range H B peer sid rt off len G0 =
     (if mm_budget B \<and> ml_budget_left G0 = 0 then (Some (Err (Transport peer (lit ''budget spent''))), G0)
      else
        (let G = (if mm_budget B then G0\<lparr>ml_budget_left := ml_budget_left G0 - 1\<rparr> else G0)
         in if (case mm_severed_beyond B of Some severed \<Rightarrow> severed \<le> off | None \<Rightarrow> False) \<and> length (ml_info_calls G) < 2
            then (Some (Err (Transport peer (lit ''connection reset mid-transfer''))), G)
            else
              (let G1 = G\<lparr>ml_fetches := ml_fetches G @ [(peer, off)]\<rparr>
               in (if mm_fabricated_chunk_hashes_for B = Some peer
                   then Some (Err (Transport peer (lit ''serving nothing'')))
                   else if mm_one_byte_liar B = Some peer
                   then (if off = 0 \<and> len = 1
                         then (if mm_blob B = [] then None else Some (Ok (take 1 (mm_blob B))))
                         else Some (Err (Transport peer (lit ''refusing everything after the first byte''))))
                   else map_option Ok (window_bytes H B peer off len), G1))))"

section \<open>The anchor verifiers\<close>

definition reject_all_module_anchor :: anchor_query where
  "reject_all_module_anchor = Verdict NotAnchored"

definition unreachable_chain_anchor :: anchor_query where
  "unreachable_chain_anchor = Verdict (Unavailable (lit ''chain source unreachable''))"

definition anchor_read_window :: u64 where "anchor_read_window = 7"

text \<open>
  The reading loop of \<open>OnlyThisModuleAnchor\<close>. A read that succeeds returns a whole window, so the
  module is read in as many rounds as it has windows, and the loop is given one more.
\<close>

fun only_windows :: "bytes \<Rightarrow> u64 \<Rightarrow> nat \<Rightarrow> bytes \<Rightarrow> anchor_query" where
  "only_windows m n 0 seen = Verdict (Unavailable [])"
| "only_windows m n (Suc k) seen =
     (if len64 seen < n
      then ReadWindow (len64 seen) (min anchor_read_window (n - len64 seen))
             (\<lambda>r. case r of
                Ok bs \<Rightarrow> only_windows m n k (seen @ bs)
              | Err e \<Rightarrow> Verdict (Unavailable (download_error_display e)))
      else Verdict (if seen = m then Anchored else NotAnchored))"

definition only_this_module_anchor :: "bytes \<Rightarrow> anchor_query" where
  "only_this_module_anchor m = AskLen (\<lambda>n. only_windows m n (unat n div 7 + 2) [])"

section \<open>The honest descriptor tells the truth\<close>

lemma chunks_of_concat: "0 < n \<Longrightarrow> concat (chunks_of n bs) = bs"
proof (induction n bs rule: chunks_of.induct)
  case (1 n bs)
  then show ?case by (subst chunks_of.simps) auto
qed

lemma chunks_of_Nil_iff [simp]: "0 < n \<Longrightarrow> chunks_of n bs = [] \<longleftrightarrow> bs = []"
  by (subst chunks_of.simps) simp

lemma lens_of_pieces:
  "length (concat css) < 2 ^ 64 \<Longrightarrow> map unat (map len64 css) = map length css"
proof (induction css)
  case (Cons c css)
  have "vec_ok c" using Cons.prems by simp
  then show ?case using Cons by (simp add: unat_len64)
qed simp

lemma slice_of_pieces:
  "\<lbrakk>length (concat css) < 2 ^ 64; i < length css\<rbrakk>
   \<Longrightarrow> slice (concat css) (start_of (map len64 css) i) (unat (map len64 css ! i)) = css ! i"
proof (induction css arbitrary: i)
  case (Cons c css)
  have c: "vec_ok c" "vec_ok (concat css)" using Cons.prems by simp_all
  show ?case
  proof (cases i)
    case 0
    then show ?thesis using c by (simp add: slice_def unat_len64)
  next
    case (Suc j)
    then have "slice (concat css) (start_of (map len64 css) j) (unat (map len64 css ! j)) = css ! j"
      using Cons.IH[OF c(2), of j] Cons.prems(2) by simp
    then show ?thesis using Suc c(1) by (simp add: slice_def start_of_def unat_len64)
  qed
qed simp

lemma descriptor_attributed: "vec_ok m \<Longrightarrow> attributed HO (descriptor_of HO B m) m"
  using slice_of_pieces[of "chunks_of (max (mm_chunk_size B) 1) m"] chunks_of_concat[of "max (mm_chunk_size B) 1" m]
  by (auto simp: attributed_def descriptor_of_def Let_def unat_len64)

lemma descriptor_plans:
  assumes "m \<noteq> []" "vec_ok m" "len64 m \<le> mx" "length (chunks_of (max (mm_chunk_size B) 1) m) \<le> 1048576"
    and "reserve_refusal H (8 * length (chunks_of (max (mm_chunk_size B) 1) m)) = None" and "length m \<le> usize_max H"
  shows "\<exists>P. true_info H HO mx m (descriptor_of HO B m) P"
proof -
  let ?css = "chunks_of (max (mm_chunk_size B) 1) m"
  have c: "concat ?css = m" by (rule chunks_of_concat) simp
  have "sum_list (map unat (map len64 ?css)) = length m"
    using lens_of_pieces[of ?css] assms(2) unfolding c by (metis c length_concat)
  then have "is_ok (from_info H (descriptor_of HO B m) mx)"
    using assms by (simp add: from_info_accepts descriptor_of_def Let_def unat_len64)
  then obtain P where "from_info H (descriptor_of HO B m) mx = Ok P" by (auto simp: is_ok_def split: sum.splits)
  then show ?thesis using descriptor_attributed[OF assms(2)] assms(6) by (auto simp: true_info_def)
qed

section \<open>What the verifiers accept\<close>

lemma only_windows_concludes:
  assumes "vec_ok bs"
  shows "\<lbrakk>j \<le> length bs; length bs - j \<le> 7 * k\<rbrakk>
    \<Longrightarrow> concludes bs (only_windows m (len64 bs) (Suc k) (take j bs)) (if bs = m then Anchored else NotAnchored)"
proof (induction k arbitrary: j)
  case 0
  then show ?case by (simp add: concludes.verdict)
next
  case (Suc k)
  show ?case
  proof (cases "j < length bs")
    case False
    then show ?thesis using Suc.prems by (simp add: concludes.verdict)
  next
    case True
    let ?want = "min anchor_read_window (len64 bs - len64 (take j bs))" and ?a = "if bs = m then Anchored else NotAnchored"
    have n: "unat (len64 bs) = length bs" "unat (len64 (take j bs)) = j" using assms True by (simp_all add: unat_len64)
    then have lt: "len64 (take j bs) < len64 bs" using True by (simp add: word_less_nat_alt)
    then have "unat (len64 bs - len64 (take j bs)) = length bs - j" using n by (simp add: unat_sub less_imp_le)
    then have w: "unat ?want = min 7 (length bs - j)" by (simp add: min_def anchor_read_window_def word_le_nat_alt)
    have s: "take j bs @ slice bs (unat (len64 (take j bs))) (unat ?want) = take (j + unat ?want) bs"
      unfolding n(2) by (rule take_slice_append)
    have "concludes bs (only_windows m (len64 bs) (Suc k) (take (j + unat ?want) bs)) ?a"
      by (rule Suc.IH) (use Suc.prems w True in auto)
    then have "concludes bs (ReadWindow (len64 (take j bs)) ?want (\<lambda>r. case r of
          Ok xs \<Rightarrow> only_windows m (len64 bs) (Suc k) (take j bs @ xs)
        | Err e \<Rightarrow> Verdict (Unavailable (download_error_display e)))) ?a"
      by (intro concludes.window) (use n w True s in auto)
    then show ?thesis unfolding only_windows.simps(2)[of m "len64 bs" "Suc k"] using lt by (simp only: if_True)
  qed
qed

lemma only_this_concludes:
  "vec_ok bs \<Longrightarrow> concludes bs (only_this_module_anchor m) (if bs = m then Anchored else NotAnchored)"
  unfolding only_this_module_anchor_def
  by (rule concludes.asked_len[where n = "len64 bs"])
    (use only_windows_concludes[of bs 0 "length bs div 7 + 1" m] in \<open>auto simp: unat_len64\<close>)

inductive_cases judged_AskLenE: "judged bs (AskLen k) a"
inductive_cases judged_ReadE: "judged bs (ReadWindow off len k) a"

lemma only_windows_sound:
  assumes "vec_ok bs"
  shows "\<lbrakk>judged bs (only_windows m (len64 bs) k (take j bs)) Anchored; j \<le> length bs\<rbrakk> \<Longrightarrow> bs = m"
proof (induction k arbitrary: j)
  case 0
  then show ?case by simp
next
  case (Suc k)
  have n: "unat (len64 bs) = length bs" "unat (len64 (take j bs)) = j" using assms Suc.prems(2) by (simp_all add: unat_len64)
  show ?case
  proof (cases "len64 (take j bs) < len64 bs")
    case False
    then have "j = length bs" using n Suc.prems(2) by (simp add: word_less_nat_alt)
    then show ?thesis using Suc.prems(1) by (auto split: if_splits)
  next
    case True
    let ?want = "min anchor_read_window (len64 bs - len64 (take j bs))"
    let ?k = "\<lambda>r. case r of Ok xs \<Rightarrow> only_windows m (len64 bs) k (take j bs @ xs)
        | Err e \<Rightarrow> Verdict (Unavailable (download_error_display e))"
    have "judged bs (ReadWindow (len64 (take j bs)) ?want ?k) Anchored"
      using Suc.prems(1) unfolding only_windows.simps(2) using True by (simp only: if_True)
    then have a: "judged bs (?k (Ok (slice bs (unat (len64 (take j bs))) (unat ?want)))) Anchored"
      by (rule judged_ReadE) auto
    have "unat (len64 bs - len64 (take j bs)) = length bs - j" using True n by (simp add: unat_sub less_imp_le)
    then have "unat ?want \<le> length bs - j" by (simp add: min_def word_le_nat_alt)
    moreover have "take j bs @ slice bs (unat (len64 (take j bs))) (unat ?want) = take (j + unat ?want) bs"
      unfolding n(2) by (rule take_slice_append)
    ultimately show ?thesis using Suc.IH[of "j + unat ?want"] a Suc.prems(2) by simp
  qed
qed

lemma only_this_sound:
  assumes "vec_ok bs" "judged bs (only_this_module_anchor m) Anchored"
  shows "bs = m"
proof -
  obtain n where n: "unat n = length bs" "judged bs (only_windows m n (unat n div 7 + 2) []) Anchored"
    using assms(2) unfolding only_this_module_anchor_def by (rule judged_AskLenE) auto
  have "n = len64 bs" using n(1) assms(1) by (simp add: word_unat_eq_iff unat_len64)
  then show ?thesis using only_windows_sound[OF assms(1), of m _ 0] n(2) by (simp del: only_windows.simps)
qed

text \<open>
  C9: with the verifier made for one module, no network, no checkpoint and no file-system
  fault makes a download publish anything else: whatever it publishes is that module.
\<close>

theorem only_that_module_published:
  assumes "puts_in_file H D" and "fs_ok F" and "\<And>w. fst (me_anchor (md_env D) sid rt w) = only_this_module_anchor m"
    and "module_download D sid rt (file_sink_new p F) t w = Some (Ok n, M')"
  shows "content (disk (mp_sink M')) p = Some m"
proof -
  have "streaming_hash (md_hash D)" using assms(1) by (simp add: puts_in_file_def)
  note L = file_puller[OF this, where H = H and p = p]
  have v: "valid_at p (file_sink_new p F)" using assms(2) file_sink_new_valid by (simp add: valid_at_def file_sink_new_def)
  from module_puller.module_download_spec[OF L file_wired[OF assms(1)] v refl assms(4)] obtain bs where
    b: "content (disk (mp_sink M')) p = Some bs" "length bs = unat n" "genuine D sid rt bs"
    unfolding module_puller.settled_def[OF L] by (auto simp: published_at_def)
  have "vec_ok bs" using b(2) unat_bound[of n] by simp
  then have "bs = m" using only_this_sound b(3) assms(3) by (auto simp: genuine_def)
  then show ?thesis using b(1) by simp
qed

lemma only_this_pull:
  "fst (pull_with_descriptor (example_module_deps in_memory_state_store (only_this_module_anchor example_module)) example_info
     example_store_id example_root (Module_Download.example_start example_disk empty_store)) = Ok 3"
  by (simp add: pulling module_inputs filing Let_def reader_loop_done reader_loop_turn only_this_module_anchor_def
      staged_len_def anchor_read_window_def len64_def only_windows.simps)

theorem only_that_module_published_witness:
  "\<exists>M'. module_download (example_module_deps in_memory_state_store (only_this_module_anchor example_module))
       example_store_id example_root (file_sink_new (Path [1] [2]) example_disk) empty_store () = Some (Ok 3, M')
     \<and> content (disk (mp_sink M')) (Path [1] [2]) = Some [7, 8, 9]"
proof -
  let ?D = "example_module_deps in_memory_state_store (only_this_module_anchor example_module)"
  have ok: "fs_ok example_disk" by (simp add: fs_ok_def example_disk_def lookup_def)
  obtain M1 where p: "pull_with_descriptor ?D example_info example_store_id example_root (Module_Download.example_start example_disk empty_store)
      = (Ok 3, M1)" using only_this_pull by (metis prod.collapse)
  have r: "module_download ?D example_store_id example_root (file_sink_new (Path [1] [2]) example_disk) empty_store ()
      = Some (Ok 3, M1)"
    using example_module_run[OF p] by (simp add: in_memory_state_store_def mem_bad_peers_def)
  have q: "fst (me_anchor (md_env ?D) sid rt w) = only_this_module_anchor [7, 8, 9]" for sid rt w
    by (simp add: example_module_deps_def example_module_env_def example_module_def)
  from only_that_module_published[OF example_puts ok q r] r show ?thesis by simp
qed

end
