(* ===== verification/Module_Resilient.thy ===== *)
theory Module_Resilient
  imports Module_Honest
begin

text \<open>
  False descriptors. A pull with any descriptor, in any layout, either publishes the module, or fails
  for that descriptor only and leaves a staging area and a checkpoint the next one can start from.
  There are three attempts and a liar costs one, so two liars cannot stop a download.
\<close>

section \<open>Any descriptor\<close>

text \<open>
  What the client relies on when descriptors may lie: the directory answers, a module within the
  size limit fits the host, no holder produces a collision with a chunk of the module, and the
  verifier comes to a verdict on whatever it is shown, which is the right one.
\<close>

definition guarded ::
    "(mem_sink, mem_store, 'h, 'w) module_deps \<Rightarrow> rstring \<Rightarrow> rstring \<Rightarrow> bytes \<Rightarrow> bool" where
  "guarded D sid rt bs \<longleftrightarrow> puts_in_memory (md_host D) D \<and> md_store D = in_memory_state_store
     \<and> unat (md_max_module_size D) \<le> usize_max (md_host D) \<and> no_collision D sid rt bs
     \<and> (\<exists>cid. module_content_id sid rt = Decoded cid) \<and> (\<forall>c w. is_ok (fst (me_find_providers (md_env D) c w)))
     \<and> (\<forall>xs w. vec_ok xs \<longrightarrow> concludes xs (fst (me_anchor (md_env D) sid rt w)) (if xs = bs then Anchored else NotAnchored))"

text \<open>The checkpoint of the pull, the checkpoint in the store and the staged bytes agree.\<close>

definition tracked ::
    "rstring \<Rightarrow> 'h hash_ops \<Rightarrow> chunk_plan \<Rightarrow> bytes \<Rightarrow> chunk_plan \<Rightarrow> nat set \<Rightarrow> download_state \<Rightarrow> bytes \<Rightarrow> mem_store \<Rightarrow> bool" where
  "tracked key HO P bs P' ck st stg t \<longleftrightarrow> st_key st = key \<and> st_chunk_lens st = cp_chunk_lens P'
     \<and> (\<forall>prev. map_of (ms_inner t) key = Some prev \<longrightarrow> st_key prev = key)
     \<and> (if cp_chunk_lens P' = cp_chunk_lens P
        then (\<forall>j \<in> ck \<union> st_done_ranges st. j < plan_chunk_count P \<longrightarrow> sound_at HO P bs stg j)
          \<and> (\<forall>prev. map_of (ms_inner t) key = Some prev \<longrightarrow> st_chunk_lens prev = cp_chunk_lens P
               \<longrightarrow> st_done_ranges prev \<subseteq> ck \<union> st_done_ranges st)
        else stg = [] \<or> (\<exists>prev. map_of (ms_inner t) key = Some prev \<and> st_chunk_lens prev \<noteq> cp_chunk_lens P))"

lemma sound_at_Nil: "sound_at HO P bs [] j"
  by (simp add: sound_at_def Let_def slice_def)

lemma tracked_resumable:
  assumes t: "tracked key HO P bs P' ck st (buf s) t" and s: "mem_valid H s"
  shows "resumable H HO key P bs s t"
proof (cases "cp_chunk_lens P' = cp_chunk_lens P")
  case True
  then show ?thesis using t s unfolding tracked_def resumable_def by (simp add: subset_iff)
next
  case False
  then consider "buf s = []" | prev where "map_of (ms_inner t) key = Some prev" "st_chunk_lens prev \<noteq> cp_chunk_lens P"
    using t unfolding tracked_def by auto
  then show ?thesis
  proof cases
    case 1
    then show ?thesis using t s unfolding tracked_def resumable_def by (simp add: sound_at_Nil)
  next
    case 2
    then show ?thesis using t s unfolding tracked_def resumable_def by simp
  qed
qed

lemma tracked_known:
  assumes "i \<in> ck" "tracked key HO P bs P' ck st stg t"
  shows "tracked key HO P bs P' ck (mark_done i st) stg t"
proof -
  have "ck \<union> insert i (st_done_ranges st) = ck \<union> st_done_ranges st" using assms(1) by blast
  then show ?thesis using assms(2) unfolding tracked_def mark_done_def by simp
qed

lemma tracked_saved:
  assumes t: "tracked key HO P bs P' ck st stg t" and i: "i < plan_chunk_count P'"
    and S: "start_of (cp_chunk_lens P') i \<le> length stg" "length c = unat (cp_chunk_lens P' ! i)"
    and c: "cp_chunk_lens P' = cp_chunk_lens P \<Longrightarrow> sha256_hex HO c = sha256_hex HO (slice bs (start_of (cp_chunk_lens P) i) (length c))
      \<Longrightarrow> c = slice bs (start_of (cp_chunk_lens P) i) (length c)"
  shows "tracked key HO P bs P' ck (mark_done i st) (place (start_of (cp_chunk_lens P') i) c stg)
    (snd (mem_save (mark_done i st) t))"
proof (cases "cp_chunk_lens P' = cp_chunk_lens P")
  case False
  then show ?thesis using t by (auto simp: tracked_def mark_done_def mem_save_def update_conv')
next
  case True
  let ?S = "start_of (cp_chunk_lens P) i"
  have iP: "i < plan_chunk_count P" using i True by (simp add: plan_chunk_count_def)
  have "sound_at HO P bs (place ?S c stg) i"
    using c[OF True] S(2) slice_place_same[of ?S c stg] True by (simp add: sound_at_def Let_def)
  moreover have "sound_at HO P bs (place ?S c stg) j" if "j \<in> ck \<union> st_done_ranges st" "j < plan_chunk_count P" "j \<noteq> i" for j
    using sound_at_write[OF iP that(2,3), of HO bs stg c] t that(1,2) S True by (simp add: tracked_def)
  ultimately have "\<forall>j \<in> ck \<union> st_done_ranges (mark_done i st). j < plan_chunk_count P \<longrightarrow> sound_at HO P bs (place ?S c stg) j"
    by (auto simp: mark_done_def)
  then show ?thesis using t True by (auto simp: tracked_def mark_done_def mem_save_def update_conv')
qed

lemma fetch_verified_fails:
  assumes "\<exists>cid. module_content_id sid rt = Decoded cid" "\<forall>c w. is_ok (fst (me_find_providers (md_env D) c w))"
    and "fetch_verified_chunk D info P i sid rt M = (Err e, M')"
  shows "is_not_found e"
proof -
  obtain cid where cid: "module_content_id sid rt = Decoded cid" using assms(1) by blast
  have "\<exists>ps. fst (me_find_providers (md_env D) cid w) = Ok ps" for w
    using assms(2) by (metis is_ok_def sum.case_eq_if sum.collapse(2))
  then have ok: "me_find_providers (md_env D) cid w = (x, w') \<Longrightarrow> \<exists>ps. x = Ok ps" for x w w' by (metis fst_conv)
  show ?thesis using assms(3) cid
    by (auto simp: fetch_verified_chunk_def chunk_exhausted_def Let_def split: prod.splits sum.splits dest!: ok)
qed

text \<open>Holders are only ever added.\<close>

lemma merge_keeps: "set known \<subseteq> set (merge_new_providers known others)"
  unfolding merge_new_providers_def
proof (induction others arbitrary: known)
  case (Cons p others)
  then show ?case by (auto simp: subset_iff)
qed simp

lemma fetch_verified_holders:
  "fetch_verified_chunk D info P i sid rt M = (r, M') \<Longrightarrow> set (mp_providers M) \<subseteq> set (mp_providers M')"
  using merge_keeps by (auto simp: fetch_verified_chunk_def Let_def split: prod.splits sum.splits hex_outcome.splits) blast+

section \<open>One pull\<close>

lemma guardedD:
  assumes "guarded D sid rt bs"
  shows "md_sink D = in_memory_sink (md_host D)" "ranges_ok (md_env D)" "md_store D = in_memory_state_store"
    "unat (md_max_module_size D) \<le> usize_max (md_host D)" "no_collision D sid rt bs" "puts_in_memory (md_host D) D"
    "streaming_hash (md_hash D)" "\<exists>cid. module_content_id sid rt = Decoded cid"
    "\<forall>c w. is_ok (fst (me_find_providers (md_env D) c w))"
    "vec_ok xs \<Longrightarrow> concludes xs (fst (me_anchor (md_env D) sid rt w)) (if xs = bs then Anchored else NotAnchored)"
  using assms by (simp_all add: guarded_def puts_in_memory_def)

text \<open>What an interrupted pull leaves: a state to resume from, and at least the holders it knew.\<close>

definition leaves ::
    "(mem_sink, mem_store, 'h, 'w) module_deps \<Rightarrow> rstring \<Rightarrow> chunk_plan \<Rightarrow> bytes
     \<Rightarrow> (mem_sink, mem_store, 'w) module_pull \<Rightarrow> (mem_sink, mem_store, 'w) module_pull \<Rightarrow> bool" where
  "leaves D key P bs M M' \<longleftrightarrow> resumable (md_host D) (md_hash D) key P bs (mp_sink M') (mp_store M')
     \<and> set (mp_providers M) \<subseteq> set (mp_providers M')"

lemma leaves_trans:
  "set (mp_providers M) \<subseteq> set (mp_providers M1) \<Longrightarrow> leaves D key P bs M1 M' \<Longrightarrow> leaves D key P bs M M'"
  by (auto simp: leaves_def)

lemma pull_chunks_leaves:
  assumes G: "guarded D sid rt bs" and P: "plan_ok P" "unat (cp_total_size P) = length bs"
    and P': "plan_ok P'" "cp_total_size P' \<le> md_max_module_size D"
  shows "\<lbrakk>i \<le> plan_chunk_count P'; start_of (cp_chunk_lens P') i \<le> length (buf (mp_sink M)); mem_valid (md_host D) (mp_sink M);
      tracked key (md_hash D) P bs P' ck st (buf (mp_sink M)) (mp_store M);
      pull_chunks D info P' sid rt ck [i ..< plan_chunk_count P'] st h any M = (r, M')\<rbrakk>
    \<Longrightarrow> leaves D key P bs M M' \<and> (\<forall>e. r \<noteq> Err (Terminal e))"
proof (induction "plan_chunk_count P' - i" arbitrary: i M st h any)
  case 0
  then show ?case using tracked_resumable by (auto simp: leaves_def)
next
  case (Suc n)
  note g = guardedD[OF G]
  let ?S = "start_of (cp_chunk_lens P')" and ?m = "mp_sink M"
  from Suc have i: "i < plan_chunk_count P'" and n: "n = plan_chunk_count P' - Suc i" by auto
  have rest: "[i ..< plan_chunk_count P'] = i # [Suc i ..< plan_chunk_count P']" using i by (simp add: upt_conv_Cons)
  obtain off len where s: "chunk_span P' i = (off, len)" by fastforce
  note c = plan_span[OF P'(1) i, unfolded s fst_conv snd_conv]
  have len: "len = cp_chunk_lens P' ! i" using s by (simp add: chunk_span_def)
  obtain x t where b: "(if i \<in> ck then read_back_verified_chunk D info i off len ?m else (None, ?m)) = (x, t)" by fastforce
  have t: "t = ?m" using b memory_read_back(1)[OF g(1)] by (auto split: if_splits)
  have fail: "resumable (md_host D) (md_hash D) key P bs ?m (mp_store M)"
    by (rule tracked_resumable[OF Suc.prems(4,3)])
  show ?case
  proof (cases x)
    case (Some xs)
    then have xs: "i \<in> ck" "?S (Suc i) \<le> length (buf ?m)"
      using b memory_read_back(2)[OF g(1), of info i off len ?m] c by (auto split: if_splits)
    have "pull_chunks D info P' sid rt ck [Suc i ..< plan_chunk_count P'] (mark_done i st) (h_update (md_hash D) h xs) True M = (r, M')"
      using Suc.prems(5) rest s b t Some by simp
    from Suc.hyps(1)[OF n _ xs(2) Suc.prems(3) tracked_known[OF xs(1) Suc.prems(4)] this] i show ?thesis by simp
  next
    case None
    obtain y M1 where f: "fetch_verified_chunk D info P' i sid rt M = (y, M1)" by fastforce
    note fr = fetch_verified_chunk_frame[OF f] and ho = fetch_verified_holders[OF f]
    show ?thesis
    proof (cases y)
      case (Inl e)
      have "is_not_found e" by (rule fetch_verified_fails[OF g(8,9) f[unfolded Inl]])
      then have "r = Err (UnsatisfiableDescriptor (describe_chunk_exhaustion e any)) \<and> M' = M1"
        using Suc.prems(5) rest s b t None f Inl by (simp add: chunk_failure_def)
      then show ?thesis using fail fr ho by (simp add: leaves_def)
    next
      case (Inr cs)
      note cs = fetch_verified_chunk_OkD[OF g(2) f[unfolded Inr], unfolded s snd_conv]
      have "?S (Suc i) \<le> unat (md_max_module_size D)" using c(3) P'(2) by (simp add: word_le_nat_alt)
      then have fit: "unat off + length cs < 2 ^ 64" "unat off + length cs \<le> usize_max (md_host D)"
        using c cs g(4) unat_bound[of "md_max_module_size D"] by simp_all
      let ?b = "place (?S i) cs (buf ?m)" and ?t = "snd (mem_save (mark_done i st) (mp_store M))"
      let ?M = "M1\<lparr>mp_sink := ?m\<lparr>buf := ?b\<rparr>, mp_store := ?t\<rparr>"
      have w: "sk_write_at (md_sink D) off cs (mp_sink M1) = (Ok (), ?m\<lparr>buf := ?b\<rparr>)"
        using mem_writes[OF fit] c(1) fr by (simp add: g(1) in_memory_sink_def default_sink_def)
      have u: "ss_save (md_store D) (mark_done i st) (mp_store M1) = (Ok (), ?t)"
        using fr by (simp add: g(3) in_memory_state_store_def mem_save_def)
      have own: "cs = slice bs (?S i) (length cs)"
        if "cp_chunk_lens P' = cp_chunk_lens P" "sha256_hex (md_hash D) cs = sha256_hex (md_hash D) (slice bs (?S i) (length cs))"
      proof -
        have "i < plan_chunk_count P" using i that(1) by (simp add: plan_chunk_count_def)
        then have "?S (Suc i) \<le> length bs" using plan_span(3)[OF P(1)] P(2) that(1) by simp
        then have "unat off + unat len \<le> length bs" using c(2) by simp
        moreover have e: "?S i = unat off" "length cs = unat len" using c(1) cs by simp_all
        ultimately show ?thesis using fetch_verified_sound[OF g(2,5) s _ f[unfolded Inr]] that(2) unfolding e by blast
      qed
      have "tracked key (md_hash D) P bs P' ck (mark_done i st) ?b ?t"
        by (rule tracked_saved[OF Suc.prems(4) i Suc.prems(2)]) (use cs len own in auto)
      moreover have "mem_valid (md_host D) (mp_sink ?M)" using Suc.prems(3) fit(2) c(1) by (simp add: mem_valid_def)
      moreover have "?S (Suc i) \<le> length ?b" using c cs by simp
      moreover have "pull_chunks D info P' sid rt ck [Suc i ..< plan_chunk_count P'] (mark_done i st)
          (h_update (md_hash D) h cs) True ?M = (r, M')"
        using Suc.prems(5) rest s b t None f Inr w u fr by simp
      ultimately have "leaves D key P bs ?M M' \<and> (\<forall>e. r \<noteq> Err (Terminal e))"
        using Suc.hyps(1)[OF n, of ?M "mark_done i st"] i by simp
      then show ?thesis using ho leaves_trans[of M ?M D key P bs M'] by simp
    qed
  qed
qed

lemma hash_gate_fails: "hash_gate HO info h = Err f \<Longrightarrow> f \<noteq> Terminal e"
  by (auto simp: hash_gate_def Let_def false_descriptor_def split: if_splits)

lemma from_info_fails: "from_info H info mx = Err f \<Longrightarrow> f \<noteq> Terminal e"
  by (auto simp: from_info_def Let_def false_descriptor_def split: if_splits option.splits)

lemma any_pull:
  assumes G: "guarded D sid rt bs" and P: "plan_ok P" "unat (cp_total_size P) = length bs"
    and M: "resumable (md_host D) (md_hash D) (module_download_key sid rt) P bs (mp_sink M) (mp_store M)"
    and r: "pull_with_descriptor D info sid rt M = (r, M')"
  shows "(\<exists>n. r = Ok n \<and> unat n = length bs \<and> mem_artifact (mp_sink M') = Some bs)
    \<or> (\<exists>f. r = Err f \<and> (\<forall>e. f \<noteq> Terminal e) \<and> leaves D (module_download_key sid rt) P bs M M')"
proof (cases "from_info (md_host D) info (md_max_module_size D)")
  case (Inl f)
  then show ?thesis using r M from_info_fails[OF Inl] by (auto simp: pull_with_descriptor_def leaves_def)
next
  case (Inr P')
  note g = guardedD[OF G] and p = from_info_OkD[OF Inr]
  note L = memory_puller[OF g(7), where H = "md_host D"] and W = memory_wired[OF g(6)]
  let ?key = "module_download_key sid rt"
  obtain st ck skn where s: "stage_module D info P' sid rt M
      = pull_chunks D info P' sid rt ck [0 ..< plan_chunk_count P'] st (h_init (md_hash D)) False (M\<lparr>mp_sink := skn\<rparr>)"
    "mem_valid (md_host D) skn" and st: "st_key st = ?key" "st_chunk_lens st = cp_chunk_lens P'" "st_done_ranges st = {}"
    and start: "(\<exists>prev. map_of (ms_inner (mp_store M)) ?key = Some prev
         \<and> st_chunk_lens prev = cp_chunk_lens P' \<and> ck = st_done_ranges prev \<and> skn = mp_sink M)
      \<or> ck = {} \<and> buf skn = [] \<and> (\<forall>prev. map_of (ms_inner (mp_store M)) ?key = Some prev \<longrightarrow> st_chunk_lens prev \<noteq> cp_chunk_lens P')"
    by (rule stage_module_start[OF g(1,3) M, of info P']) blast
  have t: "tracked ?key (md_hash D) P bs P' ck st (buf skn) (mp_store M)"
    using start
  proof (elim disjE exE conjE)
    fix prev
    assume "map_of (ms_inner (mp_store M)) ?key = Some prev" "st_chunk_lens prev = cp_chunk_lens P'" "ck = st_done_ranges prev" "skn = mp_sink M"
    then show ?thesis using M st unfolding tracked_def resumable_def by simp
  next
    assume "ck = {}" "buf skn = []"
      "\<forall>prev. map_of (ms_inner (mp_store M)) ?key = Some prev \<longrightarrow> st_chunk_lens prev \<noteq> cp_chunk_lens P'"
    then show ?thesis using M st unfolding tracked_def resumable_def by auto
  qed
  obtain y M1 where y: "stage_module D info P' sid rt M = (y, M1)" by fastforce
  let ?M = "M\<lparr>mp_sink := skn\<rparr>"
  have "leaves D ?key P bs ?M M1 \<and> (\<forall>e. y \<noteq> Err (Terminal e))"
    using pull_chunks_leaves[OF G P p(1), of 0 ?M ?key ck st info "h_init (md_hash D)" False y M1] p(2,5) s y t by simp
  then have l: "leaves D ?key P bs M M1" "\<And>e. y \<noteq> Err (Terminal e)" by (auto simp: leaves_def)
  show ?thesis
  proof (cases y)
    case (Inl f)
    then show ?thesis using r Inr y l by (auto simp: pull_with_descriptor_def)
  next
    case h: (Inr h)
    show ?thesis
    proof (cases "hash_gate (md_hash D) info h")
      case (Inl f)
      then show ?thesis using r Inr y h l(1) hash_gate_fails[OF Inl] by (auto simp: pull_with_descriptor_def)
    next
      case k: (Inr u)
      let ?n = "unat (cp_total_size P')" and ?b = "buf (mp_sink M1)"
      let ?xs = "take ?n ?b"
      have v1: "mem_valid (md_host D) (mp_sink M1)" using l(1) by (simp add: leaves_def resumable_def)
      have "module_puller.intact (mem_valid (md_host D)) mem_artifact None M"
        using M by (simp add: module_puller.intact_def[OF L] resumable_def mem_artifact_def mem_valid_def)
      from module_puller.stage_module_spec[OF L W p(1) this y] h
      have a: "?n \<le> length ?b" "attributed (md_hash D) info ?xs"
        using module_puller.hash_gate_spec[OF L Inr _ _ k, of ?b] by auto
      then have xs: "length ?xs = ?n" by simp
      have "readable D ?xs info P'" using Inr a v1 g(6) by (simp add: readable_def true_info_def mem_valid_def)
      note R = this anchor_gate_concludes[OF this _ v1, of sid rt "if ?xs = bs then Anchored else NotAnchored"]
      have "vec_ok ?xs" using xs unat_bound[of "cp_total_size P'"] by simp
      then obtain w where w: "snd (anchor_gate D info P' sid rt M1) = M1\<lparr>mp_world := w\<rparr>"
        "?xs = bs \<Longrightarrow> fst (anchor_gate D info P' sid rt M1) = Ok ()"
        "?xs \<noteq> bs \<Longrightarrow> \<exists>e. fst (anchor_gate D info P' sid rt M1) = Err (BadDescriptor e)"
        using R(2) g(10)[of ?xs "mp_world M1"] xs by auto
      show ?thesis
      proof (cases "?xs = bs")
        case True
        obtain M2 where "promote_module D P' ?key (M1\<lparr>mp_world := w\<rparr>) = (Ok (cp_total_size P'), M2)" "mem_artifact (mp_sink M2) = Some bs"
          using promotes_staged[OF R(1) g(3), of "M1\<lparr>mp_world := w\<rparr>" ?key] True xs v1 by auto
        then show ?thesis using r Inr y h k w(1) w(2)[OF True] xs True
          by (cases "anchor_gate D info P' sid rt M1") (auto simp: pull_with_descriptor_def)
      next
        case False
        then show ?thesis using r Inr y h k w(1) w(3)[OF False] l(1)
          by (cases "anchor_gate D info P' sid rt M1") (auto simp: pull_with_descriptor_def leaves_def)
      qed
    qed
  qed
qed

section \<open>The attempts\<close>

text \<open>One holder always answers with the true descriptor; a false one only comes from a liar.\<close>

definition describes ::
    "('s, 't, 'h, 'w) module_deps \<Rightarrow> rstring \<Rightarrow> rstring \<Rightarrow> rstring \<Rightarrow> module_info \<Rightarrow> rstring set \<Rightarrow> bool" where
  "describes D sid rt peer info liars \<longleftrightarrow>
     (\<forall>w. snd (fst (me_module_info (md_env D) peer sid rt w)) = Ok info
        \<and> fst (fst (me_module_info (md_env D) peer sid rt w)) \<le> md_range_timeout D)
     \<and> (\<forall>q w. case snd (fst (me_module_info (md_env D) q sid rt w)) of
                Ok i \<Rightarrow> i = info \<or> q \<in> liars
              | Err e \<Rightarrow> is_recoverable e)"

lemma ask_holders_reaches:
  assumes "describes D sid rt peer info liars" "peer \<notin> set skip"
  shows "peer \<in> provider_peer_id ` set ps \<Longrightarrow>
    \<exists>q i w'. ask_holders D skip sid rt ps n rs w = (Ok (q, i), w') \<and> q \<notin> set skip \<and> (i = info \<or> q \<in> liars - {peer})"
proof (induction ps arbitrary: n rs w)
  case Nil
  then show ?case by simp
next
  case (Cons p ps)
  let ?p = "provider_peer_id p"
  obtain el x w1 where m: "me_module_info (md_env D) ?p sid rt w = ((el, x), w1)" by (metis surj_pair)
  have x: "case x of Ok i \<Rightarrow> i = info \<or> ?p \<in> liars | Err e \<Rightarrow> is_recoverable e"
    using assms(1) m unfolding describes_def by (metis fst_conv snd_conv)
  have honest: "?p = peer \<Longrightarrow> x = Ok info \<and> el \<le> md_range_timeout D"
    using assms(1) m unfolding describes_def by (metis fst_conv snd_conv)
  show ?case
  proof (cases "?p \<in> set skip \<or> md_range_timeout D < el \<or> \<not> is_ok x")
    case True
    then have "?p \<noteq> peer" using honest assms(2) by (auto simp: is_ok_def)
    then have "peer \<in> provider_peer_id ` set ps" using Cons.prems by auto
    from Cons.IH[OF this] show ?thesis using True m x
      by (cases x) (auto simp: Let_def within_def is_ok_def)
  next
    case False
    then obtain i where "x = Ok i" by (cases x) (auto simp: is_ok_def)
    then show ?thesis using False m x honest by (auto simp: Let_def within_def)
  qed
qed

lemma remember_keeps:
  assumes "md_store D = in_memory_state_store"
  shows "mp_sink (remember_if_proven D k q f M) = mp_sink M" "mp_providers (remember_if_proven D k q f M) = mp_providers M"
    "ms_inner (mp_store (remember_if_proven D k q f M)) = ms_inner (mp_store M)"
  using assms by (simp_all add: remember_if_proven_def in_memory_state_store_def mem_record_bad_def Let_def)

lemma descriptor_loop_survives:
  assumes G: "guarded D sid rt bs" and H: "honest D sid rt bs peer info P" and S: "describes D sid rt peer info liars" "finite liars"
  shows "\<lbrakk>peer \<notin> set (excluded X); attempts + card (liars - set (excluded X)) < max_descriptor_attempts;
      resumable (md_host D) (md_hash D) (module_download_key sid rt) P bs (mp_sink M) (mp_store M);
      peer \<in> provider_peer_id ` set (mp_providers M)\<rbrakk>
    \<Longrightarrow> \<exists>n M'. descriptor_loop D sid rt attempts X M = (Ok n, M') \<and> unat n = length bs \<and> mem_artifact (mp_sink M') = Some bs"
proof (induction "card (liars - set (excluded X))" arbitrary: attempts X M rule: less_induct)
  case less
  note g = guardedD[OF G] and r = readableD[OF honestD(1)[OF H]]
  let ?key = "module_download_key sid rt"
  have usable: "usable_holders ps Y \<noteq> 0" if "peer \<in> provider_peer_id ` set ps" "peer \<notin> set (excluded Y)" for ps Y
    using that by (auto simp: usable_holders_def filter_empty_conv)
  obtain q i w where f: "fetch_module_info D (mp_providers M) (excluded X) sid rt (mp_world M) = (Ok (q, i), w)"
    "q \<notin> set (excluded X)" "i = info \<or> q \<in> liars - {peer}"
    using ask_holders_reaches[OF S(1) less.prems(1,4)] unfolding fetch_module_info_def by blast
  obtain x M1 where p: "pull_with_descriptor D i sid rt (M\<lparr>mp_world := w\<rparr>) = (x, M1)" by fastforce
  have start: "descriptor_loop D sid rt attempts X M =
      (case (x, M1) of (Ok n, M1) \<Rightarrow> (Ok n, M1)
       | (Err f, M1) \<Rightarrow> (case f of Terminal e \<Rightarrow> (Err e, M1)
          | _ \<Rightarrow> (let M2 = remember_if_proven D ?key q f M1; X2 = demote q X
                 in if max_descriptor_attempts \<le> attempts + 1 \<or> (usable_holders (mp_providers M2) X2 = 0 \<and> \<not> trusts_memory X2)
                    then (Err (failure_error f), M2) else descriptor_loop D sid rt (attempts + 1) X2 M2)))"
    using usable[OF less.prems(4,1)] f(1) p by (subst descriptor_loop.simps) simp
  have n: "unat (cp_total_size P) = length bs" by (rule r(9))
  consider "\<exists>n. x = Ok n \<and> unat n = length bs \<and> mem_artifact (mp_sink M1) = Some bs"
    | g where "x = Err g" "\<forall>e. g \<noteq> Terminal e" "leaves D ?key P bs M M1" "i \<noteq> info"
  proof (cases "i = info")
    case True
    have a: "accepts bs (fst (me_anchor (md_env D) sid rt w))" for w using g(10)[OF r(6)] by simp
    from honest_pull[OF H a, of "M\<lparr>mp_world := w\<rparr>"] less.prems(3,4) p True n that(1) show ?thesis by auto
  next
    case False
    from any_pull[OF G r(8) n _ p] less.prems(3) False that show ?thesis by (auto simp: leaves_def)
  qed
  then show ?case
  proof cases
    case 1
    then show ?thesis using start by auto
  next
    case (2 e)
    let ?M = "remember_if_proven D ?key q e M1" and ?X = "demote q X"
    have q: "q \<in> liars - set (excluded X)" "q \<noteq> peer" using f(2,3) 2(4) by auto
    have X: "set (excluded ?X) = insert q (set (excluded X))" by (auto simp: excluded_def demote_def)
    have "card (liars - set (excluded ?X)) + 1 = card (liars - set (excluded X))"
    proof -
      have "liars - set (excluded ?X) = liars - set (excluded X) - {q}" unfolding X by blast
      then show ?thesis using card_Suc_Diff1[OF _ q(1)] S(2) by simp
    qed
    moreover have "peer \<in> provider_peer_id ` set (mp_providers ?M)"
      using 2(3) less.prems(4) by (auto simp: remember_keeps[OF g(3)] leaves_def)
    moreover have "resumable (md_host D) (md_hash D) ?key P bs (mp_sink ?M) (mp_store ?M)"
      using 2(3) unfolding leaves_def resumable_def remember_keeps[OF g(3)] by blast
    moreover have "peer \<notin> set (excluded ?X)" using X q(2) less.prems(1) by simp
    ultimately have "\<exists>n M'. descriptor_loop D sid rt (attempts + 1) ?X ?M = (Ok n, M') \<and> unat n = length bs
        \<and> mem_artifact (mp_sink M') = Some bs" and "usable_holders (mp_providers ?M) ?X \<noteq> 0"
        and "\<not> max_descriptor_attempts \<le> attempts + 1"
      using less.hyps[of ?X "attempts + 1" ?M] usable[of "mp_providers ?M" ?X] less.prems(2) by simp_all
    then show ?thesis using start 2(1,2) by (cases e) (simp_all add: Let_def)
  qed
qed

section \<open>The whole download\<close>

lemma survives_liars:
  assumes "guarded D sid rt bs" and "honest D sid rt bs peer info P" and "describes D sid rt peer info liars"
    and "finite liars" "card liars \<le> 2"
    and "fst (me_find_providers (md_env D) (RootContent sb rb) w) = Ok ps" and "peer \<in> provider_peer_id ` set ps"
    and "length sb = 32" "sid = hex_of sb" "length rb = 32" "rt = hex_of rb"
    and "resumable (md_host D) (md_hash D) (module_download_key sid rt) P bs s t"
    and "fst (mem_bad_peers (module_download_key sid rt) t) = Ok past" "peer \<notin> set past"
  shows "\<exists>M'. module_download D sid rt s t w = Some (Ok (of_nat (length bs)), M') \<and> mem_artifact (mp_sink M') = Some bs"
proof -
  note g = guardedD[OF assms(1)]
  obtain w1 where fp: "me_find_providers (md_env D) (RootContent sb rb) w = (Ok ps, w1)"
    using assms(6) by (metis prod.collapse)
  have cid: "module_content_id sid rt = Decoded (RootContent sb rb)"
    using assms(8-11) by (simp add: module_content_id_def hex32_hex_of)
  let ?M = "\<lparr>mp_sink = s, mp_store = t, mp_world = w1, mp_providers = ps\<rparr>"
  have "remembered_verdicts D (module_download_key sid rt) ?M = (past, ?M)"
    using assms(13) by (simp add: remembered_verdicts_def g(3) in_memory_state_store_def mem_bad_peers_def)
  then have run: "module_download D sid rt s t w = Some (descriptor_loop D sid rt 0 (exclusions_new past) ?M)"
    using cid fp assms(7) by (auto simp: module_download_def Let_def)
  have "card (liars - set (excluded (exclusions_new past))) \<le> card liars" by (rule card_mono) (use assms(4) in auto)
  then obtain n M' where l: "descriptor_loop D sid rt 0 (exclusions_new past) ?M = (Ok n, M')" "unat n = length bs"
    "mem_artifact (mp_sink M') = Some bs"
    using descriptor_loop_survives[OF assms(1-4), of "exclusions_new past" 0 ?M] assms(5,7,12,14)
    by (auto simp: exclusions_new_def excluded_def max_descriptor_attempts_def)
  have "of_nat (unat n) = n" by simp
  then have "n = of_nat (length bs)" unfolding l(2) by (rule sym)
  then show ?thesis using run l by simp
qed

text \<open>
  C8: two liars cannot stop a download. Let one holder answer with the true descriptor and
  serve the module, no more than two holders ever answer with another descriptor, of any shape,
  and no holder produce a hash collision; let every answer that fails be one the client takes for
  recoverable, and the verifier tell the module from everything else. Then a download into memory
  succeeds and publishes exactly the module, whatever is staged, whatever the checkpoint claims and
  whomever past verdicts exclude, as long as that holder is not excluded.
\<close>

theorem lying_descriptors_survived:
  assumes "guarded D sid rt bs" and "honest D sid rt bs peer info P" and "describes D sid rt peer info liars"
    and "finite liars" "card liars \<le> 2"
    and "fst (me_find_providers (md_env D) (RootContent sb rb) w) = Ok ps" and "peer \<in> provider_peer_id ` set ps"
    and "length sb = 32" "sid = hex_of sb" "length rb = 32" "rt = hex_of rb"
    and "resumable (md_host D) (md_hash D) (module_download_key sid rt) P bs s t"
    and "fst (mem_bad_peers (module_download_key sid rt) t) = Ok past" "peer \<notin> set past"
  shows "\<exists>M'. module_download D sid rt s t w = Some (Ok (of_nat (length bs)), M') \<and> mem_artifact (mp_sink M') = Some bs"
  by (rule survives_liars[OF assms])

text \<open>
  The lying provider asked first with a descriptor of another layout, over a checkpoint that claims
  every chunk and a staging area full of zeros. The verifier reads everything in one window.
\<close>

definition whole_anchor :: "bytes \<Rightarrow> anchor_query" where
  "whole_anchor m = AskLen (\<lambda>n. ReadWindow 0 n (\<lambda>x. Verdict (if x = Ok m then Anchored else NotAnchored)))"

definition false_info :: module_info where
  "false_info = \<lparr>mi_total_size = 3, mi_module_hash = [], mi_chunk_hashes = [hex_of [0, 0], hex_of [0]], mi_chunk_lens = [2, 1]\<rparr>"

definition lying_deps :: "(mem_sink, mem_store, bytes, unit) module_deps" where
  "lying_deps = mixed_deps\<lparr>md_env := (md_env mixed_deps)
     \<lparr>me_module_info := (\<lambda>peer sid rt w. ((1, Ok (if peer = [3] then false_info else example_info)), w)),
      me_anchor := (\<lambda>sid rt w. (whole_anchor example_module, w))\<rparr>\<rparr>"

definition poisoned_sink :: mem_sink where
  "poisoned_sink = mem_sink_new\<lparr>buf := [0, 0, 0]\<rparr>"

definition poisoned_store :: mem_store where
  "poisoned_store = empty_store\<lparr>ms_inner := [(module_download_key example_store_id example_root,
     (download_state_new (module_download_key example_store_id example_root))
       \<lparr>st_chunk_lens := [2, 1], st_done_ranges := {0, 1}\<rparr>)]\<rparr>"

lemma whole_anchor_concludes:
  "vec_ok xs \<Longrightarrow> concludes xs (whole_anchor m) (if xs = m then Anchored else NotAnchored)"
proof -
  assume v: "vec_ok xs"
  then have "unat (len64 xs) = length xs" by (rule unat_len64)
  moreover from this have "slice xs (unat (0::u64)) (unat (len64 xs)) = xs" by (simp add: slice_def)
  ultimately show ?thesis unfolding whole_anchor_def
    by (auto intro!: concludes.asked_len[of "len64 xs"] concludes.window concludes.verdict
        intro: concludes.verdict[of xs Anchored, simplified] concludes.verdict[of xs NotAnchored, simplified])
qed

theorem lying_descriptors_survived_witness:
  "\<exists>M'. module_download lying_deps example_store_id example_root poisoned_sink poisoned_store () = Some (Ok 3, M')
     \<and> mem_artifact (mp_sink M') = Some [7, 8, 9]"
proof -
  let ?D = lying_deps
  have D: "md_sink ?D = in_memory_sink example_host" "md_store ?D = in_memory_state_store"
    "md_hash ?D = buffering_hash (\<lambda>bs. bs)" "md_host ?D = example_host" "md_max_module_size ?D = md_max_module_size mixed_deps"
    "me_module_range (md_env ?D) = me_module_range (md_env mixed_deps)" "md_range_timeout ?D = md_range_timeout mixed_deps"
    "md_hash mixed_deps = buffering_hash (\<lambda>bs. bs)" "md_host mixed_deps = example_host"
    "md_sink mixed_deps = in_memory_sink example_host" "md_store mixed_deps = in_memory_state_store"
    by (simp_all add: lying_deps_def mixed_deps_def)
  have ids: "length (replicate 32 1) = (32 :: nat)" "example_store_id = hex_of (replicate 32 1)"
    "length (replicate 32 2) = (32 :: nat)" "example_root = hex_of (replicate 32 2)"
    by (simp_all add: example_store_id_def example_root_def)
  have cid: "module_content_id example_store_id example_root = Decoded (RootContent (replicate 32 1) (replicate 32 2))"
    unfolding module_content_id_def ids(2,4) by (simp add: hex32_hex_of)
  have H: "honest ?D example_store_id example_root example_module [1] example_info example_plan"
    using mixed_honest[of example_store_id example_root] D
    by (simp add: honest_def readable_def puts_in_memory_def ranges_ok_def serves_def no_collision_def)
  have G: "guarded ?D example_store_id example_root example_module"
    using honestD[OF H] readableD(13)[OF honestD(1)[OF H]] cid whole_anchor_concludes[of _ example_module] D(4)
    by (auto simp: guarded_def lying_deps_def mixed_deps_def is_ok_def module_config_default_def
        default_max_module_size_def example_host_def)
  have S: "describes ?D example_store_id example_root [1] example_info {[3]}"
    by (auto simp: describes_def lying_deps_def mixed_deps_def module_config_default_def)
  have R: "resumable (md_host ?D) (md_hash ?D) (module_download_key example_store_id example_root) example_plan example_module
      poisoned_sink poisoned_store"
    using D by (auto simp: resumable_def sound_at_def Let_def mem_valid_def poisoned_sink_def poisoned_store_def mem_sink_new_def
        download_state_new_def sha256_hex_def buffering_hash_def hex_of_inj example_host_def)
  have dir: "fst (me_find_providers (md_env ?D) c ()) = Ok [lying_provider, example_provider]" for c
    by (simp add: lying_deps_def mixed_deps_def)
  have mem: "[1] \<in> provider_peer_id ` set [lying_provider, example_provider]" by (simp add: example_provider_def)
  have past: "fst (mem_bad_peers k poisoned_store) = Ok []" for k by (simp add: mem_bad_peers_def poisoned_store_def)
  from lying_descriptors_survived[OF G H S _ _ dir mem ids R past] show ?thesis by (simp add: example_module_def)
qed

end
