(* ===== verification/Mock_Module_Run.thy ===== *)
theory Mock_Module_Run
  imports Mock_Module Module_Resilient
begin

text \<open>
  Whole-module pulls over the in-memory holders (\<^verbatim>\<open>src/src/testkit.rs\<close> against
  \<^verbatim>\<open>src/src/module.rs\<close>): the holders as the environment of a pull, which of them lie about the
  descriptor, and that a pull gets the module from among them.
\<close>

section \<open>The holders as the environment of a pull\<close>

text \<open>One directory answer, and no time passes; a panic in a call ends the pull.\<close>

definition mock_module_env ::
    "host \<Rightarrow> 'h hash_ops \<Rightarrow> mock_module \<Rightarrow> provider_record list \<Rightarrow> anchor_query \<Rightarrow> mock_module_log module_env" where
  "mock_module_env H HO B ps q =
     \<lparr>me_find_providers = (\<lambda>c G. (fst (mock_find_providers c (locator_fixed ps)), G)),
      me_module_info = (\<lambda>peer sid rt G.
        (case mock_get_module_info HO B peer sid rt G of
           (Some r, G') \<Rightarrow> ((0, r), G')
         | (None, G') \<Rightarrow> ((0, Err TaskEnded), G'))),
      me_module_range = (\<lambda>peer sid rt off len G.
        (case mock_fetch_module_range H B peer sid rt off len G of
           (Some r, G') \<Rightarrow> ((0, r), G')
         | (None, G') \<Rightarrow> ((0, Err TaskEnded), G'))),
      me_anchor = (\<lambda>sid rt G. (q, G))\<rparr>"

definition mock_module_deps ::
    "host \<Rightarrow> 'h hash_ops \<Rightarrow> mock_module \<Rightarrow> provider_record list \<Rightarrow> anchor_query \<Rightarrow> nat \<Rightarrow> u64
     \<Rightarrow> (mem_sink, mem_store, 'h, mock_module_log) module_deps" where
  "mock_module_deps H HO B ps q limit mx =
     \<lparr>md_sink = in_memory_sink H, md_store = in_memory_state_store, md_hash = HO, md_env = mock_module_env H HO B ps q,
      md_range_timeout = limit, md_max_module_size = mx, md_host = H\<rparr>"

text \<open>No misbehaviour that all holders share, and no fault in the transport itself.\<close>

definition steady :: "mock_module \<Rightarrow> bool" where
  "steady B \<longleftrightarrow> \<not> mm_corrupt_module_hash B \<and> mm_declared_total_size B = None
     \<and> \<not> mm_budget B \<and> mm_severed_beyond B = None \<and> \<not> mm_info_failures B"

text \<open>The holders a transport makes lie about the descriptor.\<close>

definition liars_of :: "mock_module \<Rightarrow> rstring set" where
  "liars_of B = set_option (mm_wrong_descriptor_for B) \<union> set_option (mm_fabricated_chunk_hashes_for B)
     \<union> set_option (map_option fst (mm_alternate_module_for B)) \<union> set_option (mm_one_byte_liar B)
     \<union> set_option (map_option fst (mm_inflating_peer B))"

text \<open>The room the module needs, in the client's limits and in the transport's own arithmetic.\<close>

definition servable :: "host \<Rightarrow> u64 \<Rightarrow> mock_module \<Rightarrow> bool" where
  "servable H mx B \<longleftrightarrow>
     (let chunks = length (chunks_of (max (mm_chunk_size B) 1) (mm_blob B))
      in mm_blob B \<noteq> [] \<and> vec_ok (mm_blob B) \<and> len64 (mm_blob B) \<le> mx \<and> chunks \<le> 1048576
         \<and> reserve_refusal H (8 * chunks) = None \<and> unat mx + max (mm_chunk_size B) 1 \<le> usize_max H
         \<and> (\<forall>peer m. mm_alternate_module_for B = Some (peer, m) \<longrightarrow> vec_ok m))"

text \<open>Nothing the transport serves in place of a window of the module collides with that window.\<close>

definition collision_free :: "host \<Rightarrow> 'h hash_ops \<Rightarrow> mock_module \<Rightarrow> bool" where
  "collision_free H HO B \<longleftrightarrow>
     (\<forall>peer off len bs. window_bytes H B peer off len = Some bs \<longrightarrow> unat off + unat len \<le> length (mm_blob B)
        \<longrightarrow> sha256_hex HO (take (unat len) bs) = sha256_hex HO (slice (mm_blob B) (unat off) (unat len))
        \<longrightarrow> take (unat len) bs = slice (mm_blob B) (unat off) (unat len))"

section \<open>Descriptors\<close>

lemma descriptor_inflates:
  assumes "steady B" "mm_blob B \<noteq> []" "vec_ok (mm_blob B)"
  shows "\<exists>i. descriptor_inflated_to HO B n = Some i"
proof -
  let ?css = "chunks_of (max (mm_chunk_size B) 1) (mm_blob B)"
  let ?lens = "map len64 ?css"
  have d: "mock_descriptor HO B = Some (descriptor_of HO B (mm_blob B))"
    using assms(1) by (simp add: mock_descriptor_def steady_def Let_def)
  have c: "concat ?css = mm_blob B" by (rule chunks_of_concat) simp
  have ne: "?lens \<noteq> []" using assms(2) by simp
  have "unat (last ?lens) \<in> set (map unat ?lens)" using imageI[OF last_in_set[OF ne], of unat] by (simp only: set_map)
  then have "unat (last ?lens) \<le> sum_list (map unat ?lens)" by (rule member_le_sum_list) simp
  also have "\<dots> = length (mm_blob B)" using lens_of_pieces[of ?css] assms(3) unfolding c by (metis c length_concat)
  finally have "unat (last ?lens) + (unat n - length (mm_blob B)) < 2 ^ 64"
    using unat_bound[of n] unat_bound[of "last ?lens"] by (cases "length (mm_blob B) \<le> unat n") auto
  then have "\<exists>l. checked_add (last ?lens) (saturating_sub n (len64 (mm_blob B))) = Some l"
    using assms(3) by (cases "checked_add (last ?lens) (saturating_sub n (len64 (mm_blob B)))")
      (auto simp: checked_add_None_iff unat_saturating_sub unat_len64)
  then show ?thesis using d ne by (auto simp: descriptor_inflated_to_def grow_last_def descriptor_of_def Let_def)
qed

lemma mock_describes:
  assumes "steady B" "servable H mx B" "p \<notin> liars_of B"
  shows "describes (mock_module_deps H HO B ps q limit mx) (mm_store_id B) (mm_root B) p (descriptor_of HO B (mm_blob B)) (liars_of B)"
proof -
  have d: "mock_descriptor HO B = Some (descriptor_of HO B (mm_blob B))"
    using assms(1) by (simp add: mock_descriptor_def steady_def Let_def)
  have b: "mm_blob B \<noteq> []" "vec_ok (mm_blob B)" using assms(2) by (simp_all add: servable_def Let_def)
  have info: "\<exists>i. mock_get_module_info HO B r (mm_store_id B) (mm_root B) G = (Some (Ok i), G\<lparr>ml_info_calls := ml_info_calls G @ [r]\<rparr>)
      \<and> (i = descriptor_of HO B (mm_blob B) \<or> r \<in> liars_of B)" for r G
    using assms(1) d b(1) descriptor_inflates[OF assms(1) b, of HO]
    by (auto simp: mock_get_module_info_def Let_def steady_def liars_of_def lying_descriptor_def fabricated_chunk_hash_descriptor_def
        one_byte_then_unsatisfiable_descriptor_def)
  have answer: "\<exists>i G'. me_module_info (md_env (mock_module_deps H HO B ps q limit mx)) r (mm_store_id B) (mm_root B) G = ((0, Ok i), G')
      \<and> (i = descriptor_of HO B (mm_blob B) \<or> r \<in> liars_of B)" for r G
    using info[of r G] by (auto simp: mock_module_deps_def mock_module_env_def)
  show ?thesis unfolding describes_def
  proof (intro conjI allI)
    fix G
    show "snd (fst (me_module_info (md_env (mock_module_deps H HO B ps q limit mx)) p (mm_store_id B) (mm_root B) G)) = Ok (descriptor_of HO B (mm_blob B))"
      and "fst (fst (me_module_info (md_env (mock_module_deps H HO B ps q limit mx)) p (mm_store_id B) (mm_root B) G))
        \<le> md_range_timeout (mock_module_deps H HO B ps q limit mx)"
      using answer[of p G] assms(3) by auto
  next
    fix r G
    show "case snd (fst (me_module_info (md_env (mock_module_deps H HO B ps q limit mx)) r (mm_store_id B) (mm_root B) G)) of
        Ok i \<Rightarrow> i = descriptor_of HO B (mm_blob B) \<or> r \<in> liars_of B | Err e \<Rightarrow> is_recoverable e"
      using answer[of r G] by auto
  qed
qed

section \<open>Ranges\<close>

lemma mock_module_range:
  assumes "steady B"
  shows "me_module_range (mock_module_env H HO B ps q) peer sid rt off len G = ((0, Ok bs), G')
    \<Longrightarrow> window_bytes H B peer off len = Some bs
      \<or> mm_one_byte_liar B = Some peer \<and> off = 0 \<and> len = 1 \<and> mm_blob B \<noteq> [] \<and> bs = take 1 (mm_blob B)"
  using assms by (auto simp: mock_module_env_def mock_fetch_module_range_def steady_def Let_def split: option.splits if_splits)

lemma served_range:
  assumes "steady B" "p \<notin> liars_of B" "window_bytes H B p off len = Some bs"
  shows "\<exists>G'. me_module_range (mock_module_env H HO B ps q) p sid rt off len G = ((0, Ok bs), G')"
  using assms by (auto simp: mock_module_env_def mock_fetch_module_range_def steady_def liars_of_def Let_def)

lemma window_inside:
  assumes "p \<notin> liars_of B" "mm_tamper_peer B \<noteq> Some p" "unat off + unat len \<le> length (mm_blob B)"
    and "length (mm_blob B) + max (mm_chunk_size B) 1 \<le> usize_max H"
  shows "\<exists>bs. window_bytes H B p off len = Some bs \<and> take (unat len) bs = slice (mm_blob B) (unat off) (unat len)"
proof -
  let ?m = "mm_blob B" and ?w = "unat len + (if mm_overserve B then max (mm_chunk_size B) 1 else 0)"
  let ?bs = "slice ?m (unat off) (min (unat off + ?w) (length ?m) - unat off)"
  have a: "as_usize H off = unat off" "as_usize H len = unat len" using assms(3,4) by (simp_all add: as_usize_def)
  have s: "served_blob B p = ?m" using assms(1) by (auto simp: served_blob_def liars_of_def split: option.splits)
  have "\<not> (usize_max H < ?w \<or> usize_max H < unat off + ?w)" using assms(3,4) by auto
  then have "window_bytes H B p off len = Some ?bs" using assms(2,3) a s by (auto simp: window_bytes_def Let_def)
  moreover have "take (unat len) ?bs = slice ?m (unat off) (unat len)" using assms(3) by (auto simp: slice_def min_def)
  ultimately show ?thesis by blast
qed

lemma window_bytes_fit:
  assumes "vec_ok (served_blob B peer)" "window_bytes H B peer off len = Some bs"
  shows "vec_ok bs"
proof -
  let ?m = "served_blob B peer"
  have x: "length (if c \<and> xs \<noteq> [] then xor (hd xs) 255 # tl xs else xs) = length xs" for c and xs :: bytes by (cases xs) simp_all
  let ?i = "min (as_usize H off) (length ?m)" and ?w = "as_usize H len + (if mm_overserve B then max (mm_chunk_size B) 1 else 0)"
  let ?xs = "slice ?m ?i (min (?i + ?w) (length ?m) - ?i)"
  have "bs = (if mm_tamper_peer B = Some peer \<and> ?xs \<noteq> [] then xor (hd ?xs) 255 # tl ?xs else ?xs)"
    using assms(2) by (cases "usize_max H < ?w \<or> usize_max H < ?i + ?w")
      (simp_all only: window_bytes_def Let_def if_True if_False option.inject option.distinct)
  then have "length bs = length ?xs" using x[of _ ?xs] by (simp only:)
  moreover have "length (slice ?m i n) \<le> length ?m" for i n by (simp add: slice_def)
  ultimately have "length bs \<le> length ?m" by metis
  then show ?thesis using assms(1) by simp
qed

lemma servableD:
  assumes "servable H mx B"
  shows "mm_blob B \<noteq> []" "vec_ok (mm_blob B)" "len64 (mm_blob B) \<le> mx" "unat mx \<le> usize_max H"
    "length (mm_blob B) + max (mm_chunk_size B) 1 \<le> usize_max H" "vec_ok (served_blob B peer)"
    "\<exists>P. true_info H HO mx (mm_blob B) (descriptor_of HO B (mm_blob B)) P"
proof -
  note b = assms[unfolded servable_def Let_def]
  show v: "mm_blob B \<noteq> []" "vec_ok (mm_blob B)" "len64 (mm_blob B) \<le> mx" using b by simp_all
  have "length (mm_blob B) \<le> unat mx" using v(2,3) by (simp add: word_le_nat_alt unat_len64)
  then show "unat mx \<le> usize_max H" "length (mm_blob B) + max (mm_chunk_size B) 1 \<le> usize_max H" using b by linarith+
  then show "\<exists>P. true_info H HO mx (mm_blob B) (descriptor_of HO B (mm_blob B)) P" by (intro descriptor_plans) (use b in auto)
  show "vec_ok (served_blob B peer)" using b by (auto simp: served_blob_def split: option.splits)
qed

lemma mock_honest:
  assumes "streaming_hash HO" "steady B" "servable H mx B" "collision_free H HO B"
    and "p \<notin> liars_of B" "mm_tamper_peer B \<noteq> Some p"
  shows "\<exists>P. honest (mock_module_deps H HO B ps q limit mx) sid rt (mm_blob B) p (descriptor_of HO B (mm_blob B)) P"
proof -
  note v = servableD[OF assms(3)]
  let ?D = "mock_module_deps H HO B ps q limit mx"
  obtain P where P: "true_info H HO mx (mm_blob B) (descriptor_of HO B (mm_blob B)) P" using v(7) by blast
  have ok: "ranges_ok (mock_module_env H HO B ps q)" unfolding ranges_ok_def
  proof (intro allI impI)
    fix peer sid rt off len G el bs
    assume "fst (me_module_range (mock_module_env H HO B ps q) peer sid rt off len G) = (el, Ok bs)"
    moreover have "el = 0" if "fst (me_module_range (mock_module_env H HO B ps q) peer sid rt off len G) = (el, Ok bs)"
      using that by (auto simp: mock_module_env_def split: option.splits prod.splits)
    ultimately obtain G' where "me_module_range (mock_module_env H HO B ps q) peer sid rt off len G = ((0, Ok bs), G')"
      by (metis prod.collapse)
    from mock_module_range[OF assms(2) this] show "vec_ok bs" using window_bytes_fit[OF v(6)] by auto
  qed
  have "serves ?D sid rt (mm_blob B) p" unfolding serves_def
  proof (intro allI impI)
    fix off len :: u64 and G
    assume "unat off + unat len \<le> length (mm_blob B)"
    from window_inside[OF assms(5,6) this v(5)] obtain bs where
      "window_bytes H B p off len = Some bs" "take (unat len) bs = slice (mm_blob B) (unat off) (unat len)" by blast
    then show "\<exists>el cs w'. me_module_range (md_env ?D) p sid rt off len G = ((el, Ok cs), w')
        \<and> el \<le> md_range_timeout ?D \<and> take (unat len) cs = slice (mm_blob B) (unat off) (unat len)"
      using served_range[OF assms(2,5), of H off len bs HO ps q sid rt G] by (auto simp: mock_module_deps_def)
  qed
  moreover have "no_collision ?D sid rt (mm_blob B)" unfolding no_collision_def
  proof (intro allI impI)
    fix peer and off len :: u64 and G el cs w'
    assume a: "me_module_range (md_env ?D) peer sid rt off len G = ((el, Ok cs), w')"
      and i: "unat off + unat len \<le> length (mm_blob B)"
      and h: "sha256_hex (md_hash ?D) (take (unat len) cs) = sha256_hex (md_hash ?D) (slice (mm_blob B) (unat off) (unat len))"
    have "el = 0" using a by (auto simp: mock_module_deps_def mock_module_env_def split: option.splits prod.splits)
    then have "me_module_range (mock_module_env H HO B ps q) peer sid rt off len G = ((0, Ok cs), w')"
      using a by (simp add: mock_module_deps_def)
    from mock_module_range[OF assms(2) this] show "take (unat len) cs = slice (mm_blob B) (unat off) (unat len)"
      using assms(4) i h by (auto simp: collision_free_def mock_module_deps_def slice_def)
  qed
  ultimately have "honest ?D sid rt (mm_blob B) p (descriptor_of HO B (mm_blob B)) P"
    using P ok assms(1) by (simp add: honest_def readable_def puts_in_memory_def mock_module_deps_def)
  then show ?thesis ..
qed

section \<open>The download\<close>

text \<open>
  C10: a download in memory over the transport of the tests, with the verifier made
  for its module, publishes that module, whichever misbehaviours of single holders are switched on:
  one may flip the first byte of what it serves, and up to two may invent a descriptor, serve another
  module under its own descriptor, describe chunks that do not exist, serve one byte and then nothing,
  or declare more than there is. One holder that does none of this is enough.
\<close>

theorem mock_module_succeeds:
  assumes "streaming_hash HO" "steady B" "servable H mx B" "collision_free H HO B"
    and "p \<in> set ps" "provider_peer_id p \<notin> liars_of B" "mm_tamper_peer B \<noteq> Some (provider_peer_id p)" "card (liars_of B) \<le> 2"
    and "length sb = 32" "mm_store_id B = hex_of sb" "length rb = 32" "mm_root B = hex_of rb"
  shows "\<exists>M'. module_download (mock_module_deps H HO B ps (only_this_module_anchor (mm_blob B)) limit mx)
      (mm_store_id B) (mm_root B) mem_sink_new empty_store G = Some (Ok (len64 (mm_blob B)), M')
    \<and> mem_artifact (mp_sink M') = Some (mm_blob B)"
proof -
  let ?D = "mock_module_deps H HO B ps (only_this_module_anchor (mm_blob B)) limit mx"
  obtain P where h: "honest ?D (mm_store_id B) (mm_root B) (mm_blob B) (provider_peer_id p) (descriptor_of HO B (mm_blob B)) P"
    using mock_honest[OF assms(1-4,6,7)] by blast
  have "module_content_id (mm_store_id B) (mm_root B) = Decoded (RootContent sb rb)"
    unfolding module_content_id_def assms(10,12) using assms(9,11) by (simp add: hex32_hex_of)
  then have "guarded ?D (mm_store_id B) (mm_root B) (mm_blob B)"
    using honestD[OF h] readableD(13)[OF honestD(1)[OF h]] servableD(4)[OF assms(3)] only_this_concludes
    by (auto simp: guarded_def mock_module_deps_def mock_module_env_def mock_find_providers_def is_ok_def)
  moreover have "finite (liars_of B)" by (simp add: liars_of_def)
  moreover have "fst (me_find_providers (md_env ?D) c G) = Ok ps" for c
    by (simp add: mock_module_deps_def mock_module_env_def mock_find_providers_def locator_fixed_def)
  moreover have "resumable (md_host ?D) (md_hash ?D) key P (mm_blob B) mem_sink_new empty_store" for key
    by (rule resumable_fresh) (simp_all add: mem_valid_def mem_sink_new_def)
  ultimately show ?thesis
    using survives_liars[OF _ h mock_describes[OF assms(2,3,6)] _ assms(8) _ _ assms(9-12), of G ps mem_sink_new empty_store "[]"] assms(5)
    by (simp add: mem_bad_peers_def len64_def)
qed

text \<open>
  Four holders of three bytes in chunks of two: one flips first bytes, one describes a larger module,
  one serves another module, and the last is honest; all serve a chunk too much.
\<close>

definition hostile_module :: mock_module where
  "hostile_module = overserving (tampering [3] (inflating_total_size_from [4] 9
     (serving_alternate_module_from [5] [6, 6] (serving_module example_store_id example_root [7, 8, 9] 2))))"

definition hostile_providers :: "provider_record list" where
  "hostile_providers = map (\<lambda>i. example_provider\<lparr>provider_peer_id := [i]\<rparr>) [4, 5, 3, 1]"

theorem mock_module_succeeds_witness:
  "\<exists>M'. module_download (mock_module_deps example_host (buffering_hash (\<lambda>bs. bs)) hostile_module
        hostile_providers (only_this_module_anchor [7, 8, 9]) 30000 100)
      example_store_id example_root mem_sink_new empty_store log_new = Some (Ok 3, M')
    \<and> mem_artifact (mp_sink M') = Some [7, 8, 9]"
proof -
  have b: "mm_blob hostile_module = [7, 8, 9]" "mm_store_id hostile_module = example_store_id"
    "mm_root hostile_module = example_root" "mm_tamper_peer hostile_module = Some [3]" "mm_chunk_size hostile_module = 2"
    "mm_alternate_module_for hostile_module = Some ([5], [6, 6])"
    by (simp_all add: hostile_module_def overserving_def tampering_def inflating_total_size_from_def
        serving_alternate_module_from_def serving_module_def)
  have t: "steady hostile_module" "liars_of hostile_module = {[4], [5]}"
    by (auto simp: steady_def liars_of_def hostile_module_def overserving_def tampering_def inflating_total_size_from_def
        serving_alternate_module_from_def serving_module_def)
  have c: "length (chunks_of (max 2 1) [7, 8, 9]) = 2" by (simp add: chunks_of.simps)
  have "reserve_refusal example_host n = None" "usize_max example_host = 18446744073709551615" for n by (simp_all add: example_host_def)
  then have s: "servable example_host 100 hostile_module"
    unfolding servable_def Let_def b c by (simp add: len64_def)
  have f: "collision_free example_host (buffering_hash (\<lambda>bs. bs)) hostile_module"
    by (auto simp: collision_free_def sha256_hex_def buffering_hash_def hex_of_inj)
  have ids: "length (replicate 32 1) = (32 :: nat)" "example_store_id = hex_of (replicate 32 1)"
    "length (replicate 32 2) = (32 :: nat)" "example_root = hex_of (replicate 32 2)"
    by (simp_all add: example_store_id_def example_root_def)
  have p: "example_provider\<lparr>provider_peer_id := [1]\<rparr> \<in> set hostile_providers" by (simp add: hostile_providers_def)
  from mock_module_succeeds[OF buffering.streaming_hash_axioms t(1) s f p _ _ _ ids(1) _ ids(3), where limit = 30000 and G = log_new]
  show ?thesis using ids b t(2) by (simp add: len64_def)
qed

end
