(* ===== verification/Spec2Isabelle.thy ===== *)
theory Spec2Isabelle
  imports Lifecycle Module_Honest Ladder Onion Queue Pool Throttle Download_Live Mock_Verdicts Mock_Module_Run
begin

text \<open>
  A verification development for \<^verbatim>\<open>dig-download\<close>, the multi-source download engine of the DIG
  network (Rust, \<^verbatim>\<open>src/src/\<close>).

  \<^bigskip>

  \<^bold>\<open>The program.\<close> A download finds the holders of a content in a directory, asks them whether they have
  it, adopts the layout one of them declares as a commitment, cuts the resource into ranges at chunk
  boundaries, fetches the ranges from several holders at once, checks every range by itself and the
  whole resource by its digest and an inclusion proof, and only then renames the staging file onto
  the final name. A checkpoint of the ranges done makes it resumable. Beside it, a module download
  pulls a whole store module against a descriptor and gives the staged bytes to an anchor verifier
  before it publishes them. Around both are the pooled network transport, a queue, the collection of
  abandoned staging files, the rate limiter of the serve path, the choice of a node to read from and
  the relaying of streams for others.

  \<^bigskip>

  \<^bold>\<open>Theories and code.\<close>

  \<^item> \<^theory_text>\<open>Prelude\<close>: machine integers with their checked and saturating operations, results as sums
    (\<open>Ok\<close>, \<open>Err\<close>), text as lists of scalar values with their UTF-8 encoding, list operations.
  \<^item> \<^theory_text>\<open>Errors\<close>: \<^verbatim>\<open>error.rs\<close>. \<^theory_text>\<open>Filesystem\<close>: what the code uses of \<^verbatim>\<open>std::fs\<close>, directory entries that
    point to files, with faults injected by an oracle in the state.
  \<^item> \<^theory_text>\<open>Plan\<close>: \<^verbatim>\<open>plan.rs\<close>. \<^theory_text>\<open>Verify\<close>: \<^verbatim>\<open>verify.rs\<close>. \<^theory_text>\<open>Sink\<close>: \<^verbatim>\<open>sink.rs\<close>. \<^theory_text>\<open>Progress\<close>: \<^verbatim>\<open>progress.rs\<close>.
    \<^theory_text>\<open>Gc\<close>: \<^verbatim>\<open>gc.rs\<close>. \<^theory_text>\<open>Addr\<close>: \<^verbatim>\<open>addr.rs\<close> and \<^verbatim>\<open>locate.rs\<close>. \<^theory_text>\<open>Select\<close>: \<^verbatim>\<open>select.rs\<close>.
  \<^item> \<^theory_text>\<open>Source\<close>: the streams and the health of \<^verbatim>\<open>source.rs\<close>. \<^theory_text>\<open>Pool\<close>: its \<^verbatim>\<open>NatRangeTransport\<close>.
  \<^item> \<^theory_text>\<open>Orchestrator\<close>: the state of a \<^verbatim>\<open>Job\<close> of \<^verbatim>\<open>orchestrator.rs\<close> and its steps before the scheduler.
    \<^theory_text>\<open>Schedule\<close>: \<^verbatim>\<open>schedule_loop\<close>, \<^verbatim>\<open>run_inner\<close> and \<^verbatim>\<open>run\<close>, as functions and as the step relation
    \<open>sched_step\<close>. \<^theory_text>\<open>Schedule_Invariants\<close>, \<^theory_text>\<open>Completion\<close>, \<^theory_text>\<open>Staging\<close>, \<^theory_text>\<open>Download_Correct\<close>,
    \<^theory_text>\<open>Schedule_Progress\<close>: what holds of them. \<^theory_text>\<open>Download\<close>, \<^theory_text>\<open>Lifecycle\<close>, \<^theory_text>\<open>Download_Live\<close>: the
    properties on the repository's sinks, stores and claims.
  \<^item> \<^theory_text>\<open>Queue\<close>: \<^verbatim>\<open>queue.rs\<close> and the \<^verbatim>\<open>DownloadHandle\<close> of \<^verbatim>\<open>orchestrator.rs\<close>.
  \<^item> \<^theory_text>\<open>Module_Plan\<close> and \<^theory_text>\<open>Module_Pull\<close>: \<^verbatim>\<open>module.rs\<close>. \<^theory_text>\<open>Module_Correct\<close>, \<^theory_text>\<open>Module_Download\<close>: its
    contract and what a download leaves behind. \<^theory_text>\<open>Module_Memory\<close>, \<^theory_text>\<open>Module_Honest\<close>,
    \<^theory_text>\<open>Module_Resilient\<close>: when a download succeeds.
  \<^item> \<^theory_text>\<open>Ladder\<close>: \<^verbatim>\<open>read_ladder.rs\<close>. \<^theory_text>\<open>Onion\<close>: \<^verbatim>\<open>onion.rs\<close>. \<^theory_text>\<open>Throttle\<close>: \<^verbatim>\<open>throttle.rs\<close>.
  \<^item> \<^theory_text>\<open>Mock_Transport\<close>, \<^theory_text>\<open>Mock_Verdicts\<close>, \<^theory_text>\<open>Mock_Module\<close>, \<^theory_text>\<open>Mock_Module_Run\<close>: the in-memory holders of \<^verbatim>\<open>testkit.rs\<close>, and
    downloads run over them.

  Names follow the code; a name that clashes with the library has a suffix or a prefix. Every
  \<^verbatim>\<open>Result\<close> is a sum, every early return a branch; a panic is \<open>None\<close>, or a constructor of its own where
  it must be told from another absence. The traits are records of functions (\<open>sink_ops\<close>, \<open>state_ops\<close>,
  \<open>verifier_ops\<close>, \<open>selector_ops\<close>, \<open>env\<close>, \<open>module_env\<close>), their state is passed explicitly.

  \<^bigskip>

  \<^bold>\<open>Interfaces.\<close> Each trait whose laws the engine relies on has a locale, interpreted on the code's own
  implementations: \<open>observable_sink\<close> (the in-memory sink, the file sink, the file sink at a fixed
  name), \<open>state_store\<close> (in memory, in files), \<open>sound_verifier\<close> (the Merkle verifier),
  \<open>streaming_hash\<close> (a hash that digests what it has absorbed). The engines are locales over these,
  \<open>downloader\<close> and \<open>module_puller\<close>, interpreted on the file sink and the memory sink;
  \<open>honest_download\<close> adds holders that serve, and is interpreted on an example and on the mock network.

  \<^bigskip>

  \<^bold>\<open>What the theorems show.\<close>

  \<^item> Safety of both engines: a success has published exactly the bytes both gates accepted, a failure
    leaves the final name as it was; whatever the holders answer, in whatever order the fetches
    finish, over any checkpoint and any file-system fault (\<^theory_text>\<open>Download\<close>, \<^theory_text>\<open>Module_Download\<close>). With
    the verifier of the tests, which knows its module, nothing else is published (\<^theory_text>\<open>Mock_Module\<close>).
  \<^item> Progress: the caps and the bookkeeping are invariants of every reachable state, the number of
    fetches is bounded by ranges and failure budget, a download among honest holders, fresh or
    resumed, succeeds (\<^theory_text>\<open>Completion\<close>, \<^theory_text>\<open>Schedule_Progress\<close>, \<^theory_text>\<open>Download_Live\<close>, which also shows
    that a checkpoint taken with another window is taken over wrongly). For a module one honest holder is enough:
    holders may lie about chunks, up to two of them about the descriptor, and a staging area or a
    checkpoint left behind may hold anything (\<^theory_text>\<open>Module_Honest\<close>, \<^theory_text>\<open>Module_Resilient\<close>). The
    misbehaving holders of the tests are an instance (\<^theory_text>\<open>Mock_Module_Run\<close>).
  \<^item> The parts: the plan tiles the resource; the hasher fed in any order digests the resource; a
    promotion publishes the verified prefix or nothing; a checkpoint comes back as it was written;
    a stream of frames that disagree is refused and a conforming one reassembles; a sweep removes no
    claimed file; the pool gives only connections to the announced identity; the limiter keeps both
    rates and its order; the queue keeps its bound and order; the ladder and the relay decide as
    documented.

  \<^bigskip>

  \<^bold>\<open>Concurrency.\<close> The tasks of a download meet in one \<^verbatim>\<open>select!\<close>: the futures in flight are a list of
  the state, and a turn says which of them, or which other branch, finishes. \<open>schedule_loop\<close> takes the
  turns from a function of the world, \<open>sched_step\<close> takes any of them; \<^theory_text>\<open>Schedule_Progress\<close> proves
  that they agree. Pool, queue and event channel are step relations, and a task that waits has no step.

  \<^bigskip>

  \<^bold>\<open>Fuel.\<close> \<open>schedule_loop\<close> and \<open>run_job\<close> take the number of rounds, since a job can wait for ever for
  a holder; a result does not depend on the fuel once there is one, and an honest download needs one
  round more than its plan has ranges. \<open>acquire_loop\<close> needs two passes. \<open>only_windows\<close> is
  given one round more than the module has windows of seven bytes. All other loops end by a measure.

  \<^bigskip>

  \<^bold>\<open>Parameters.\<close> Code that is not in the repository is an argument: the digest (\<open>hash_ops\<close>), the inclusion
  proof check (\<open>proof_verifier\<close>), the directory, the holders and the clock (\<open>env\<close>, \<open>module_env\<close>), the dial,
  connection and stream decoder of \<^verbatim>\<open>dig-nat\<close> and \<^verbatim>\<open>dig-peer\<close>, the parser of IP addresses (\<open>ip_ops\<close>), the
  codec of a checkpoint, the width of \<^verbatim>\<open>usize\<close> and whether an allocation is refused (\<open>host\<close>).

  \<^bigskip>

  \<^bold>\<open>Idealised.\<close> The \<^verbatim>\<open>f64\<close> quantities of the limiter are rationals; the rounding of a wait to nanoseconds is
  kept. The sink and the checkpoint store of one run are separate disks; \<^theory_text>\<open>Lifecycle\<close> treats the one
  directory both may share. Time passes only in answers, sleeps and turns.

  \<^bold>\<open>Not modelled.\<close> \<^verbatim>\<open>lib.rs\<close> holds module declarations and re-exports only. Log lines, the derived
  \<^verbatim>\<open>Debug\<close> and \<^verbatim>\<open>Clone\<close> and the tests of the repository are left out, and so is everything in the crates it
  depends on, which is a parameter.
\<close>

end
